(* ===== verification/Prelude.thy ===== *)
theory Prelude
  imports Main "HOL-Library.Word"
begin

text \<open>
  Shared vocabulary of the development: bytes and byte sequences, the windows that
  \<^verbatim>\<open>std::span::subspan\<close> takes, and the lemmas on lists and words that the components
  use. A byte is an 8-bit word; a \<^verbatim>\<open>std::span<const std::byte>\<close> is the list of the bytes it
  shows, since no component of the codec compares addresses.
\<close>

unbundle bit_operations_syntax

type_synonym byte = "8 word"
type_synonym bytes = "byte list"

named_theorems span_simps \<open>rewrite rules for windows of byte sequences\<close>
named_theorems size_simps \<open>lengths of encodings\<close>

section \<open>Windows\<close>

text \<open>\<open>subspan off n b\<close> is \<^verbatim>\<open>b.subspan(off, n)\<close>, for a window inside \<open>b\<close>.\<close>

definition subspan :: "nat \<Rightarrow> nat \<Rightarrow> 'a list \<Rightarrow> 'a list" where
  "subspan off n b = take n (drop off b)"

lemma length_subspan [simp]: "length (subspan off n b) = min n (length b - off)"
  by (simp add: subspan_def)

lemma length_subspan_in: "off + n \<le> length b \<Longrightarrow> length (subspan off n b) = n"
  by simp

lemma subspan_0 [span_simps]: "subspan 0 n b = take n b"
  by (simp add: subspan_def)

lemma subspan_zero [simp]: "subspan off 0 b = []"
  by (simp add: subspan_def)

lemma subspan_whole [span_simps]: "n = length b \<Longrightarrow> subspan 0 n b = b"
  by (simp add: subspan_def)

lemma subspan_subspan [span_simps]:
  "i + k \<le> n \<Longrightarrow> subspan i k (subspan off n b) = subspan (off + i) k b"
  by (simp add: subspan_def drop_take min_def add.commute)

lemma subspan_append_left [span_simps]:
  "off + n \<le> length a \<Longrightarrow> subspan off n (a @ b) = subspan off n a"
  by (simp add: subspan_def)

lemma subspan_append_right [span_simps]:
  "length a \<le> off \<Longrightarrow> subspan off n (a @ b) = subspan (off - length a) n b"
  by (simp add: subspan_def)

lemma subspan_append_at [simp]:
  "off = length a \<Longrightarrow> n = length b \<Longrightarrow> subspan off n (a @ b @ c) = b"
  by (simp add: subspan_def)

lemma subspan_append_at' [simp]:
  "off = length a \<Longrightarrow> n = length b \<Longrightarrow> subspan off n (a @ b) = b"
  by (simp add: subspan_def)

lemma nth_subspan [simp]: "i < n \<Longrightarrow> off + i < length b \<Longrightarrow> subspan off n b ! i = b ! (off + i)"
  by (simp add: subspan_def)

lemma subspan_adjacent: "subspan off m b @ subspan (off + m) n b = subspan off (m + n) b"
  by (simp add: subspan_def take_add add.commute)

lemma take_drop_subspan: "take n (drop off b) = subspan off n b"
  by (simp add: subspan_def)

lemma subspan_drop: "subspan off n b @ drop (off + n) b = drop off b"
  unfolding subspan_def by (metis append_take_drop_id drop_drop add.commute)

lemma take_subspan_drop: "take off b @ subspan off n b @ drop (off + n) b = b"
  by (simp add: subspan_drop)

lemma drop_subspan_rest: "off \<le> length b \<Longrightarrow> subspan off (length b - off) b = drop off b"
  by (simp add: subspan_def)

section \<open>Lists\<close>

lemma length_ge_4_split:
  assumes "4 \<le> length b"
  obtains b0 b1 b2 b3 r where "b = b0 # b1 # b2 # b3 # r"
  using assms by (auto simp: Suc_le_length_iff numeral_eq_Suc)

lemma sum_list_map_le: "(\<And>x. x \<in> set xs \<Longrightarrow> f x \<le> (g x :: nat)) \<Longrightarrow> sum_list (map f xs) \<le> sum_list (map g xs)"
  by (rule sum_list_mono)

lemma concat_map_singleton_id: "concat (map (\<lambda>x. [x]) xs) = xs"
  by (induction xs) simp_all

section \<open>Words\<close>

lemma unat_of_nat_word: "n < 2 ^ LENGTH('a) \<Longrightarrow> unat (of_nat n :: 'a::len word) = n"
  by (simp add: unat_of_nat take_bit_nat_eq_self)

lemma unat_less_pow: "unat (w :: 'a::len word) < 2 ^ LENGTH('a)"
  by (rule unsigned_less)

lemma byte_unat_less: "unat (b :: byte) < 256"
  using unsigned_less [of b] by simp

lemma byte_of_nat_unat: "n < 256 \<Longrightarrow> unat (of_nat n :: byte) = n"
  by (rule unat_of_nat_word) simp

lemma word_eqI_bit: "(\<And>i. i < LENGTH('a) \<Longrightarrow> bit a i = bit (b :: 'a::len word) i) \<Longrightarrow> a = b"
  by (rule bit_word_eqI)

end
