(* ===== verification/Byteorder.thy ===== *)
theory Byteorder
  imports Prelude
begin

text \<open>
  The little-endian integer codec of \<^verbatim>\<open>core/include/libtracer/byteorder.hpp\<close>:
  \<open>load_le\<close>, \<open>store_le\<close> and the vector form of \<open>append_le\<close>, generic in the integer
  width as the templates are. The lemmas give the two round trips and the numeric reading
  of a loaded value.
\<close>

section \<open>The codec\<close>

text \<open>
  The loop of \<^verbatim>\<open>load_le\<close> ors byte \<open>i\<close>, shifted left by \<open>8 * i\<close>, into the value; only the
  low \<open>min(in.size(), sizeof(T))\<close> bytes are read.
\<close>

primrec load_le_loop :: "bytes \<Rightarrow> nat \<Rightarrow> 'a::len word \<Rightarrow> 'a word" where
  "load_le_loop [] i value = value"
| "load_le_loop (b # bs) i value =
     load_le_loop bs (Suc i) (value OR push_bit (8 * i) (ucast b))"

definition load_le :: "bytes \<Rightarrow> 'a::len word" where
  "load_le in_bytes =
     (let n = (if length in_bytes < LENGTH('a) div 8 then length in_bytes else LENGTH('a) div 8)
      in load_le_loop (take n in_bytes) 0 0)"

text \<open>The bytes the \<^verbatim>\<open>store_le\<close> loop writes: byte \<open>i\<close> is \<open>value >> (8 * i)\<close>, truncated.\<close>

definition le_bytes :: "'a::len word \<Rightarrow> nat \<Rightarrow> bytes" where
  "le_bytes value width = map (\<lambda>i. ucast (drop_bit (8 * i) value)) [0..<width]"

definition store_le :: "bytes \<Rightarrow> 'a::len word \<Rightarrow> nat \<Rightarrow> bytes" where
  "store_le out value width = le_bytes value width @ drop width out"

definition append_le :: "bytes \<Rightarrow> 'a::len word \<Rightarrow> nat \<Rightarrow> bytes" where
  "append_le out value width = out @ le_bytes value width"

section \<open>Lengths\<close>

lemma length_le_bytes [simp, size_simps]: "length (le_bytes value width) = width"
  by (simp add: le_bytes_def)

lemma length_store_le [simp, size_simps]:
  "width \<le> length out \<Longrightarrow> length (store_le out value width) = length out"
  by (simp add: store_le_def)

lemma length_append_le [simp, size_simps]: "length (append_le out value width) = length out + width"
  by (simp add: append_le_def)

section \<open>Bits of a loaded value\<close>

lemma bit_load_le_loop:
  "bit (load_le_loop bs i v :: 'a::len word) k \<longleftrightarrow>
     bit v k \<or> (k < LENGTH('a) \<and> 8 * i \<le> k \<and> k < 8 * (i + length bs) \<and>
                bit (bs ! (k div 8 - i)) (k mod 8))"
proof (induction bs arbitrary: i v)
  case Nil
  show ?case by auto
next
  case (Cons b bs)
  have here: "bit (push_bit (8 * i) (ucast b :: 'a word)) k \<longleftrightarrow>
      k < LENGTH('a) \<and> 8 * i \<le> k \<and> k < 8 * i + 8 \<and> bit b (k - 8 * i)"
    by (auto simp: bit_simps dest: bit_imp_le_length)
  show ?case
  proof (cases "8 * i \<le> k \<and> k < 8 * i + 8")
    case True
    then have d: "k div 8 = i" by auto
    have "k - 8 * i = k mod 8" using minus_mult_div_eq_mod [of k 8] d by simp
    with True d show ?thesis by (auto simp: Cons.IH bit_or_iff here)
  next
    case False
    show ?thesis
    proof (cases "8 * Suc i \<le> k")
      case True
      then have "k div 8 - i = Suc (k div 8 - Suc i)" by auto
      with False True show ?thesis by (auto simp: Cons.IH bit_or_iff here)
    next
      case lt: False
      with False show ?thesis by (auto simp: Cons.IH bit_or_iff here)
    qed
  qed
qed

lemma bit_load_le:
  "bit (load_le bs :: 'a::len word) k \<longleftrightarrow>
     k < LENGTH('a) \<and> k < 8 * min (length bs) (LENGTH('a) div 8) \<and> bit (bs ! (k div 8)) (k mod 8)"
proof -
  have m: "(if length bs < n then length bs else n) = min (length bs) n" for n :: nat
    by (simp add: min_def)
  show ?thesis
    unfolding load_le_def Let_def m bit_load_le_loop by (auto simp: less_mult_imp_div_less mult.commute)
qed

lemma bit_le_bytes:
  "i < width \<Longrightarrow> bit (le_bytes (value :: 'a::len word) width ! i) k \<longleftrightarrow> k < 8 \<and> bit value (8 * i + k)"
  by (auto simp: le_bytes_def bit_simps dest: bit_imp_le_length)

section \<open>Round trips\<close>

lemma load_le_le_bytes:
  assumes "width \<le> LENGTH('a) div 8"
  shows "(load_le (le_bytes (v :: 'b::len word) width) :: 'a::len word) = ucast (take_bit (8 * width) v)"
proof (rule bit_word_eqI)
  fix k assume k: "k < LENGTH('a)"
  have "k div 8 < width \<longleftrightarrow> k < 8 * width" by auto
  moreover have "8 * (k div 8) + k mod 8 = k" by simp
  ultimately show "bit (load_le (le_bytes v width) :: 'a word) k = bit (ucast (take_bit (8 * width) v) :: 'a word) k"
    using assms k by (auto simp: bit_load_le bit_le_bytes bit_simps min_def dest: bit_imp_le_length)
qed

lemma load_le_store_le_same:
  assumes "8 * width = LENGTH('a)"
  shows "load_le (le_bytes (v :: 'a::len word) width) = v"
  using assms by (simp add: load_le_le_bytes take_bit_word_eq_self)

lemma le_bytes_load_le:
  assumes "length bs = width" and "width \<le> LENGTH('a) div 8"
  shows "le_bytes (load_le bs :: 'a::len word) width = bs"
proof (rule nth_equalityI)
  show "length (le_bytes (load_le bs :: 'a word) width) = length bs" using assms by simp
  fix i assume "i < length (le_bytes (load_le bs :: 'a word) width)"
  then have i: "i < width" by simp
  show "le_bytes (load_le bs :: 'a word) width ! i = bs ! i"
  proof (rule bit_word_eqI)
    fix k assume "k < LENGTH(8)"
    then have k: "k < 8" by simp
    have "8 * i + k < 8 * width" using i k by auto
    moreover have "8 * width \<le> LENGTH('a)" using assms(2) by auto
    ultimately have "8 * i + k < LENGTH('a)" by simp
    moreover have "(8 * i + k) div 8 = i" "(8 * i + k) mod 8 = k" using k by auto
    ultimately show "bit (le_bytes (load_le bs :: 'a word) width ! i) k = bit (bs ! i) k"
      using i k assms by (simp add: bit_le_bytes bit_load_le)
  qed
qed

lemma load_le_inject:
  assumes "load_le a = (load_le b :: 'a::len word)" and "length a = length b" and "length b \<le> LENGTH('a) div 8"
  shows "a = b"
  using assms le_bytes_load_le by metis

section \<open>The numeric reading\<close>

lemma unat_load_le_less:
  assumes "length bs \<le> LENGTH('a) div 8"
  shows "unat (load_le bs :: 'a::len word) < 2 ^ (8 * length bs)"
proof -
  have "take_bit (8 * length bs) (load_le bs :: 'a word) = load_le bs"
    using assms by (intro bit_word_eqI) (auto simp: bit_simps bit_load_le)
  then have "unat (load_le bs :: 'a word) = take_bit (8 * length bs) (unat (load_le bs :: 'a word))"
    by (metis unsigned_take_bit_eq)
  then show ?thesis by (metis take_bit_nat_less_exp)
qed

lemma ucast_load_le:
  assumes "length bs \<le> LENGTH('a) div 8" and "length bs \<le> LENGTH('b) div 8"
  shows "ucast (load_le bs :: 'a::len word) = (load_le bs :: 'b::len word)"
  using assms by (intro bit_word_eqI) (auto simp: bit_simps bit_load_le dest: bit_imp_le_length)

lemma unat_load_le_le_bytes:
  assumes "width \<le> LENGTH('a) div 8" and "n < 2 ^ (8 * width)" and "8 * width \<le> LENGTH('b)"
  shows "unat (load_le (le_bytes (of_nat n :: 'b::len word) width) :: 'a::len word) = n"
proof -
  have "8 * width \<le> LENGTH('a)" using assms(1) by auto
  then have "(2::nat) ^ (8 * width) \<le> 2 ^ LENGTH('a)" by simp
  moreover have "(2::nat) ^ (8 * width) \<le> 2 ^ LENGTH('b)" using assms(3) by simp
  ultimately have "n < 2 ^ LENGTH('a)" "n < 2 ^ LENGTH('b)" using assms(2) by linarith+
  then show ?thesis
    using assms by (simp add: load_le_le_bytes unsigned_ucast_eq unsigned_take_bit_eq unat_of_nat
        take_bit_nat_eq_self)
qed

end
