(* ===== verification/Crc.thy ===== *)
theory Crc
  imports Byteorder
begin

text \<open>
  The frame checks of \<^verbatim>\<open>core/include/libtracer/crc.hpp\<close>: the CRC-32C and CRC-16-CCITT
  tables, the byte-at-a-time (Sarwate) fold, the slice-by-8 fold, the hardware path with the
  CPU's instruction as a parameter, and the running accumulators. The lemmas show that every
  path computes the bit-serial CRC, that feeding chunks equals feeding their concatenation,
  and that an error confined to one word of the message never keeps the checksum.
\<close>

section \<open>Tables and folds\<close>

text \<open>One iteration of the inner loops of \<^verbatim>\<open>crc32c_table\<close> and \<^verbatim>\<open>crc16_table\<close>.\<close>

definition crc32c_bit :: "32 word \<Rightarrow> 32 word" where
  "crc32c_bit c = (if c AND 1 \<noteq> 0 then 0x82F63B78 XOR drop_bit 1 c else drop_bit 1 c)"

definition crc16_bit :: "16 word \<Rightarrow> 16 word" where
  "crc16_bit c = (if c AND 0x8000 \<noteq> 0 then push_bit 1 c XOR 0x1021 else push_bit 1 c)"

definition crc32c_table :: "32 word list" where
  "crc32c_table = map (\<lambda>i. (crc32c_bit ^^ 8) (of_nat i)) [0..<256]"

definition crc16_table :: "16 word list" where
  "crc16_table = map (\<lambda>i. (crc16_bit ^^ 8) (push_bit 8 (of_nat i))) [0..<256]"

text \<open>One byte folded into the running state through the table.\<close>

definition crc32c_byte :: "32 word \<Rightarrow> byte \<Rightarrow> 32 word" where
  "crc32c_byte c b = crc32c_table ! unat ((c XOR ucast b) AND 0xFF) XOR drop_bit 8 c"

text \<open>
  The slice tables: \<open>t[0]\<close> is the base table and \<open>t[k][i]\<close> continues from \<open>t[k-1][i]\<close>
  by one more zero byte.
\<close>

definition crc32c_slice_tables :: "32 word list list" where
  "crc32c_slice_tables =
     map (\<lambda>k. map (\<lambda>i. ((\<lambda>c. crc32c_table ! unat (c AND 0xFF) XOR drop_bit 8 c) ^^ k) (crc32c_table ! i))
              [0..<256]) [0..<8]"

definition crc_load_le32 :: "bytes \<Rightarrow> nat \<Rightarrow> 32 word" where
  "crc_load_le32 p at =
     ucast (p ! at) OR push_bit 8 (ucast (p ! (at + 1))) OR
     push_bit 16 (ucast (p ! (at + 2))) OR push_bit 24 (ucast (p ! (at + 3)))"

text \<open>\<^verbatim>\<open>crc32c_soft<1>\<close> and \<^verbatim>\<open>crc32c_soft<8>\<close>.\<close>

definition crc32c_soft1 :: "32 word \<Rightarrow> bytes \<Rightarrow> 32 word" where
  "crc32c_soft1 c p = foldl crc32c_byte c p"

function crc32c_soft8 :: "32 word \<Rightarrow> bytes \<Rightarrow> 32 word" where
  "crc32c_soft8 c p =
     (if 8 \<le> length p then
        let lo = c XOR crc_load_le32 p 0;
            hi = crc_load_le32 p 4;
            t = (\<lambda>k i. crc32c_slice_tables ! k ! unat i)
        in crc32c_soft8
             (t 7 (lo AND 0xFF) XOR t 6 (drop_bit 8 lo AND 0xFF) XOR
              t 5 (drop_bit 16 lo AND 0xFF) XOR t 4 (drop_bit 24 lo AND 0xFF) XOR
              t 3 (hi AND 0xFF) XOR t 2 (drop_bit 8 hi AND 0xFF) XOR
              t 1 (drop_bit 16 hi AND 0xFF) XOR t 0 (drop_bit 24 hi AND 0xFF))
             (drop 8 p)
      else foldl crc32c_byte c p)"
  by pat_completeness auto
termination
  by (relation "measure (\<lambda>(c, p). length p)") auto

declare crc32c_soft8.simps [simp del]

text \<open>
  The hardware folds. The CPU's instructions are not under \<^verbatim>\<open>src/\<close>: they are the fields of
  \<open>crc_intrinsics\<close>. The word loops copy the next bytes into a register, which on the
  little-endian hosts that have these instructions is \<open>load_le\<close>.
\<close>

record crc_intrinsics =
  mm_crc32_u8 :: "32 word \<Rightarrow> byte \<Rightarrow> 32 word"
  mm_crc32_u32 :: "32 word \<Rightarrow> 32 word \<Rightarrow> 32 word"
  mm_crc32_u64 :: "64 word \<Rightarrow> 64 word \<Rightarrow> 64 word"
  arm_crc32cb :: "32 word \<Rightarrow> byte \<Rightarrow> 32 word"
  arm_crc32cd :: "32 word \<Rightarrow> 64 word \<Rightarrow> 32 word"

function hw_word_loop :: "nat \<Rightarrow> ('s \<Rightarrow> bytes \<Rightarrow> 's) \<Rightarrow> 's \<Rightarrow> bytes \<Rightarrow> 's \<times> bytes" where
  "hw_word_loop k step s p =
     (if 0 < k \<and> k \<le> length p then hw_word_loop k step (step s (take k p)) (drop k p) else (s, p))"
  by pat_completeness auto
termination
  by (relation "measure (\<lambda>(k, step, s, p). length p)") auto

declare hw_word_loop.simps [simp del]

definition crc32c_hw_x86_64 :: "crc_intrinsics \<Rightarrow> 32 word \<Rightarrow> bytes \<Rightarrow> 32 word" where
  "crc32c_hw_x86_64 cpu c p =
     (let (crc, rest) = hw_word_loop 8 (\<lambda>crc v. mm_crc32_u64 cpu crc (load_le v)) (ucast c) p
      in foldl (mm_crc32_u8 cpu) (ucast crc) rest)"

definition crc32c_hw_x86_32 :: "crc_intrinsics \<Rightarrow> 32 word \<Rightarrow> bytes \<Rightarrow> 32 word" where
  "crc32c_hw_x86_32 cpu c p =
     (let (c, rest) = hw_word_loop 4 (\<lambda>c v. mm_crc32_u32 cpu c (load_le v)) c p
      in foldl (mm_crc32_u8 cpu) c rest)"

definition crc32c_hw_arm :: "crc_intrinsics \<Rightarrow> 32 word \<Rightarrow> bytes \<Rightarrow> 32 word" where
  "crc32c_hw_arm cpu c p =
     (let (c, rest) = hw_word_loop 8 (\<lambda>c v. arm_crc32cd cpu c (load_le v)) c p
      in foldl (arm_crc32cb cpu) c rest)"

text \<open>
  The dispatch of \<^verbatim>\<open>crc32c_update_runtime\<close>: hardware where the build and the CPU have it, else
  the fold the build's \<^verbatim>\<open>config_t::kCrc32cSlices\<close> picks (1 or 8). The flag of an x86 build is what
  the CPU probe answers.
\<close>

datatype crc_build = Crc_x86_64 bool | Crc_x86_32 bool | Crc_arm | Crc_portable

definition crc32c_soft :: "nat \<Rightarrow> 32 word \<Rightarrow> bytes \<Rightarrow> 32 word" where
  "crc32c_soft slices = (if slices = 1 then crc32c_soft1 else crc32c_soft8)"

fun crc32c_update_runtime :: "crc_build \<Rightarrow> nat \<Rightarrow> crc_intrinsics \<Rightarrow> 32 word \<Rightarrow> bytes \<Rightarrow> 32 word" where
  "crc32c_update_runtime (Crc_x86_64 have_hw) slices cpu c data =
     (if have_hw then crc32c_hw_x86_64 cpu c data else crc32c_soft slices c data)"
| "crc32c_update_runtime (Crc_x86_32 have_hw) slices cpu c data =
     (if have_hw then crc32c_hw_x86_32 cpu c data else crc32c_soft slices c data)"
| "crc32c_update_runtime Crc_arm slices cpu c data = crc32c_hw_arm cpu c data"
| "crc32c_update_runtime Crc_portable slices cpu c data = crc32c_soft slices c data"

text \<open>The constant-evaluated branch of \<^verbatim>\<open>crc32c_update\<close>, which the other branches equal.\<close>

definition crc32c_update :: "32 word \<Rightarrow> bytes \<Rightarrow> 32 word" where
  "crc32c_update c data = foldl crc32c_byte c data"

definition crc16_update :: "16 word \<Rightarrow> bytes \<Rightarrow> 16 word" where
  "crc16_update c data =
     foldl (\<lambda>c b. let idx = ucast (drop_bit 8 c) XOR b :: byte
                   in crc16_table ! unat idx XOR push_bit 8 c) c data"

section \<open>The running accumulators\<close>

record crc32c_state_t = crc32c_c :: "32 word"
record crc16_ccitt_state_t = crc16_c :: "16 word"

definition crc32c_init :: crc32c_state_t where
  "crc32c_init = \<lparr>crc32c_c = 0xFFFFFFFF\<rparr>"

definition crc32c_feed :: "crc32c_state_t \<Rightarrow> bytes \<Rightarrow> crc32c_state_t" where
  "crc32c_feed s data = s\<lparr>crc32c_c := crc32c_update (crc32c_c s) data\<rparr>"

definition crc32c_value :: "crc32c_state_t \<Rightarrow> 32 word" where
  "crc32c_value s = crc32c_c s XOR 0xFFFFFFFF"

definition crc16_init :: crc16_ccitt_state_t where
  "crc16_init = \<lparr>crc16_c = 0xFFFF\<rparr>"

definition crc16_feed :: "crc16_ccitt_state_t \<Rightarrow> bytes \<Rightarrow> crc16_ccitt_state_t" where
  "crc16_feed s data = s\<lparr>crc16_c := crc16_update (crc16_c s) data\<rparr>"

definition crc16_value :: "crc16_ccitt_state_t \<Rightarrow> 16 word" where
  "crc16_value s = crc16_c s"

definition crc32c :: "bytes \<Rightarrow> 32 word" where
  "crc32c data = crc32c_value (crc32c_feed crc32c_init data)"

definition crc32c2 :: "bytes \<Rightarrow> bytes \<Rightarrow> 32 word" where
  "crc32c2 a b = crc32c_value (crc32c_feed (crc32c_feed crc32c_init a) b)"

definition crc16_ccitt :: "bytes \<Rightarrow> 16 word" where
  "crc16_ccitt data = crc16_value (crc16_feed crc16_init data)"

definition crc16_ccitt2 :: "bytes \<Rightarrow> bytes \<Rightarrow> 16 word" where
  "crc16_ccitt2 a b = crc16_value (crc16_feed (crc16_feed crc16_init a) b)"

section \<open>Feeding chunks\<close>

lemma crc32c_update_append: "crc32c_update c (a @ b) = crc32c_update (crc32c_update c a) b"
  by (simp add: crc32c_update_def)

lemma crc16_update_append: "crc16_update c (a @ b) = crc16_update (crc16_update c a) b"
  by (simp add: crc16_update_def)

text \<open>
  What the grammar relies on when it feeds a body chunk by chunk: an accumulator that does not
  see where one chunk ends and the next begins.
\<close>

locale running_check =
  fixes init :: 's and feed :: "'s \<Rightarrow> bytes \<Rightarrow> 's" and val :: "'s \<Rightarrow> 'v"
  assumes feed_Nil: "feed s [] = s"
    and feed_append: "feed s (a @ b) = feed (feed s a) b"
begin

lemma feeds_concat: "foldl feed s chunks = feed s (concat chunks)"
  by (induction chunks arbitrary: s) (simp_all add: feed_Nil feed_append)

lemma feeds_rechunk:
  "concat xs = concat ys \<Longrightarrow> val (foldl feed init xs) = val (foldl feed init ys)"
  by (simp add: feeds_concat)

end

interpretation crc32c_acc: running_check crc32c_init crc32c_feed crc32c_value
  by unfold_locales (simp_all add: crc32c_feed_def crc32c_update_append, simp add: crc32c_update_def)

interpretation crc16_acc: running_check crc16_init crc16_feed crc16_value
  by unfold_locales (simp_all add: crc16_feed_def crc16_update_append, simp add: crc16_update_def)

lemma crc32c_feeds_value:
  "crc32c_value (foldl crc32c_feed crc32c_init chunks) = crc32c (concat chunks)"
  by (simp add: crc32c_acc.feeds_concat crc32c_def)

lemma crc16_feeds_value:
  "crc16_value (foldl crc16_feed crc16_init chunks) = crc16_ccitt (concat chunks)"
  by (simp add: crc16_acc.feeds_concat crc16_ccitt_def)

lemma crc32c2_concat: "crc32c2 a b = crc32c (a @ b)"
  by (simp add: crc32c2_def crc32c_def crc32c_acc.feed_append)

lemma crc16_ccitt2_concat: "crc16_ccitt2 a b = crc16_ccitt (a @ b)"
  by (simp add: crc16_ccitt2_def crc16_ccitt_def crc16_acc.feed_append)

section \<open>Algebra of the bit steps\<close>

text \<open>
  Both bit steps are linear over exclusive or and injective: the feedback polynomial sets the
  bit the shift vacates, so the lost bit can be read back.
\<close>

definition xor_linear :: "('a::len word \<Rightarrow> 'a word) \<Rightarrow> bool" where
  "xor_linear f \<longleftrightarrow> (\<forall>a b. f (a XOR b) = f a XOR f b)"

lemma xor_linearD: "xor_linear f \<Longrightarrow> f (a XOR b) = f a XOR f b"
  by (simp add: xor_linear_def)

lemma xor_cancel_left: "a XOR b = a XOR c \<longleftrightarrow> b = (c :: 'a::len word)"
  by (metis xor.assoc xor.left_neutral xor_self_eq)

lemma xor_cancel_right: "b XOR a = c XOR a \<longleftrightarrow> b = (c :: 'a::len word)"
  by (simp only: xor.commute [of _ a] xor_cancel_left)

lemma xor_linear_funpow: "xor_linear f \<Longrightarrow> xor_linear (f ^^ n)"
  by (induction n) (simp_all add: xor_linear_def)

lemma and_1_iff_bit: "(c :: 'a::len word) AND 1 \<noteq> 0 \<longleftrightarrow> bit c 0"
  by (simp add: and_one_eq bit_0 mod_2_eq_odd)

lemma and_8000_iff_bit: "(c :: 16 word) AND 0x8000 \<noteq> 0 \<longleftrightarrow> bit c 15"
proof -
  have "(0x8000 :: 16 word) = push_bit 15 1" by (simp add: push_bit_eq_mult)
  then have "c AND 0x8000 = 0 \<longleftrightarrow> \<not> bit c 15"
    by (metis and_exp_eq_0_iff_not_bit push_bit_of_1)
  then show ?thesis by simp
qed

lemma crc32c_bit_alt: "crc32c_bit c = (if bit c 0 then 0x82F63B78 XOR drop_bit 1 c else drop_bit 1 c)"
  unfolding crc32c_bit_def and_1_iff_bit by (rule refl)

lemma crc16_bit_alt: "crc16_bit c = (if bit c 15 then push_bit 1 c XOR 0x1021 else push_bit 1 c)"
  unfolding crc16_bit_def and_8000_iff_bit by (rule refl)

lemma crc32c_bit_even: "\<not> bit c 0 \<Longrightarrow> crc32c_bit c = drop_bit 1 c"
  by (simp add: crc32c_bit_alt)

lemma crc16_bit_low: "\<not> bit c 15 \<Longrightarrow> crc16_bit c = push_bit 1 c"
  by (simp add: crc16_bit_alt)

lemma crc32c_bit_linear: "xor_linear crc32c_bit"
  unfolding xor_linear_def crc32c_bit_alt
  by (auto simp: bit_xor_iff drop_bit_xor xor.left_commute xor.assoc)

lemma crc16_bit_linear: "xor_linear crc16_bit"
  unfolding xor_linear_def crc16_bit_alt
  by (auto simp: bit_xor_iff push_bit_xor xor.left_commute xor.assoc xor.commute)

lemma crc32c_bit_inj: "inj crc32c_bit"
proof (rule injI)
  fix a b assume eq: "crc32c_bit a = crc32c_bit b"
  have top: "bit (crc32c_bit c) 31 \<longleftrightarrow> bit c 0" for c
    by (auto simp: crc32c_bit_alt bit_simps dest: bit_imp_le_length)
  have low: "bit a 0 = bit b 0" using top eq by metis
  then have "drop_bit 1 a = drop_bit 1 b"
    using eq by (auto simp: crc32c_bit_alt xor_cancel_left split: if_splits)
  then have "bit a (Suc k) = bit b (Suc k)" for k
    by (metis bit_drop_bit_eq plus_1_eq_Suc comp_apply)
  with low show "a = b" by (intro bit_word_eqI) (metis not0_implies_Suc)
qed

lemma bit_crc16_bit:
  "bit (crc16_bit c) k \<longleftrightarrow> (bit (push_bit 1 c) k \<noteq> (bit c 15 \<and> bit (0x1021 :: 16 word) k))"
  by (simp add: crc16_bit_alt bit_xor_iff)

lemma crc16_bit_inj: "inj crc16_bit"
proof (rule injI)
  fix a b assume eq: "crc16_bit a = crc16_bit b"
  have bottom: "bit (crc16_bit c) 0 \<longleftrightarrow> bit c 15" for c
    unfolding bit_crc16_bit bit_push_bit_iff by simp
  have top: "bit a 15 = bit b 15" using bottom eq by metis
  have "bit (push_bit 1 a) k = bit (push_bit 1 b) k" for k
    using bit_crc16_bit [of a k] bit_crc16_bit [of b k] top by (simp only: eq) blast
  note shifted = this [unfolded bit_push_bit_iff]
  show "a = b"
  proof (rule bit_word_eqI)
    fix k assume "k < LENGTH(16)"
    then show "bit a k = bit b k"
      using shifted [of "Suc k"] top by (cases "k = 15") auto
  qed
qed

text \<open>While the bits about to be shifted out are zero, the steps are plain shifts.\<close>

lemma crc32c_bits_shift:
  "(\<And>i. i < n \<Longrightarrow> \<not> bit y i) \<Longrightarrow> (crc32c_bit ^^ n) y = drop_bit n y"
proof (induction n)
  case 0
  show ?case by simp
next
  case (Suc n)
  then have "(crc32c_bit ^^ n) y = drop_bit n y" by simp
  moreover have "\<not> bit (drop_bit n y) 0" using Suc.prems [of n] by (simp add: bit_drop_bit_eq)
  ultimately show ?case by (simp add: crc32c_bit_even drop_bit_drop_bit add.commute)
qed

lemma crc16_bits_shift:
  "n \<le> 16 \<Longrightarrow> (\<And>i. 16 - n \<le> i \<Longrightarrow> \<not> bit y i) \<Longrightarrow> (crc16_bit ^^ n) y = push_bit n y"
proof (induction n)
  case 0
  show ?case by simp
next
  case (Suc n)
  then have IH: "(crc16_bit ^^ n) y = push_bit n y" by simp
  have "\<not> bit (push_bit n y) 15"
    using Suc.prems by (auto simp: bit_push_bit_iff)
  then have "crc16_bit (push_bit n y) = push_bit (Suc n) y"
    unfolding crc16_bit_low [OF \<open>\<not> bit (push_bit n y) 15\<close>] by (simp only: push_bit_push_bit plus_1_eq_Suc)
  then show ?case by (simp only: funpow.simps comp_apply IH)
qed

section \<open>The table folds are the bit-serial CRC\<close>

text \<open>
  The reference: a message byte is added to the low (CRC-32C, reflected) or high (CRC-16)
  end of the register, which then takes eight bit steps.
\<close>

definition crc32c_serial :: "32 word \<Rightarrow> bytes \<Rightarrow> 32 word" where
  "crc32c_serial c data = foldl (\<lambda>c b. (crc32c_bit ^^ 8) (c XOR ucast b)) c data"

definition crc16_serial :: "16 word \<Rightarrow> bytes \<Rightarrow> 16 word" where
  "crc16_serial c data = foldl (\<lambda>c b. (crc16_bit ^^ 8) (c XOR push_bit 8 (ucast b))) c data"

lemma and_FF_take_bit: "(c :: 'a::len word) AND 0xFF = take_bit 8 c"
proof -
  have "(0xFF :: 'a word) = mask 8" by (simp add: mask_eq_exp_minus_1)
  then show ?thesis by (simp add: take_bit_eq_mask)
qed

lemma unat_take_bit_8_less: "unat (take_bit 8 (c :: 'a::len word)) < 256"
  using take_bit_nat_less_exp [of 8 "unat c"] by (simp add: unsigned_take_bit_eq)

lemma and_FF_less: "unat ((c :: 'a::len word) AND 0xFF) < 256"
  by (simp add: and_FF_take_bit unat_take_bit_8_less)

lemma crc32c_table_nth: "i < 256 \<Longrightarrow> crc32c_table ! i = (crc32c_bit ^^ 8) (of_nat i)"
  by (simp add: crc32c_table_def)

lemma crc16_table_nth: "i < 256 \<Longrightarrow> crc16_table ! i = (crc16_bit ^^ 8) (push_bit 8 (of_nat i))"
  by (simp add: crc16_table_def)

lemma xor_idem_left: "(a :: 'a::len word) XOR (a XOR b) = b"
  by (simp add: xor.assoc [symmetric])

lemma crc32c_split:
  "(crc32c_bit ^^ 8) x = (crc32c_bit ^^ 8) (take_bit 8 x) XOR drop_bit 8 x"
proof -
  define y where "y = x XOR take_bit 8 x"
  have low: "\<not> bit y i" if "i < 8" for i using that by (simp add: y_def bit_xor_iff bit_take_bit_iff)
  have "x = take_bit 8 x XOR y" by (simp add: y_def xor.left_commute [of _ x])
  then have "(crc32c_bit ^^ 8) x = (crc32c_bit ^^ 8) (take_bit 8 x) XOR (crc32c_bit ^^ 8) y"
    using xor_linearD [OF xor_linear_funpow [OF crc32c_bit_linear]] by metis
  also have "(crc32c_bit ^^ 8) y = drop_bit 8 y" using low by (rule crc32c_bits_shift)
  also have "drop_bit 8 y = drop_bit 8 x"
    by (rule bit_word_eqI) (simp add: y_def bit_drop_bit_eq bit_xor_iff bit_take_bit_iff)
  finally show ?thesis .
qed

lemma drop_bit_8_ucast: "drop_bit 8 (ucast (b :: byte) :: 'a::len word) = 0"
  by (rule bit_word_eqI) (auto simp: bit_drop_bit_eq bit_simps dest: bit_imp_le_length)

lemma crc32c_table_take_bit: "crc32c_table ! unat (take_bit 8 x) = (crc32c_bit ^^ 8) (take_bit 8 x)"
  by (simp add: crc32c_table_nth unat_take_bit_8_less)

lemma crc32c_byte_serial: "crc32c_byte c b = (crc32c_bit ^^ 8) (c XOR ucast b)"
  unfolding crc32c_byte_def and_FF_take_bit crc32c_table_take_bit crc32c_split [of "c XOR ucast b"]
  by (simp add: drop_bit_xor drop_bit_8_ucast)

lemma crc32c_update_serial: "crc32c_update = crc32c_serial"
  unfolding crc32c_update_def [abs_def] crc32c_serial_def [abs_def] crc32c_byte_serial [abs_def] by (rule refl)

lemma crc16_split:
  "(crc16_bit ^^ 8) x = (crc16_bit ^^ 8) (push_bit 8 (drop_bit 8 x)) XOR push_bit 8 x"
proof -
  define y where "y = take_bit 8 x"
  have "x = push_bit 8 (drop_bit 8 x) XOR y"
    by (rule bit_word_eqI) (auto simp: y_def bit_xor_iff bit_push_bit_iff bit_drop_bit_eq bit_take_bit_iff)
  then have "(crc16_bit ^^ 8) x = (crc16_bit ^^ 8) (push_bit 8 (drop_bit 8 x)) XOR (crc16_bit ^^ 8) y"
    using xor_linearD [OF xor_linear_funpow [OF crc16_bit_linear]] by metis
  also have "(crc16_bit ^^ 8) y = push_bit 8 y"
    by (rule crc16_bits_shift) (auto simp: y_def bit_take_bit_iff)
  also have "push_bit 8 y = push_bit 8 x"
    by (rule bit_word_eqI) (auto simp: y_def bit_push_bit_iff bit_take_bit_iff)
  finally show ?thesis .
qed

lemma crc16_byte_serial:
  "crc16_table ! unat (ucast (drop_bit 8 c) XOR b :: byte) XOR push_bit 8 c =
     (crc16_bit ^^ 8) (c XOR push_bit 8 (ucast b))"
proof -
  let ?i = "ucast (drop_bit 8 c) XOR b :: byte"
  have idx: "(of_nat (unat ?i) :: 16 word) = drop_bit 8 (c XOR push_bit 8 (ucast b))"
    by (rule bit_word_eqI)
       (auto simp: bit_xor_iff bit_push_bit_iff bit_drop_bit_eq bit_simps dest: bit_imp_le_length)
  have hi: "push_bit 8 (c XOR push_bit 8 (ucast b)) = (push_bit 8 c :: 16 word)"
    by (rule bit_word_eqI) (auto simp: bit_xor_iff bit_push_bit_iff bit_simps dest: bit_imp_le_length)
  show ?thesis
    unfolding crc16_split [of "c XOR push_bit 8 (ucast b)"] hi idx [symmetric]
    using byte_unat_less [of ?i] by (simp only: crc16_table_nth)
qed

lemma crc16_update_serial: "crc16_update = crc16_serial"
  unfolding crc16_update_def [abs_def] crc16_serial_def [abs_def] Let_def crc16_byte_serial by (rule refl)

section \<open>Words of the message\<close>

text \<open>
  Up to a register's worth of message bytes can be added to the register at once: bit steps on
  a byte that stands \<open>n\<close> bits up first bring it down unchanged.
\<close>

abbreviation crc32c_steps :: "nat \<Rightarrow> 32 word \<Rightarrow> 32 word" where
  "crc32c_steps n \<equiv> crc32c_bit ^^ n"

abbreviation crc16_steps :: "nat \<Rightarrow> 16 word \<Rightarrow> 16 word" where
  "crc16_steps n \<equiv> crc16_bit ^^ n"

lemma crc32c_steps_xor: "crc32c_steps n (a XOR b) = crc32c_steps n a XOR crc32c_steps n b"
  by (rule xor_linearD [OF xor_linear_funpow [OF crc32c_bit_linear]])

lemma crc16_steps_xor: "crc16_steps n (a XOR b) = crc16_steps n a XOR crc16_steps n b"
  by (rule xor_linearD [OF xor_linear_funpow [OF crc16_bit_linear]])

lemma crc32c_steps_add: "crc32c_steps m (crc32c_steps n x) = crc32c_steps (m + n) x"
  by (simp add: funpow_add)

lemma crc16_steps_add: "crc16_steps m (crc16_steps n x) = crc16_steps (m + n) x"
  by (simp add: funpow_add)

lemma crc32c_steps_push_bit:
  assumes "n + m \<le> 32" and "take_bit m x = x"
  shows "crc32c_steps n (push_bit n x) = x"
proof -
  have small: "\<not> bit x i" if "m \<le> i" for i
    using assms(2) that by (metis bit_take_bit_iff not_le)
  have "crc32c_steps n (push_bit n x) = drop_bit n (push_bit n x)"
    by (rule crc32c_bits_shift) (simp add: bit_push_bit_iff)
  also have "\<dots> = x"
    using assms(1) small
    by (intro bit_word_eqI) (auto simp: bit_drop_bit_eq bit_push_bit_iff intro: ccontr)
  finally show ?thesis .
qed

lemma take_bit_8_ucast [simp]: "take_bit 8 (ucast (b :: byte) :: 'a::len word) = ucast b"
  by (rule bit_word_eqI) (auto simp: bit_take_bit_iff bit_simps dest: bit_imp_le_length)

lemma load_le_snoc:
  assumes "8 * Suc (length bs) \<le> LENGTH('a)"
  shows "(load_le (bs @ [b]) :: 'a::len word) = load_le bs XOR push_bit (8 * length bs) (ucast b)"
proof (rule bit_word_eqI)
  fix k assume k: "k < LENGTH('a)"
  have m: "min (Suc (length bs)) (LENGTH('a) div 8) = Suc (length bs)"
          "min (length bs) (LENGTH('a) div 8) = length bs"
    using assms by (simp_all add: min_def) linarith+
  consider "k < 8 * length bs" | "8 * length bs \<le> k" "k < 8 * Suc (length bs)" | "8 * Suc (length bs) \<le> k"
    by linarith
  then show "bit (load_le (bs @ [b]) :: 'a word) k =
        bit (load_le bs XOR push_bit (8 * length bs) (ucast b) :: 'a word) k"
  proof cases
    case 1
    then have "k div 8 < length bs" by linarith
    with 1 k show ?thesis by (simp add: bit_load_le m bit_xor_iff bit_push_bit_iff nth_append)
  next
    case 2
    then have d: "k div 8 = length bs" by (intro div_nat_eqI) simp_all
    then have r: "k mod 8 = k - 8 * length bs" by (metis minus_mult_div_eq_mod)
    from 2 d k show ?thesis
      by (simp add: bit_load_le m bit_xor_iff bit_push_bit_iff nth_append bit_simps r less_imp_diff_less)
  next
    case 3
    with k show ?thesis
      by (auto simp add: bit_load_le m bit_xor_iff bit_push_bit_iff bit_simps dest: bit_imp_le_length)
  qed
qed

lemma load_le_Nil [simp]: "load_le [] = (0 :: 'a::len word)"
  by (rule bit_word_eqI) (simp add: bit_load_le)

lemma crc32c_serial_snoc: "crc32c_serial c (bs @ [b]) = crc32c_steps 8 (crc32c_serial c bs XOR ucast b)"
  by (simp add: crc32c_serial_def)

lemma crc32c_serial_word:
  "length bs \<le> 4 \<Longrightarrow> crc32c_serial c bs = crc32c_steps (8 * length bs) (c XOR load_le bs)"
proof (induction bs rule: rev_induct)
  case Nil
  show ?case by (simp add: crc32c_serial_def)
next
  case (snoc b bs)
  let ?n = "8 * length bs"
  have "ucast b = crc32c_steps ?n (push_bit ?n (ucast b))"
    using snoc.prems crc32c_steps_push_bit [of ?n 8 "ucast b"] by simp
  then have "crc32c_serial c bs XOR ucast b = crc32c_steps ?n ((c XOR load_le bs) XOR push_bit ?n (ucast b))"
    using snoc by (simp add: crc32c_steps_xor)
  then show ?case
    using snoc.prems by (simp add: crc32c_serial_snoc crc32c_steps_add load_le_snoc xor.assoc)
qed

lemma crc32c_serial_append: "crc32c_serial c (a @ b) = crc32c_serial (crc32c_serial c a) b"
  by (simp add: crc32c_serial_def)

lemma crc32c_serial_two_words:
  assumes "length a = 4" and "length b = 4"
  shows "crc32c_serial c (a @ b) = crc32c_steps 64 (c XOR load_le a) XOR crc32c_steps 32 (load_le b)"
  using assms by (simp add: crc32c_serial_append crc32c_serial_word crc32c_steps_xor crc32c_steps_add)

section \<open>Slice-by-8\<close>

lemma crc32c_table_step: "crc32c_table ! unat (c AND 0xFF) XOR drop_bit 8 c = crc32c_steps 8 c"
  unfolding and_FF_take_bit crc32c_table_take_bit by (rule crc32c_split [symmetric])

lemma crc32c_slice_tables_nth:
  assumes "k < 8" and "i < 256"
  shows "crc32c_slice_tables ! k ! i = crc32c_steps (8 * Suc k) (of_nat i)"
proof -
  have "((\<lambda>c. crc32c_table ! unat (c AND 0xFF) XOR drop_bit 8 c) ^^ k) x = crc32c_steps (8 * k) x" for x
    by (induction k) (simp_all only: funpow.simps comp_apply id_apply crc32c_table_step crc32c_steps_add mult_0_right mult_Suc_right)
  then show ?thesis
    using assms by (simp add: crc32c_slice_tables_def crc32c_table_nth crc32c_steps_add add.commute del: upt_rec_numeral)
qed

lemma crc32c_slice_lookup:
  "k < 8 \<Longrightarrow> crc32c_slice_tables ! k ! unat (x AND 0xFF) = crc32c_steps (8 * Suc k) (x AND 0xFF)"
  by (simp add: crc32c_slice_tables_nth and_FF_less)

lemma crc32c_steps_at_byte:
  assumes "n \<le> 24"
  shows "crc32c_steps (m + n) (push_bit n (x AND 0xFF)) = crc32c_steps m (x AND 0xFF)"
proof -
  have "crc32c_steps n (push_bit n (x AND 0xFF)) = x AND 0xFF"
    using assms by (intro crc32c_steps_push_bit [of n 8]) (simp_all add: and_FF_take_bit)
  then show ?thesis by (simp add: crc32c_steps_add [symmetric])
qed

lemma word32_split_bytes:
  "(x :: 32 word) = (x AND 0xFF) XOR push_bit 8 (drop_bit 8 x AND 0xFF) XOR
     push_bit 16 (drop_bit 16 x AND 0xFF) XOR push_bit 24 (drop_bit 24 x AND 0xFF)"
  unfolding and_FF_take_bit
  by (rule bit_word_eqI)
     (auto simp: bit_xor_iff bit_push_bit_iff bit_drop_bit_eq bit_take_bit_iff)

lemma crc32c_steps_split:
  "crc32c_steps (m + 24) x =
     crc32c_steps (m + 24) (x AND 0xFF) XOR crc32c_steps (m + 16) (drop_bit 8 x AND 0xFF) XOR
     crc32c_steps (m + 8) (drop_bit 16 x AND 0xFF) XOR crc32c_steps m (drop_bit 24 x AND 0xFF)"
proof -
  have "crc32c_steps (m + 24) x = crc32c_steps (m + 24) (x AND 0xFF) XOR
      crc32c_steps ((m + 16) + 8) (push_bit 8 (drop_bit 8 x AND 0xFF)) XOR
      crc32c_steps ((m + 8) + 16) (push_bit 16 (drop_bit 16 x AND 0xFF)) XOR
      crc32c_steps (m + 24) (push_bit 24 (drop_bit 24 x AND 0xFF))"
    by (subst word32_split_bytes [of x]) (simp only: crc32c_steps_xor add.assoc numeral_plus_numeral num.simps add_num_simps)
  then show ?thesis by (simp only: crc32c_steps_at_byte)
qed

lemma crc_load_le32_load_le:
  assumes "at + 4 \<le> length p"
  shows "crc_load_le32 p at = load_le (subspan at 4 p)"
proof -
  have "subspan at 4 p = [p ! at, p ! (at + 1), p ! (at + 2), p ! (at + 3)]"
    using assms by (intro nth_equalityI) (auto simp: nth_subspan less_Suc_eq numeral_eq_Suc)
  then show ?thesis by (simp add: crc_load_le32_def load_le_def or.assoc)
qed

lemma crc32c_soft8_serial: "crc32c_soft8 c p = crc32c_serial c p"
proof (induction p arbitrary: c rule: length_induct)
  case (1 p c)
  show ?case
  proof (cases "8 \<le> length p")
    case False
    then show ?thesis
      using fun_cong [OF fun_cong [OF crc32c_update_serial], of c p]
      by (simp add: crc32c_soft8.simps [of c p] crc32c_update_def)
  next
    case True
    define lo hi where "lo = c XOR crc_load_le32 p 0" and "hi = crc_load_le32 p 4"
    have p: "p = (subspan 0 4 p @ subspan 4 4 p) @ drop 8 p"
      using True by (simp add: subspan_def take_add [of 4 4, symmetric])
    have "crc32c_soft8 c p = crc32c_soft8 (crc32c_steps 64 lo XOR crc32c_steps 32 hi) (drop 8 p)"
      using True crc32c_steps_split [of 40 lo] crc32c_steps_split [of 8 hi]
      by (simp add: crc32c_soft8.simps [of c p] Let_def lo_def hi_def crc32c_slice_lookup xor.assoc)
    also have "\<dots> = crc32c_serial (crc32c_steps 64 lo XOR crc32c_steps 32 hi) (drop 8 p)"
      using "1.IH" True by simp
    also have "crc32c_steps 64 lo XOR crc32c_steps 32 hi = crc32c_serial c (subspan 0 4 p @ subspan 4 4 p)"
      using True by (simp add: crc32c_serial_two_words lo_def hi_def crc_load_le32_load_le)
    also have "crc32c_serial \<dots> (drop 8 p) = crc32c_serial c p"
      by (subst (3) p) (rule crc32c_serial_append [symmetric])
    finally show ?thesis .
  qed
qed

section \<open>The hardware fold\<close>

text \<open>
  The documented behaviour of the instructions: the byte forms divide one more byte into a
  reflected CRC-32C remainder, and the word forms do so for each byte of the operand, lowest
  first, the 64-bit x86 form zero-extending its 32-bit result.
\<close>

definition crc_documented :: "crc_intrinsics \<Rightarrow> bool" where
  "crc_documented cpu \<longleftrightarrow>
     (\<forall>c b. mm_crc32_u8 cpu c b = (crc32c_bit ^^ 8) (c XOR ucast b)) \<and>
     (\<forall>c v. mm_crc32_u32 cpu c v = foldl (mm_crc32_u8 cpu) c (le_bytes v 4)) \<and>
     (\<forall>c v. mm_crc32_u64 cpu c v = ucast (foldl (mm_crc32_u8 cpu) (ucast c) (le_bytes v 8))) \<and>
     (\<forall>c b. arm_crc32cb cpu c b = (crc32c_bit ^^ 8) (c XOR ucast b)) \<and>
     (\<forall>c v. arm_crc32cd cpu c v = foldl (arm_crc32cb cpu) c (le_bytes v 8))"

lemma ucast_ucast_wider: "(ucast (ucast (x :: 32 word) :: 64 word) :: 32 word) = x"
  by (rule bit_word_eqI) (auto simp: bit_simps)

lemma foldl_serial:
  "(\<And>c b. f c b = crc32c_steps 8 (c XOR ucast b)) \<Longrightarrow> foldl f c p = crc32c_serial c p"
  by (induction p arbitrary: c) (simp_all add: crc32c_serial_def)

text \<open>A word loop whose step folds its word leaves the fold of what it consumed.\<close>

lemma hw_word_loop_serial:
  assumes "\<And>s v. length v = k \<Longrightarrow> reg (step s v) = crc32c_serial (reg s) v"
  shows "(case hw_word_loop k step s p of (t, rest) \<Rightarrow> crc32c_serial (reg t) rest) = crc32c_serial (reg s) p"
proof (induction p arbitrary: s rule: length_induct)
  case (1 p s)
  show ?case
  proof (cases "0 < k \<and> k \<le> length p")
    case True
    then have "length (drop k p) < length p" by (cases p) auto
    with True have "(case hw_word_loop k step s p of (t, rest) \<Rightarrow> crc32c_serial (reg t) rest) =
        crc32c_serial (reg (step s (take k p))) (drop k p)"
      using "1.IH" by (simp add: hw_word_loop.simps [of k step s p])
    also have "\<dots> = crc32c_serial (reg s) p"
      using True by (simp add: assms crc32c_serial_append [symmetric])
    finally show ?thesis .
  qed (auto simp: hw_word_loop.simps [of k step s p])
qed

lemma crc32c_hw_x86_64_serial: "crc_documented cpu \<Longrightarrow> crc32c_hw_x86_64 cpu c p = crc32c_serial c p"
  using hw_word_loop_serial [of 8 ucast "\<lambda>crc v. mm_crc32_u64 cpu crc (load_le v)" "ucast c" p]
  by (simp add: crc32c_hw_x86_64_def crc_documented_def foldl_serial ucast_ucast_wider le_bytes_load_le)

lemma crc32c_hw_x86_32_serial: "crc_documented cpu \<Longrightarrow> crc32c_hw_x86_32 cpu c p = crc32c_serial c p"
  using hw_word_loop_serial [of 4 id "\<lambda>c v. mm_crc32_u32 cpu c (load_le v)" c p]
  by (simp add: crc32c_hw_x86_32_def crc_documented_def foldl_serial le_bytes_load_le)

lemma crc32c_hw_arm_serial: "crc_documented cpu \<Longrightarrow> crc32c_hw_arm cpu c p = crc32c_serial c p"
  using hw_word_loop_serial [of 8 id "\<lambda>c v. arm_crc32cd cpu c (load_le v)" c p]
  by (simp add: crc32c_hw_arm_def crc_documented_def foldl_serial le_bytes_load_le)

lemma crc32c_soft_serial: "crc32c_soft slices c p = crc32c_serial c p"
  using crc32c_update_serial by (simp add: crc32c_soft_def crc32c_soft8_serial crc32c_soft1_def crc32c_update_def fun_eq_iff)

section \<open>Bursts\<close>


text \<open>An injective fold keeps two states apart however much more is folded in.\<close>

lemma foldl_inj_state: "(\<And>x. inj (\<lambda>c. f c x)) \<Longrightarrow> foldl f c xs = foldl f d xs \<Longrightarrow> c = d"
  by (induction xs arbitrary: c d) (simp_all, metis injD)

lemma inj_steps_xor:
  fixes f :: "'a::len word \<Rightarrow> 'a word"
  shows "inj f \<Longrightarrow> inj (\<lambda>c. (f ^^ n) (c XOR x))"
  by (rule injI) (simp add: inj_eq [OF inj_fn] xor_cancel_right)

lemma crc32c_serial_inj: "crc32c_serial c p = crc32c_serial d p \<Longrightarrow> c = d"
  unfolding crc32c_serial_def by (erule foldl_inj_state [rotated]) (rule inj_steps_xor [OF crc32c_bit_inj])

lemma crc16_serial_inj: "crc16_serial c p = crc16_serial d p \<Longrightarrow> c = d"
  unfolding crc16_serial_def by (erule foldl_inj_state [rotated]) (rule inj_steps_xor [OF crc16_bit_inj])

lemma crc32c_serial_burst:
  assumes "length x \<le> 4" and "length x = length y" and "crc32c_serial c x = crc32c_serial c y"
  shows "x = y"
proof -
  have "c XOR load_le x = c XOR load_le y"
    using assms inj_fn [OF crc32c_bit_inj, of "8 * length y"] by (simp add: crc32c_serial_word inj_eq)
  then have "(load_le x :: 32 word) = load_le y" by (simp only: xor_cancel_left)
  then show ?thesis using assms load_le_inject [of x y, where 'a = 32] by simp
qed

lemma crc32c_unfold: "crc32c p = crc32c_serial 0xFFFFFFFF p XOR 0xFFFFFFFF"
  by (simp add: crc32c_def crc32c_value_def crc32c_feed_def crc32c_init_def crc32c_update_serial)

lemma crc16_unfold: "crc16_ccitt p = crc16_serial 0xFFFF p"
  by (simp add: crc16_ccitt_def crc16_value_def crc16_feed_def crc16_init_def crc16_update_serial)

lemma crc32c_burst:
  assumes "length x \<le> 4" and "length x = length y" and "crc32c (p @ x @ q) = crc32c (p @ y @ q)"
  shows "x = y"
proof (rule crc32c_serial_burst [OF assms(1,2)])
  show "crc32c_serial (crc32c_serial 0xFFFFFFFF p) x = crc32c_serial (crc32c_serial 0xFFFFFFFF p) y"
    using assms(3) unfolding crc32c_unfold xor_cancel_right crc32c_serial_append by (rule crc32c_serial_inj)
qed

text \<open>
  The CRC-16 register takes message bytes at its high end, so two bytes fill it, first byte
  highest.
\<close>

lemma crc16_steps_down:
  assumes "n \<le> 8"
  shows "crc16_steps n (ucast (b :: byte)) = push_bit n (ucast b)"
  using assms by (intro crc16_bits_shift) (auto simp: bit_simps dest: bit_imp_le_length)

lemma crc16_serial_two:
  "crc16_serial c [a, b] = crc16_steps 16 (c XOR push_bit 8 (ucast a) XOR ucast b)"
  unfolding crc16_serial_def foldl.simps crc16_steps_down [of 8 b, OF order_refl, symmetric]
  by (simp only: crc16_steps_xor [symmetric] crc16_steps_add) (simp add: xor.assoc)

lemma crc16_two_bytes_inj:
  assumes "push_bit 8 (ucast (a :: byte)) XOR ucast (b :: byte) = push_bit 8 (ucast a') XOR (ucast (b' :: byte) :: 16 word)"
  shows "a = a' \<and> b = b'"
proof -
  have "bit (push_bit 8 (ucast (a :: byte)) XOR ucast (b :: byte) :: 16 word) k =
      (if 8 \<le> k then bit a (k - 8) else bit b k)" for a b k
    by (auto simp: bit_xor_iff bit_push_bit_iff bit_simps dest: bit_imp_le_length)
  note bits = this
  have "bit a k = bit a' k" "bit b k = bit b' k" if "k < 8" for k
    using assms bits [of a b "k + 8"] bits [of a' b' "k + 8"] bits [of a b k] bits [of a' b' k] that
    by simp_all
  then show ?thesis by (auto intro: bit_word_eqI)
qed

lemma crc16_serial_burst:
  assumes "length x \<le> 2" and "length x = length y" and "crc16_serial c x = crc16_serial c y"
  shows "x = y"
proof -
  have two: "a = a' \<and> b = b'" if "crc16_serial c [a, b] = crc16_serial c [a', b']" for a b a' b'
    using that inj_fn [OF crc16_bit_inj, of 16] crc16_two_bytes_inj [of a b a' b']
    by (simp add: crc16_serial_two inj_eq xor.assoc xor_cancel_left)
  consider "x = []" | a where "x = [a]" | a b where "x = [a, b]"
    using assms(1) by (cases x; cases "tl x") auto
  then show ?thesis
  proof cases
    case 1
    with assms(2) show ?thesis by simp
  next
    case (2 a)
    then obtain a' where y: "y = [a']" using assms(2) by (cases y) auto
    then have "crc16_serial c [a, 0] = crc16_serial c [a', 0]" using 2 assms(3) by (simp add: crc16_serial_def)
    with 2 y two show ?thesis by blast
  next
    case (3 a b)
    then obtain a' b' where "y = [a', b']" using assms(2) by (cases y; cases "tl y") auto
    with 3 two assms(3) show ?thesis by blast
  qed
qed

lemma crc16_serial_append: "crc16_serial c (a @ b) = crc16_serial (crc16_serial c a) b"
  by (simp add: crc16_serial_def)

lemma crc16_burst:
  assumes "length x \<le> 2" and "length x = length y" and "crc16_ccitt (p @ x @ q) = crc16_ccitt (p @ y @ q)"
  shows "x = y"
proof (rule crc16_serial_burst [OF assms(1,2)])
  show "crc16_serial (crc16_serial 0xFFFF p) x = crc16_serial (crc16_serial 0xFFFF p) y"
    using assms(3) unfolding crc16_unfold crc16_serial_append by (rule crc16_serial_inj)
qed

section \<open>Properties\<close>

text \<open>
  C24. Every way the library folds a CRC-32C at run time (the hardware instructions, the
  byte-at-a-time table and the eight-byte slices) gives the same state as the bit-serial
  division by the Castagnoli polynomial, whatever the state and the message, given that the
  CPU's instructions behave as documented.
\<close>

theorem crc32c_update_runtime_serial:
  assumes "crc_documented cpu"
  shows "crc32c_update_runtime build slices cpu c data = crc32c_serial c data"
  using assms by (cases build) (simp_all add: crc32c_hw_x86_64_serial crc32c_hw_x86_32_serial
    crc32c_hw_arm_serial crc32c_soft_serial)

theorem crc32c_update_runtime_serial_witness:
  "\<exists>cpu. crc_documented cpu \<and>
     crc32c_update_runtime (Crc_x86_64 True) 8 cpu 0 [1, 2, 3, 4, 5, 6, 7, 8, 9] =
       crc32c_serial 0 [1, 2, 3, 4, 5, 6, 7, 8, 9]"
proof -
  let ?b = "\<lambda>(c :: 32 word) (b :: byte). (crc32c_bit ^^ 8) (c XOR ucast b)"
  let ?cpu = "\<lparr>mm_crc32_u8 = ?b, mm_crc32_u32 = (\<lambda>c v. foldl ?b c (le_bytes v 4)),
      mm_crc32_u64 = (\<lambda>c v. ucast (foldl ?b (ucast c) (le_bytes v 8))),
      arm_crc32cb = ?b, arm_crc32cd = (\<lambda>c v. foldl ?b c (le_bytes v 8))\<rparr>"
  have "crc_documented ?cpu" by (simp add: crc_documented_def)
  then show ?thesis using crc32c_update_runtime_serial by blast
qed

text \<open>
  The running accumulators do not see chunk boundaries: however a message is cut into
  pieces, feeding the pieces gives the one-shot checksum of the whole message, for both widths.
\<close>

theorem crc_chunks_value:
  "crc32c_value (foldl crc32c_feed crc32c_init chunks) = crc32c (concat chunks) \<and>
   crc16_value (foldl crc16_feed crc16_init chunks) = crc16_ccitt (concat chunks) \<and>
   crc32c2 a b = crc32c (a @ b) \<and> crc16_ccitt2 a b = crc16_ccitt (a @ b)"
  by (simp add: crc32c_feeds_value crc16_feeds_value crc32c2_concat crc16_ccitt2_concat)

text \<open>
  C25. A burst of at most four changed bytes, anywhere in a message of any length, always
  changes its CRC-32C.
\<close>

theorem crc32c_detects_burst:
  assumes "length x \<le> 4" and "length x = length y" and "x \<noteq> y"
  shows "crc32c (p @ x @ q) \<noteq> crc32c (p @ y @ q)"
  using crc32c_burst [OF assms(1,2)] assms(3) by blast

theorem crc32c_detects_burst_witness:
  "length [1 :: byte, 2] \<le> 4 \<and> length [1 :: byte, 2] = length [3 :: byte, 2] \<and> [1 :: byte, 2] \<noteq> [3, 2] \<and>
   crc32c ([0] @ [1, 2] @ [9]) \<noteq> crc32c ([0] @ [3, 2] @ [9])"
  using crc32c_detects_burst [of "[1, 2]" "[3, 2]" "[0]" "[9]"] by simp

text \<open>
  A burst of at most two changed bytes, anywhere in a message of any length, always
  changes its CRC-16-CCITT.
\<close>

theorem crc16_detects_burst:
  assumes "length x \<le> 2" and "length x = length y" and "x \<noteq> y"
  shows "crc16_ccitt (p @ x @ q) \<noteq> crc16_ccitt (p @ y @ q)"
  using crc16_burst [OF assms(1,2)] assms(3) by blast

theorem crc16_detects_burst_witness:
  "length [1 :: byte, 2] \<le> 2 \<and> length [1 :: byte, 2] = length [3 :: byte, 2] \<and> [1 :: byte, 2] \<noteq> [3, 2] \<and>
   crc16_ccitt ([0] @ [1, 2] @ [9]) \<noteq> crc16_ccitt ([0] @ [3, 2] @ [9])"
  using crc16_detects_burst [of "[1, 2]" "[3, 2]" "[0]" "[9]"] by simp

end
