(* ===== verification/Mem_Source.thy ===== *)
theory Mem_Source
  imports Byteorder
begin

text \<open>
  The nothrow allocation seam of \<^verbatim>\<open>mem_source.hpp\<close>: the interface \<open>source_ops\<close> of
  \<^verbatim>\<open>block_source_t\<close>, and the null, bump and pool sources. An address is a natural number, 0
  being \<^verbatim>\<open>nullptr\<close>. The contract every client relies on is the locale \<open>block_source\<close>: a block
  handed out is aligned and disjoint from every block still live. It is proved for the null
  source, for a bump source over the null source, and for the pool source, whose free lists
  live inside the freed blocks themselves.
\<close>

section \<open>The interface\<close>

type_synonym addr = nat

text \<open>A live block: its address, size and alignment as they were requested.\<close>

type_synonym block = "addr \<times> nat \<times> nat"

record 'm source_ops =
  try_alloc :: "'m \<Rightarrow> nat \<Rightarrow> nat \<Rightarrow> addr option \<times> 'm"
  release :: "'m \<Rightarrow> addr \<Rightarrow> nat \<Rightarrow> nat \<Rightarrow> 'm"

record source_stats_t =
  st_capacity :: nat
  st_in_use :: nat
  st_peak :: nat
  st_refused :: nat
  st_largest_refused :: nat

text \<open>
  \<^verbatim>\<open>(~cur + 1U) & (align - 1U)\<close> on a \<open>w\<close>-bit address: the padding to the next boundary.
\<close>

definition align_pad :: "nat \<Rightarrow> addr \<Rightarrow> nat \<Rightarrow> nat" where
  "align_pad w cur align = (((2 ^ w - 1 - cur mod 2 ^ w) + 1) mod 2 ^ w) AND (align - 1)"

section \<open>The null source\<close>

definition null_source :: "unit source_ops" where
  "null_source = \<lparr>try_alloc = (\<lambda>m bytes align. (None, m)), release = (\<lambda>m p bytes align. m)\<rparr>"

section \<open>The bump source\<close>

record 'u bump_source_t =
  bump_base :: addr
  bump_size :: nat
  bump_upstream :: 'u
  bump_used :: nat
  bump_peak :: nat
  bump_refused :: nat
  bump_largest_refused :: nat

definition bump_init :: "addr \<Rightarrow> nat \<Rightarrow> 'u \<Rightarrow> 'u bump_source_t" where
  "bump_init base sz up =
     \<lparr>bump_base = base, bump_size = sz, bump_upstream = up, bump_used = 0, bump_peak = 0,
      bump_refused = 0, bump_largest_refused = 0\<rparr>"

definition bump_count_refusal :: "'u bump_source_t \<Rightarrow> nat \<Rightarrow> 'u bump_source_t" where
  "bump_count_refusal b bytes =
     b\<lparr>bump_refused := bump_refused b + 1,
       bump_largest_refused := (if bytes > bump_largest_refused b then bytes else bump_largest_refused b)\<rparr>"

definition bump_try_alloc ::
  "nat \<Rightarrow> 'u source_ops \<Rightarrow> 'u bump_source_t \<Rightarrow> nat \<Rightarrow> nat \<Rightarrow> addr option \<times> 'u bump_source_t" where
  "bump_try_alloc w up b bytes align =
     (let cur = bump_base b + bump_used b;
          pad = align_pad w cur align
      in if pad \<le> bump_size b - bump_used b \<and> bytes \<le> bump_size b - bump_used b - pad then
           let used = bump_used b + (pad + bytes)
           in (Some (bump_base b + (used - bytes)), b\<lparr>bump_used := used\<rparr>)
         else
           (case try_alloc up (bump_upstream b) bytes align of
              (None, u) \<Rightarrow> (None, bump_count_refusal (b\<lparr>bump_upstream := u\<rparr>) bytes)
            | (Some p, u) \<Rightarrow> (Some p, b\<lparr>bump_upstream := u\<rparr>)))"

definition bump_release :: "'u source_ops \<Rightarrow> 'u bump_source_t \<Rightarrow> addr \<Rightarrow> nat \<Rightarrow> nat \<Rightarrow> 'u bump_source_t" where
  "bump_release up b p bytes align =
     (if bump_base b \<le> p \<and> p < bump_base b + bump_size b then b
      else b\<lparr>bump_upstream := release up (bump_upstream b) p bytes align\<rparr>)"

definition bump_reset :: "'u bump_source_t \<Rightarrow> 'u bump_source_t" where
  "bump_reset b =
     b\<lparr>bump_peak := (if bump_used b > bump_peak b then bump_used b else bump_peak b), bump_used := 0\<rparr>"

definition bump_stats :: "'u bump_source_t \<Rightarrow> source_stats_t" where
  "bump_stats b =
     \<lparr>st_capacity = bump_size b, st_in_use = bump_used b,
      st_peak = (if bump_used b > bump_peak b then bump_used b else bump_peak b),
      st_refused = bump_refused b, st_largest_refused = bump_largest_refused b\<rparr>"

definition bump_source :: "nat \<Rightarrow> 'u source_ops \<Rightarrow> 'u bump_source_t source_ops" where
  "bump_source w up = \<lparr>try_alloc = bump_try_alloc w up, release = bump_release up\<rparr>"

section \<open>The pool source\<close>

text \<open>
  A free block hosts the link to the next free block of its class in its own first
  \<^verbatim>\<open>sizeof(void*)\<close> bytes, so the pool's state includes the memory it shares with its clients.
  \<open>ptr\<close> is \<^verbatim>\<open>sizeof(void*)\<close> and \<open>pal\<close> is \<^verbatim>\<open>alignof(void*)\<close>.
\<close>

type_synonym memory = "addr \<Rightarrow> byte"

definition load_ptr :: "nat \<Rightarrow> memory \<Rightarrow> addr \<Rightarrow> addr" where
  "load_ptr ptr h p = unat (load_le (map (\<lambda>i. h (p + i)) [0..<ptr]) :: 64 word)"

definition store_ptr :: "nat \<Rightarrow> memory \<Rightarrow> addr \<Rightarrow> addr \<Rightarrow> memory" where
  "store_ptr ptr h p v =
     (\<lambda>a. if p \<le> a \<and> a < p + ptr then le_bytes (of_nat v :: 64 word) ptr ! (a - p) else h a)"

record size_class_t =
  sc_bytes :: nat
  sc_align :: nat
  sc_head :: addr

text \<open>\<open>pool_cls\<close> holds the \<open>n_\<close> slots in use of the \<open>pool_slots\<close> slots of the injected span.\<close>

record pool_source_t =
  pool_base :: addr
  pool_size :: nat
  pool_slots :: nat
  pool_cls :: "size_class_t list"
  pool_used :: nat
  pool_overflow :: nat
  pool_refused :: nat
  pool_largest_refused :: nat
  pool_mem :: memory

definition pool_init :: "addr \<Rightarrow> nat \<Rightarrow> nat \<Rightarrow> memory \<Rightarrow> pool_source_t" where
  "pool_init base sz slots h =
     \<lparr>pool_base = base, pool_size = sz, pool_slots = slots, pool_cls = [], pool_used = 0,
      pool_overflow = 0, pool_refused = 0, pool_largest_refused = 0, pool_mem = h\<rparr>"

definition pool_normalize :: "nat \<Rightarrow> nat \<Rightarrow> nat \<Rightarrow> nat \<Rightarrow> nat \<times> nat" where
  "pool_normalize ptr pal bytes align =
     ((if bytes < ptr then ptr else bytes), (if align < pal then pal else align))"

fun pool_find_from :: "size_class_t list \<Rightarrow> nat \<Rightarrow> nat \<Rightarrow> nat \<Rightarrow> nat option" where
  "pool_find_from [] i bytes align = None"
| "pool_find_from (c # cs) i bytes align =
     (if sc_bytes c = bytes \<and> sc_align c = align then Some i else pool_find_from cs (Suc i) bytes align)"

definition pool_find :: "pool_source_t \<Rightarrow> nat \<Rightarrow> nat \<Rightarrow> nat option" where
  "pool_find s bytes align = pool_find_from (pool_cls s) 0 bytes align"

definition pool_claim :: "pool_source_t \<Rightarrow> nat \<Rightarrow> nat \<Rightarrow> nat option \<times> pool_source_t" where
  "pool_claim s bytes align =
     (if length (pool_cls s) = pool_slots s then (None, s)
      else (Some (length (pool_cls s)),
            s\<lparr>pool_cls := pool_cls s @ [\<lparr>sc_bytes = bytes, sc_align = align, sc_head = 0\<rparr>]\<rparr>))"

definition pool_carve :: "nat \<Rightarrow> pool_source_t \<Rightarrow> nat \<Rightarrow> nat \<Rightarrow> addr option \<times> pool_source_t" where
  "pool_carve w s bytes align =
     (let cur = pool_base s + pool_used s;
          pad = align_pad w cur align
      in if pad > pool_size s - pool_used s \<or> bytes > pool_size s - pool_used s - pad then
           (None, s\<lparr>pool_refused := pool_refused s + 1,
                    pool_largest_refused := (if bytes > pool_largest_refused s then bytes else pool_largest_refused s)\<rparr>)
         else
           let used = pool_used s + (pad + bytes)
           in (Some (pool_base s + (used - bytes)), s\<lparr>pool_used := used\<rparr>))"

definition pool_try_alloc ::
  "nat \<Rightarrow> nat \<Rightarrow> nat \<Rightarrow> pool_source_t \<Rightarrow> nat \<Rightarrow> nat \<Rightarrow> addr option \<times> pool_source_t" where
  "pool_try_alloc w ptr pal s bytes0 align0 =
     (let (bytes, align) = pool_normalize ptr pal bytes0 align0 in
      case pool_find s bytes align of
        Some i \<Rightarrow>
          let c = pool_cls s ! i in
          if sc_head c \<noteq> 0 then
            (Some (sc_head c),
             s\<lparr>pool_cls := (pool_cls s)[i := c\<lparr>sc_head := load_ptr ptr (pool_mem s) (sc_head c)\<rparr>]\<rparr>)
          else pool_carve w s bytes align
      | None \<Rightarrow> pool_carve w s bytes align)"

definition pool_push :: "nat \<Rightarrow> pool_source_t \<Rightarrow> nat \<Rightarrow> addr \<Rightarrow> pool_source_t" where
  "pool_push ptr s i p =
     (let c = pool_cls s ! i
      in s\<lparr>pool_mem := store_ptr ptr (pool_mem s) p (sc_head c),
           pool_cls := (pool_cls s)[i := c\<lparr>sc_head := p\<rparr>]\<rparr>)"

definition pool_release ::
  "nat \<Rightarrow> nat \<Rightarrow> pool_source_t \<Rightarrow> addr \<Rightarrow> nat \<Rightarrow> nat \<Rightarrow> pool_source_t" where
  "pool_release ptr pal s p bytes0 align0 =
     (if p < pool_base s \<or> p \<ge> pool_base s + pool_size s then s
      else
        let (bytes, align) = pool_normalize ptr pal bytes0 align0 in
        case pool_find s bytes align of
          Some i \<Rightarrow> pool_push ptr s i p
        | None \<Rightarrow>
            (case pool_claim s bytes align of
               (Some i, s') \<Rightarrow> pool_push ptr s' i p
             | (None, s') \<Rightarrow> s'\<lparr>pool_overflow := pool_overflow s' + 1\<rparr>))"

definition pool_stats :: "pool_source_t \<Rightarrow> source_stats_t" where
  "pool_stats s =
     \<lparr>st_capacity = pool_size s, st_in_use = pool_used s, st_peak = pool_used s,
      st_refused = pool_refused s, st_largest_refused = pool_largest_refused s\<rparr>"

definition pool_source :: "nat \<Rightarrow> nat \<Rightarrow> nat \<Rightarrow> pool_source_t source_ops" where
  "pool_source w ptr pal = \<lparr>try_alloc = pool_try_alloc w ptr pal, release = pool_release ptr pal\<rparr>"

text \<open>A client's store into memory, which the pool does not see happen.\<close>

definition pool_client_write :: "pool_source_t \<Rightarrow> addr \<Rightarrow> byte \<Rightarrow> pool_source_t" where
  "pool_client_write s a b = s\<lparr>pool_mem := (pool_mem s)(a := b)\<rparr>"

section \<open>The contract\<close>

definition block_range :: "block \<Rightarrow> addr set" where
  "block_range b = (case b of (p, n, a) \<Rightarrow> {p..<p + n})"

definition blocks_apart :: "block set \<Rightarrow> bool" where
  "blocks_apart L \<longleftrightarrow> (\<forall>x \<in> L. \<forall>y \<in> L. x \<noteq> y \<longrightarrow> block_range x \<inter> block_range y = {})"

text \<open>The requests the seam's documentation admits: not empty, aligned to a power of two.\<close>

definition request_ok :: "nat \<Rightarrow> nat \<Rightarrow> nat \<Rightarrow> bool" where
  "request_ok w bytes align \<longleftrightarrow> 0 < bytes \<and> (\<exists>k \<le> w. align = 2 ^ k)"

text \<open>A source that refuses nothing.\<close>

definition always_grants :: "'m source_ops \<Rightarrow> bool" where
  "always_grants src \<longleftrightarrow> (\<forall>m n a. fst (try_alloc src m n a) \<noteq> None)"

text \<open>
  What a client relies on, with the set of live blocks as the ghost state: a granted block is
  not null, is aligned and lies apart from every live one, and returning a live block or being
  refused keeps the contract.
\<close>

locale block_source =
  fixes w :: nat and ops :: "'m source_ops" and inv :: "'m \<Rightarrow> block set \<Rightarrow> bool"
  assumes inv_apart: "inv m L \<Longrightarrow> blocks_apart L"
    and alloc_grant: "inv m L \<Longrightarrow> request_ok w n a \<Longrightarrow> try_alloc ops m n a = (Some p, m') \<Longrightarrow>
      inv m' (insert (p, n, a) L) \<and> (p, n, a) \<notin> L \<and> p \<noteq> 0 \<and> a dvd p"
    and alloc_refuse: "inv m L \<Longrightarrow> request_ok w n a \<Longrightarrow> try_alloc ops m n a = (None, m') \<Longrightarrow> inv m' L"
    and release_live: "inv m L \<Longrightarrow> (p, n, a) \<in> L \<Longrightarrow> inv (release ops m p n a) (L - {(p, n, a)})"
begin

text \<open>A granted block overlaps no live one.\<close>

lemma grant_disjoint:
  assumes "inv m L" and "request_ok w n a" and "try_alloc ops m n a = (Some p, m')" and "b \<in> L"
  shows "block_range (p, n, a) \<inter> block_range b = {}"
proof -
  have new: "inv m' (insert (p, n, a) L)" "(p, n, a) \<notin> L" using alloc_grant [OF assms(1-3)] by simp_all
  then have "(p, n, a) \<noteq> b" using assms(4) by metis
  then show ?thesis using inv_apart [OF new(1)] assms(4) by (simp add: blocks_apart_def)
qed

end

section \<open>Alignment\<close>

lemma align_pad_mod:
  assumes "k \<le> w"
  shows "align_pad w cur (2 ^ k) = (2 ^ w - cur mod 2 ^ w) mod 2 ^ k"
proof -
  have "cur mod 2 ^ w < 2 ^ w" by simp
  then have "(2 ^ w - 1 - cur mod 2 ^ w) + 1 = (2 ^ w - cur mod 2 ^ w :: nat)" by linarith
  moreover have "x AND (2 ^ k - 1) = x mod 2 ^ k" for x :: nat
    by (simp only: take_bit_eq_mod [symmetric] take_bit_eq_mask mask_eq_exp_minus_1)
  moreover have "(2 :: nat) ^ k dvd 2 ^ w" using assms by (rule le_imp_power_dvd)
  ultimately show ?thesis by (simp only: align_pad_def mod_mod_cancel)
qed

lemma round_up_multiple: "0 < m \<Longrightarrow> m dvd cur + (m - cur mod (m :: nat))"
proof -
  assume "0 < m"
  define q r where "q = m * (cur div m)" and "r = cur mod m"
  have "cur = q + r" "r < m" using \<open>0 < m\<close> by (simp_all add: q_def r_def)
  then have "cur + (m - r) = q + m" by simp
  then show ?thesis by (simp add: q_def r_def)
qed

lemma align_pad_dvd:
  assumes "k \<le> w"
  shows "2 ^ k dvd cur + align_pad w cur (2 ^ k)"
proof -
  have "(2 :: nat) ^ w dvd cur + (2 ^ w - cur mod 2 ^ w)" by (rule round_up_multiple) simp
  moreover have "(2 :: nat) ^ k dvd 2 ^ w" using assms by (rule le_imp_power_dvd)
  ultimately have "2 ^ k dvd cur + (2 ^ w - cur mod 2 ^ w)" by (rule dvd_trans [rotated])
  then show ?thesis by (simp only: align_pad_mod [OF assms] dvd_eq_mod_eq_0 mod_add_right_eq)
qed

lemma align_pad_less: "k \<le> w \<Longrightarrow> align_pad w cur (2 ^ k) < 2 ^ k"
  by (simp add: align_pad_mod)

section \<open>The null source and the bump source keep the contract\<close>

interpretation null_src: block_source w null_source "\<lambda>m L. L = {}"
  by unfold_locales (simp_all add: null_source_def blocks_apart_def)

text \<open>
  A bump source over the null source: the live blocks lie below the cursor.
\<close>

definition bump_inv :: "unit bump_source_t \<Rightarrow> block set \<Rightarrow> bool" where
  "bump_inv b L \<longleftrightarrow> 0 < bump_base b \<and> bump_used b \<le> bump_size b \<and> blocks_apart L \<and>
     (\<forall>x \<in> L. block_range x \<subseteq> {bump_base b..<bump_base b + bump_used b} \<and> block_range x \<noteq> {})"

lemma blocks_apart_insert:
  "blocks_apart L \<Longrightarrow> (\<And>y. y \<in> L \<Longrightarrow> block_range x \<inter> block_range y = {}) \<Longrightarrow> blocks_apart (insert x L)"
  unfolding blocks_apart_def by (metis Int_commute insert_iff)

lemma blocks_apart_subset: "blocks_apart L \<Longrightarrow> M \<subseteq> L \<Longrightarrow> blocks_apart M"
  unfolding blocks_apart_def by (meson subsetD)

lemma block_range_simp [simp]: "block_range (p, n, a) = {p..<p + n}"
  by (simp add: block_range_def)

lemma bump_try_alloc_null:
  "bump_try_alloc w null_source b bytes align =
     (let pad = align_pad w (bump_base b + bump_used b) align
      in if pad \<le> bump_size b - bump_used b \<and> bytes \<le> bump_size b - bump_used b - pad
         then (Some (bump_base b + bump_used b + pad), b\<lparr>bump_used := bump_used b + (pad + bytes)\<rparr>)
         else (None, bump_count_refusal b bytes))"
  by (cases b) (simp add: bump_try_alloc_def null_source_def Let_def)

lemma bump_grant:
  assumes inv: "bump_inv b L" and req: "request_ok w n a"
    and ok: "bump_try_alloc w null_source b n a = (Some p, b')"
  shows "bump_inv b' (insert (p, n, a) L) \<and> (p, n, a) \<notin> L \<and> p \<noteq> 0 \<and> a dvd p"
proof -
  obtain k where k: "k \<le> w" "a = 2 ^ k" and n: "0 < n" using req by (auto simp: request_ok_def)
  define pad where "pad = align_pad w (bump_base b + bump_used b) a"
  have fits: "pad + n \<le> bump_size b - bump_used b"
    and p: "p = bump_base b + bump_used b + pad" and b': "b' = b\<lparr>bump_used := bump_used b + (pad + n)\<rparr>"
    using ok by (auto simp: bump_try_alloc_null Let_def pad_def split: if_splits)
  have below: "block_range y \<subseteq> {bump_base b..<bump_base b + bump_used b}" "block_range y \<noteq> {}" if "y \<in> L" for y
    using inv that by (simp_all add: bump_inv_def)
  have apart: "block_range (p, n, a) \<inter> block_range y = {}" if "y \<in> L" for y
  proof -
    have "block_range (p, n, a) \<inter> {bump_base b..<bump_base b + bump_used b} = {}" by (auto simp: p)
    then show ?thesis using below(1) [OF that] by blast
  qed
  have new: "(p, n, a) \<notin> L" using apart [of "(p, n, a)"] n by auto
  have old: "block_range y \<subseteq> {bump_base b..<bump_base b + (bump_used b + (pad + n))}" if "y \<in> L" for y
    using below(1) [OF that] by (rule order_trans) simp
  have "blocks_apart (insert (p, n, a) L)"
    using inv apart by (intro blocks_apart_insert) (simp_all add: bump_inv_def)
  then have "bump_inv b' (insert (p, n, a) L)"
    using inv fits n old below(2) by (simp add: bump_inv_def b' p)
  moreover have "a dvd p" using align_pad_dvd [OF k(1)] by (simp add: p pad_def k(2))
  moreover have "p \<noteq> 0" using inv by (simp add: bump_inv_def p)
  ultimately show ?thesis using new by simp
qed

lemma bump_inv_refusal: "bump_inv (bump_count_refusal b n) L = bump_inv b L"
  by (simp add: bump_inv_def bump_count_refusal_def)

lemma bump_refuse:
  "bump_inv b L \<Longrightarrow> bump_try_alloc w null_source b n a = (None, b') \<Longrightarrow> bump_inv b' L"
  by (auto simp: bump_try_alloc_null Let_def bump_inv_refusal split: if_splits)

lemma bump_inv_subset: "bump_inv b L \<Longrightarrow> bump_inv b (L - X)"
  unfolding bump_inv_def using blocks_apart_subset [of L "L - X"] by simp

lemma bump_release_null: "bump_release null_source b p n a = b"
  by (cases b) (simp add: bump_release_def null_source_def)

interpretation bump_src: block_source w "bump_source w null_source" bump_inv
proof unfold_locales
  show "bump_inv m L \<Longrightarrow> blocks_apart L" for m L by (simp add: bump_inv_def)
  show "bump_inv m L \<Longrightarrow> request_ok w n a \<Longrightarrow> try_alloc (bump_source w null_source) m n a = (Some p, m') \<Longrightarrow>
      bump_inv m' (insert (p, n, a) L) \<and> (p, n, a) \<notin> L \<and> p \<noteq> 0 \<and> a dvd p" for m L n a p m'
    by (simp add: bump_source_def bump_grant)
  show "bump_inv m L \<Longrightarrow> request_ok w n a \<Longrightarrow> try_alloc (bump_source w null_source) m n a = (None, m') \<Longrightarrow>
      bump_inv m' L" for m L n a m'
    by (simp add: bump_source_def bump_refuse)
  show "bump_inv m L \<Longrightarrow> (p, n, a) \<in> L \<Longrightarrow> bump_inv (release (bump_source w null_source) m p n a) (L - {(p, n, a)})"
    for m L p n a
    by (simp add: bump_source_def bump_release_null bump_inv_subset)
qed

section \<open>The pool source keeps the contract\<close>

text \<open>Links stored in memory: a store is read back, and a store elsewhere is not seen.\<close>

lemma load_store_ptr:
  assumes "ptr \<le> 8" and "v < 2 ^ (8 * ptr)"
  shows "load_ptr ptr (store_ptr ptr h p v) p = v"
proof -
  have "map (\<lambda>i. store_ptr ptr h p v (p + i)) [0..<ptr] = le_bytes (of_nat v :: 64 word) ptr"
    by (rule nth_equalityI) (simp_all add: store_ptr_def)
  then have "load_ptr ptr (store_ptr ptr h p v) p = unat (take_bit (8 * ptr) (of_nat v :: 64 word))"
    using assms(1) by (simp add: load_ptr_def load_le_le_bytes)
  also have "\<dots> = take_bit (8 * ptr) (unat (of_nat v :: 64 word))" by (rule unsigned_take_bit_eq)
  also have "\<dots> = v"
  proof -
    have "(2 :: nat) ^ (8 * ptr) \<le> 2 ^ 64" using assms(1) by (intro power_increasing) simp_all
    then have "unat (of_nat v :: 64 word) = v" using assms(2) by (intro unat_of_nat_word) simp
    then show ?thesis using assms(2) by (simp add: take_bit_nat_eq_self)
  qed
  finally show ?thesis .
qed

lemma load_ptr_cong: "(\<And>i. i < ptr \<Longrightarrow> h (p + i) = h' (p + i)) \<Longrightarrow> load_ptr ptr h p = load_ptr ptr h' p"
  unfolding load_ptr_def by (rule arg_cong [where f = "\<lambda>bs. unat (load_le bs :: 64 word)"]) simp

lemma load_store_ptr_apart:
  "q + ptr \<le> p \<or> p + ptr \<le> q \<Longrightarrow> load_ptr ptr (store_ptr ptr h p v) q = load_ptr ptr h q"
  by (rule load_ptr_cong) (auto simp: store_ptr_def)

text \<open>A free list: the blocks reached from a head through the links in memory.\<close>

primrec pool_chain :: "nat \<Rightarrow> memory \<Rightarrow> addr \<Rightarrow> addr list \<Rightarrow> bool" where
  "pool_chain ptr h p [] \<longleftrightarrow> p = 0"
| "pool_chain ptr h p (x # xs) \<longleftrightarrow> p = x \<and> x \<noteq> 0 \<and> pool_chain ptr h (load_ptr ptr h x) xs"

lemma pool_chain_cong:
  "(\<And>x. x \<in> set xs \<Longrightarrow> load_ptr ptr h x = load_ptr ptr h' x) \<Longrightarrow> pool_chain ptr h p xs = pool_chain ptr h' p xs"
  by (induction xs arbitrary: p) auto

lemma pool_chain_head: "pool_chain ptr h p xs \<Longrightarrow> p \<noteq> 0 \<Longrightarrow> \<exists>ys. xs = p # ys \<and> pool_chain ptr h (load_ptr ptr h p) ys"
  by (cases xs) auto

text \<open>
  The invariant. \<open>carved\<close> records the size and alignment of every block ever cut from the slab;
  each is live, on exactly one free list \<open>F i\<close>, or lost to a full class table.
\<close>

definition carved_ok :: "nat \<Rightarrow> pool_source_t \<Rightarrow> (addr \<rightharpoonup> nat \<times> nat) \<Rightarrow> bool" where
  "carved_ok ptr s carved \<longleftrightarrow>
     (\<forall>p n a. carved p = Some (n, a) \<longrightarrow>
        pool_base s \<le> p \<and> p + n \<le> pool_base s + pool_used s \<and> ptr \<le> n \<and> a dvd p) \<and>
     (\<forall>p q n a m c. carved p = Some (n, a) \<and> carved q = Some (m, c) \<and> p \<noteq> q \<longrightarrow> p + n \<le> q \<or> q + m \<le> p)"

definition live_ok :: "nat \<Rightarrow> nat \<Rightarrow> block set \<Rightarrow> (addr \<rightharpoonup> nat \<times> nat) \<Rightarrow> bool" where
  "live_ok ptr pal L carved \<longleftrightarrow>
     (\<forall>(p, n, a) \<in> L. 0 < n \<and> carved p = Some (pool_normalize ptr pal n a)) \<and> inj_on fst L"

definition free_ok :: "nat \<Rightarrow> pool_source_t \<Rightarrow> block set \<Rightarrow> (addr \<rightharpoonup> nat \<times> nat) \<Rightarrow> (nat \<Rightarrow> addr list) \<Rightarrow> bool" where
  "free_ok ptr s L carved F \<longleftrightarrow>
     (\<forall>i < length (pool_cls s). pool_chain ptr (pool_mem s) (sc_head (pool_cls s ! i)) (F i) \<and> distinct (F i) \<and>
        (\<forall>x \<in> set (F i). carved x = Some (sc_bytes (pool_cls s ! i), sc_align (pool_cls s ! i)) \<and> x \<notin> fst ` L)) \<and>
     (\<forall>i j. i < length (pool_cls s) \<and> j < length (pool_cls s) \<and> i \<noteq> j \<longrightarrow> set (F i) \<inter> set (F j) = {})"

definition pool_inv :: "nat \<Rightarrow> nat \<Rightarrow> nat \<Rightarrow> pool_source_t \<Rightarrow> block set \<Rightarrow> bool" where
  "pool_inv w ptr pal s L \<longleftrightarrow>
     0 < ptr \<and> ptr \<le> 8 \<and> (\<exists>k \<le> w. pal = 2 ^ k) \<and>
     0 < pool_base s \<and> pool_base s + pool_size s \<le> 2 ^ (8 * ptr) \<and> pool_used s \<le> pool_size s \<and>
     (\<exists>carved F. carved_ok ptr s carved \<and> live_ok ptr pal L carved \<and> free_ok ptr s L carved F)"

lemma pool_init_inv:
  assumes "0 < ptr" and "ptr \<le> 8" and "pal = 2 ^ k" and "k \<le> w" and "0 < base" and "base + sz \<le> 2 ^ (8 * ptr)"
  shows "pool_inv w ptr pal (pool_init base sz slots h) {}"
proof -
  have "carved_ok ptr (pool_init base sz slots h) (\<lambda>_. None)" by (simp add: carved_ok_def)
  moreover have "live_ok ptr pal {} (\<lambda>_. None)" by (simp add: live_ok_def)
  moreover have "free_ok ptr (pool_init base sz slots h) {} (\<lambda>_. None) (\<lambda>_. [])"
    by (simp add: free_ok_def pool_init_def)
  ultimately show ?thesis using assms by (auto simp: pool_inv_def pool_init_def)
qed

lemma pool_inv_apart:
  assumes "pool_inv w ptr pal s L"
  shows "blocks_apart L"
proof -
  obtain carved F where c: "carved_ok ptr s carved" and l: "live_ok ptr pal L carved"
    using assms by (auto simp: pool_inv_def)
  show ?thesis
    unfolding blocks_apart_def
  proof (intro ballI impI)
    fix x y assume xy: "x \<in> L" "y \<in> L" "x \<noteq> y"
    obtain p n a q m b where x: "x = (p, n, a)" and y: "y = (q, m, b)" by (metis prod_cases3)
    have "fst x \<noteq> fst y" using l xy inj_onD [of fst L x y] by (auto simp: live_ok_def)
    then have "p \<noteq> q" by (simp add: x y)
    moreover have "carved p = Some (pool_normalize ptr pal n a)" "carved q = Some (pool_normalize ptr pal m b)"
      using l xy x y by (auto simp: live_ok_def)
    ultimately have "p + fst (pool_normalize ptr pal n a) \<le> q \<or> q + fst (pool_normalize ptr pal m b) \<le> p"
      using c unfolding carved_ok_def by (metis prod.collapse)
    then show "block_range x \<inter> block_range y = {}" by (auto simp: x y pool_normalize_def split: if_splits)
  qed
qed

text \<open>The class a request finds serves exactly its shape.\<close>

lemma pool_find_from_Some:
  "pool_find_from cs k bytes align = Some i \<Longrightarrow>
     k \<le> i \<and> i < k + length cs \<and> sc_bytes (cs ! (i - k)) = bytes \<and> sc_align (cs ! (i - k)) = align"
proof (induction cs arbitrary: k)
  case (Cons c cs)
  show ?case
  proof (cases "sc_bytes c = bytes \<and> sc_align c = align")
    case False
    then have rest: "pool_find_from cs (Suc k) bytes align = Some i" using Cons.prems by (auto split: if_splits)
    from Cons.IH [OF this] have "Suc k \<le> i" by simp
    then have "(c # cs) ! (i - k) = cs ! (i - Suc k)" by (simp add: nth_Cons' )
    with Cons.IH [OF rest] show ?thesis by auto
  qed (use Cons.prems in auto)
qed simp

lemma pool_find_Some:
  "pool_find s bytes align = Some i \<Longrightarrow>
     i < length (pool_cls s) \<and> sc_bytes (pool_cls s ! i) = bytes \<and> sc_align (pool_cls s ! i) = align"
  unfolding pool_find_def by (drule pool_find_from_Some) simp

lemma live_ok_insert:
  assumes "live_ok ptr pal L carved" and "x \<notin> fst ` L" and "0 < n" and "carved x = Some (pool_normalize ptr pal n a)"
  shows "live_ok ptr pal (insert (x, n, a) L) carved"
  using assms unfolding live_ok_def by (auto simp: inj_on_insert)

lemma free_ok_chain:
  "free_ok ptr s L carved F \<Longrightarrow> i < length (pool_cls s) \<Longrightarrow>
     pool_chain ptr (pool_mem s) (sc_head (pool_cls s ! i)) (F i) \<and> distinct (F i)"
  by (simp add: free_ok_def)

lemma free_ok_member:
  "free_ok ptr s L carved F \<Longrightarrow> i < length (pool_cls s) \<Longrightarrow> x \<in> set (F i) \<Longrightarrow>
     carved x = Some (sc_bytes (pool_cls s ! i), sc_align (pool_cls s ! i)) \<and> x \<notin> fst ` L"
  by (simp add: free_ok_def)

lemma free_ok_disjoint:
  "free_ok ptr s L carved F \<Longrightarrow> i < length (pool_cls s) \<Longrightarrow> j < length (pool_cls s) \<Longrightarrow> i \<noteq> j \<Longrightarrow>
     set (F i) \<inter> set (F j) = {}"
  by (simp add: free_ok_def)

lemma free_okI:
  assumes "\<And>i. i < length (pool_cls s) \<Longrightarrow> pool_chain ptr (pool_mem s) (sc_head (pool_cls s ! i)) (F i) \<and> distinct (F i)"
    and "\<And>i x. i < length (pool_cls s) \<Longrightarrow> x \<in> set (F i) \<Longrightarrow>
      carved x = Some (sc_bytes (pool_cls s ! i), sc_align (pool_cls s ! i)) \<and> x \<notin> fst ` L"
    and "\<And>i j. i < length (pool_cls s) \<Longrightarrow> j < length (pool_cls s) \<Longrightarrow> i \<noteq> j \<Longrightarrow> set (F i) \<inter> set (F j) = {}"
  shows "free_ok ptr s L carved F"
  using assms by (simp add: free_ok_def)

text \<open>Popping a free list makes its head live.\<close>

lemma free_ok_pop:
  assumes free: "free_ok ptr s L carved F" and i: "i < length (pool_cls s)"
    and x: "sc_head (pool_cls s ! i) = x" and "x \<noteq> 0"
    and s': "s' = s\<lparr>pool_cls := (pool_cls s)[i := (pool_cls s ! i)\<lparr>sc_head := load_ptr ptr (pool_mem s) x\<rparr>]\<rparr>"
  shows "(\<exists>F'. free_ok ptr s' (insert (x, n, a) L) carved F') \<and> x \<notin> fst ` L \<and>
      carved x = Some (sc_bytes (pool_cls s ! i), sc_align (pool_cls s ! i))"
proof -
  obtain ys where F: "F i = x # ys" and ch: "pool_chain ptr (pool_mem s) (load_ptr ptr (pool_mem s) x) ys"
    using free_ok_chain [OF free i] x \<open>x \<noteq> 0\<close> pool_chain_head by blast
  have dist: "distinct (x # ys)" using free_ok_chain [OF free i] F by simp
  have xc: "carved x = Some (sc_bytes (pool_cls s ! i), sc_align (pool_cls s ! i))" and xL: "x \<notin> fst ` L"
    using free_ok_member [OF free i, of x] F by simp_all
  have other: "x \<notin> set (F j)" if "j < length (pool_cls s)" "j \<noteq> i" for j
    using free_ok_disjoint [OF free i that(1)] that(2) F by auto
  have "free_ok ptr s' (insert (x, n, a) L) carved (F(i := ys))"
  proof (rule free_okI)
    fix j assume "j < length (pool_cls s')"
    then show "pool_chain ptr (pool_mem s') (sc_head (pool_cls s' ! j)) ((F(i := ys)) j) \<and> distinct ((F(i := ys)) j)"
      using free_ok_chain [OF free, of j] ch dist by (cases "j = i") (simp_all add: s')
  next
    fix j y assume "j < length (pool_cls s')" and "y \<in> set ((F(i := ys)) j)"
    then show "carved y = Some (sc_bytes (pool_cls s' ! j), sc_align (pool_cls s' ! j)) \<and> y \<notin> fst ` insert (x, n, a) L"
      using free_ok_member [OF free, of j y] other [of j] dist F by (cases "j = i") (auto simp: s')
  next
    fix j k assume "j < length (pool_cls s')" and "k < length (pool_cls s')" and "j \<noteq> k"
    then show "set ((F(i := ys)) j) \<inter> set ((F(i := ys)) k) = {}"
      using free_ok_disjoint [OF free, of j k] F by (auto simp: s')
  qed
  with xc xL show ?thesis by blast
qed

text \<open>Cutting a fresh block from the slab.\<close>

lemma carved_ok_block:
  "carved_ok ptr s carved \<Longrightarrow> carved p = Some (n, a) \<Longrightarrow>
     pool_base s \<le> p \<and> p + n \<le> pool_base s + pool_used s \<and> ptr \<le> n \<and> a dvd p"
  unfolding carved_ok_def by (drule conjunct1) (elim allE impE; assumption)

lemma carved_ok_apart:
  "carved_ok ptr s carved \<Longrightarrow> carved p = Some (n, a) \<Longrightarrow> carved q = Some (m, b) \<Longrightarrow> p \<noteq> q \<Longrightarrow>
     p + n \<le> q \<or> q + m \<le> p"
  unfolding carved_ok_def by (drule conjunct2) (simp only: simp_thms)

lemma carved_ok_extend:
  assumes c: "carved_ok ptr s carved" and base: "pool_base s' = pool_base s" and used: "pool_used s \<le> pool_used s'"
    and above: "pool_base s + pool_used s \<le> p" and fits: "p + n \<le> pool_base s + pool_used s'"
    and n: "ptr \<le> n" and a: "a dvd p"
  shows "carved_ok ptr s' (carved(p \<mapsto> (n, a)))"
  unfolding carved_ok_def
proof (intro conjI [of "All _"] allI impI)
  fix q m b assume q: "(carved(p \<mapsto> (n, a))) q = Some (m, b)"
  show "pool_base s' \<le> q \<and> q + m \<le> pool_base s' + pool_used s' \<and> ptr \<le> m \<and> b dvd q"
  proof (cases "q = p")
    case False
    then have "carved q = Some (m, b)" using q by simp
    from carved_ok_block [OF c this] show ?thesis using base used by simp
  qed (use q above fits n a base in simp)
next
  fix q r m b d e
  assume "(carved(p \<mapsto> (n, a))) q = Some (m, b) \<and> (carved(p \<mapsto> (n, a))) r = Some (d, e) \<and> q \<noteq> r"
  then show "q + m \<le> r \<or> r + d \<le> q"
    using above carved_ok_block [OF c, of q m b] carved_ok_block [OF c, of r d e] carved_ok_apart [OF c, of q m b r d e]
    by (cases "q = p"; cases "r = p") simp_all
qed

lemma pool_carve_grant:
  assumes inv: "pool_inv w ptr pal s L" and n: "0 < n0" and align: "pool_normalize ptr pal n0 a0 = (n, a)"
    and k: "k \<le> w" "a = 2 ^ k"
    and ok: "pool_carve w s n a = (Some p, s')"
  shows "pool_inv w ptr pal s' (insert (p, n0, a0) L) \<and> p \<noteq> 0 \<and> p \<notin> fst ` L \<and> a dvd p"
proof -
  obtain carved F where c: "carved_ok ptr s carved" and l: "live_ok ptr pal L carved" and f: "free_ok ptr s L carved F"
    using inv by (auto simp: pool_inv_def)
  define pad where "pad = align_pad w (pool_base s + pool_used s) a"
  have fits: "pad + n \<le> pool_size s - pool_used s" and p: "p = pool_base s + pool_used s + pad"
    and s': "s' = s\<lparr>pool_used := pool_used s + (pad + n)\<rparr>"
    using ok by (auto simp: pool_carve_def Let_def pad_def split: if_splits)
  have ptr: "ptr \<le> n" "0 < ptr" using align inv by (auto simp: pool_normalize_def pool_inv_def split: if_splits)
  have dvd: "a dvd p" using align_pad_dvd [OF k(1)] by (simp add: p pad_def k(2))
  have fresh: "carved p = None"
  proof (cases "carved p")
    case (Some mb)
    then show ?thesis using carved_ok_block [OF c, of p "fst mb" "snd mb"] ptr p by simp
  qed
  have pL: "p \<notin> fst ` L" using l fresh unfolding live_ok_def by force
  let ?c = "carved(p \<mapsto> (n, a))"
  have "carved_ok ptr s' ?c"
    using c
  proof (rule carved_ok_extend)
    show "pool_base s' = pool_base s" "pool_used s \<le> pool_used s'" "pool_base s + pool_used s \<le> p"
      "p + n \<le> pool_base s + pool_used s'" by (simp_all add: s' p)
  qed (use ptr dvd in auto)
  moreover have "live_ok ptr pal (insert (p, n0, a0) L) ?c"
  proof (rule live_ok_insert)
    show "live_ok ptr pal L ?c" using l fresh unfolding live_ok_def by fastforce
  qed (use pL n align in auto)
  moreover have "free_ok ptr s' (insert (p, n0, a0) L) ?c F"
    using f fresh unfolding free_ok_def s' by fastforce
  ultimately have "pool_inv w ptr pal s' (insert (p, n0, a0) L)"
    using inv fits unfolding pool_inv_def by (auto simp: s')
  moreover have "p \<noteq> 0" using inv by (simp add: p pool_inv_def)
  ultimately show ?thesis using dvd pL by blast
qed

text \<open>Writes that miss every free block's link keep the free lists.\<close>

lemma free_ok_mem:
  assumes free: "free_ok ptr s L carved F"
    and cls: "pool_cls s' = pool_cls s"
    and keep: "\<And>i x. i < length (pool_cls s) \<Longrightarrow> x \<in> set (F i) \<Longrightarrow> load_ptr ptr (pool_mem s') x = load_ptr ptr (pool_mem s) x"
  shows "free_ok ptr s' L carved F"
proof (rule free_okI)
  fix i assume "i < length (pool_cls s')"
  then show "pool_chain ptr (pool_mem s') (sc_head (pool_cls s' ! i)) (F i) \<and> distinct (F i)"
    using free_ok_chain [OF free, of i] keep [of i] pool_chain_cong [of "F i" ptr "pool_mem s'" "pool_mem s"]
    by (simp add: cls)
qed (use free_ok_member [OF free] free_ok_disjoint [OF free] in \<open>simp_all add: cls\<close>)

text \<open>Returning a live block pushes it on the list of its class.\<close>

lemma free_ok_push:
  assumes free: "free_ok ptr s L carved F" and c: "carved_ok ptr s carved" and live: "live_ok ptr pal L carved"
    and ptr: "ptr \<le> 8" and room: "pool_base s + pool_used s \<le> 2 ^ (8 * ptr)" and base: "0 < pool_base s"
    and i: "i < length (pool_cls s)" and pL: "(p, n, a) \<in> L"
    and shape: "pool_normalize ptr pal n a = (sc_bytes (pool_cls s ! i), sc_align (pool_cls s ! i))"
  shows "\<exists>F'. free_ok ptr (pool_push ptr s i p) (L - {(p, n, a)}) carved F'"
proof -
  define s' where "s' = pool_push ptr s i p"
  define h where "h = sc_head (pool_cls s ! i)"
  have mem: "pool_mem s' = store_ptr ptr (pool_mem s) p h"
    and cls: "pool_cls s' = (pool_cls s)[i := (pool_cls s ! i)\<lparr>sc_head := p\<rparr>]"
    by (simp_all add: s'_def pool_push_def Let_def h_def)
  have pc: "carved p = Some (sc_bytes (pool_cls s ! i), sc_align (pool_cls s ! i))"
    using live pL shape by (auto simp: live_ok_def)
  have p0: "p \<noteq> 0" using carved_ok_block [OF c pc] base by simp
  have pfree: "p \<notin> set (F j)" if "j < length (pool_cls s)" for j
    using free_ok_member [OF free that, of p] pL by force
  have keep: "load_ptr ptr (pool_mem s') x = load_ptr ptr (pool_mem s) x" if "j < length (pool_cls s)" "x \<in> set (F j)" for j x
  proof -
    have xc: "carved x = Some (sc_bytes (pool_cls s ! j), sc_align (pool_cls s ! j))"
      using free_ok_member [OF free that] by simp
    have "x \<noteq> p" using pfree [OF that(1)] that(2) by blast
    then show ?thesis
      unfolding mem using carved_ok_apart [OF c xc pc] carved_ok_block [OF c xc] carved_ok_block [OF c pc]
      by (intro load_store_ptr_apart) linarith
  qed
  have hsmall: "h < 2 ^ (8 * ptr)"
  proof (cases "h = 0")
    case False
    then obtain ys where "F i = h # ys" using free_ok_chain [OF free i] pool_chain_head h_def by blast
    then have "carved h = Some (sc_bytes (pool_cls s ! i), sc_align (pool_cls s ! i))"
      using free_ok_member [OF free i, of h] by simp
    moreover have "0 < sc_bytes (pool_cls s ! i)"
      using live pL shape by (auto simp: live_ok_def pool_normalize_def split: if_splits)
    ultimately show ?thesis using carved_ok_block [OF c, of h] room by fastforce
  qed simp
  have "free_ok ptr s' (L - {(p, n, a)}) carved (F(i := p # F i))"
  proof (rule free_okI)
    fix j assume j: "j < length (pool_cls s')"
    have "pool_chain ptr (pool_mem s') q (F j) = pool_chain ptr (pool_mem s) q (F j)" for q
      using j keep [of j] by (intro pool_chain_cong) (simp add: cls)
    moreover have "load_ptr ptr (pool_mem s') p = h" unfolding mem using ptr hsmall by (rule load_store_ptr)
    ultimately show "pool_chain ptr (pool_mem s') (sc_head (pool_cls s' ! j)) ((F(i := p # F i)) j) \<and>
        distinct ((F(i := p # F i)) j)"
      using free_ok_chain [OF free, of j] j pfree [of j] p0 by (cases "j = i") (simp_all add: cls h_def)
  next
    fix j y assume j: "j < length (pool_cls s')" "y \<in> set ((F(i := p # F i)) j)"
    have "inj_on fst L" using live by (simp add: live_ok_def)
    then have "p \<notin> fst ` (L - {(p, n, a)})" using pL by (force dest: inj_onD [of fst L _ "(p, n, a)"])
    then show "carved y = Some (sc_bytes (pool_cls s' ! j), sc_align (pool_cls s' ! j)) \<and> y \<notin> fst ` (L - {(p, n, a)})"
      using free_ok_member [OF free, of j y] j pc by (cases "j = i") (auto simp: cls)
  next
    fix j k assume "j < length (pool_cls s')" and "k < length (pool_cls s')" and "j \<noteq> k"
    then show "set ((F(i := p # F i)) j) \<inter> set ((F(i := p # F i)) k) = {}"
      using free_ok_disjoint [OF free, of j k] pfree by (auto simp: cls)
  qed
  then show ?thesis unfolding s'_def by blast
qed

lemma free_ok_claim:
  assumes "free_ok ptr s L carved F"
  shows "free_ok ptr (s\<lparr>pool_cls := pool_cls s @ [\<lparr>sc_bytes = bytes, sc_align = align, sc_head = 0\<rparr>]\<rparr>) L carved
     (F(length (pool_cls s) := []))"
  using assms unfolding free_ok_def by (simp add: nth_append less_Suc_eq)

lemma live_ok_subset: "live_ok ptr pal L carved \<Longrightarrow> live_ok ptr pal (L - X) carved"
  unfolding live_ok_def by (auto intro: inj_on_subset)

lemma free_ok_subset: "free_ok ptr s L carved F \<Longrightarrow> free_ok ptr s (L - X) carved F"
  unfolding free_ok_def by blast

lemma carved_ok_same:
  "carved_ok ptr s carved \<Longrightarrow> pool_base s' = pool_base s \<Longrightarrow> pool_used s' = pool_used s \<Longrightarrow> carved_ok ptr s' carved"
  by (simp add: carved_ok_def)

lemma pool_grant:
  assumes inv: "pool_inv w ptr pal s L" and req: "request_ok w n a"
    and ok: "pool_try_alloc w ptr pal s n a = (Some p, s')"
  shows "pool_inv w ptr pal s' (insert (p, n, a) L) \<and> (p, n, a) \<notin> L \<and> p \<noteq> 0 \<and> a dvd p"
proof -
  obtain k j where n: "0 < n" and k: "k \<le> w" "a = 2 ^ k" and j: "j \<le> w" "pal = 2 ^ j"
    using req inv by (auto simp: request_ok_def pool_inv_def)
  obtain m b where norm: "pool_normalize ptr pal n a = (m, b)" by fastforce
  have "b = 2 ^ k \<or> b = 2 ^ j" and ab: "a dvd b"
    using norm k j by (auto simp: pool_normalize_def le_imp_power_dvd split: if_splits)
  then obtain i where b: "i \<le> w" "b = 2 ^ i" using k j by blast
  show ?thesis
  proof (cases "\<exists>c. pool_find s m b = Some c \<and> sc_head (pool_cls s ! c) \<noteq> 0")
    case False
    then have "pool_carve w s m b = (Some p, s')"
      using ok by (auto simp: pool_try_alloc_def norm Let_def split: option.splits)
    from pool_carve_grant [OF inv n norm b this] show ?thesis
      using dvd_trans [OF ab] by (metis fst_conv image_eqI)
  next
    case True
    then obtain c where c: "pool_find s m b = Some c" "sc_head (pool_cls s ! c) \<noteq> 0" by blast
    note cls = pool_find_Some [OF c(1)]
    have p: "sc_head (pool_cls s ! c) = p"
      and s': "s' = s\<lparr>pool_cls := (pool_cls s)[c := (pool_cls s ! c)\<lparr>sc_head := load_ptr ptr (pool_mem s) p\<rparr>]\<rparr>"
      using ok c by (auto simp: pool_try_alloc_def norm Let_def)
    obtain carved F where co: "carved_ok ptr s carved" and l: "live_ok ptr pal L carved" and f: "free_ok ptr s L carved F"
      using inv by (auto simp: pool_inv_def)
    have p0: "p \<noteq> 0" using c(2) p by simp
    have "c < length (pool_cls s)" using cls by simp
    from free_ok_pop [OF f this p p0 s', of n a]
    obtain F' where F': "free_ok ptr s' (insert (p, n, a) L) carved F'" and pL: "p \<notin> fst ` L"
      and pc: "carved p = Some (m, b)" using cls by auto
    have "live_ok ptr pal (insert (p, n, a) L) carved" using live_ok_insert [OF l pL n] pc norm by simp
    moreover have "carved_ok ptr s' carved" using co by (rule carved_ok_same) (simp_all add: s')
    ultimately have "pool_inv w ptr pal s' (insert (p, n, a) L)"
      using inv F' unfolding pool_inv_def by (auto simp: s')
    moreover have "b dvd p" using carved_ok_block [OF co pc] by simp
    ultimately show ?thesis using p0 pL dvd_trans [OF ab] by (metis fst_conv image_eqI)
  qed
qed

lemma pool_inv_counters:
  assumes "pool_inv w ptr pal s L" and "pool_base s' = pool_base s" and "pool_size s' = pool_size s"
    and "pool_used s' = pool_used s" and "pool_cls s' = pool_cls s" and "pool_mem s' = pool_mem s"
  shows "pool_inv w ptr pal s' L"
  using assms by (simp add: pool_inv_def carved_ok_def free_ok_def)

lemma pool_refuse:
  assumes "pool_inv w ptr pal s L" and "pool_try_alloc w ptr pal s n a = (None, s')"
  shows "pool_inv w ptr pal s' L"
proof -
  obtain m b where "pool_normalize ptr pal n a = (m, b)" by fastforce
  then have "pool_carve w s m b = (None, s')"
    using assms(2) by (auto simp: pool_try_alloc_def Let_def split: option.splits if_splits)
  then show ?thesis
    by (intro pool_inv_counters [OF assms(1)]) (auto simp: pool_carve_def Let_def split: if_splits)
qed

lemma pool_inv_push:
  assumes inv: "pool_inv w ptr pal s L" and i: "i < length (pool_cls s)" and pL: "(p, n, a) \<in> L"
    and shape: "pool_normalize ptr pal n a = (sc_bytes (pool_cls s ! i), sc_align (pool_cls s ! i))"
  shows "pool_inv w ptr pal (pool_push ptr s i p) (L - {(p, n, a)})"
proof -
  obtain carved F where c: "carved_ok ptr s carved" and l: "live_ok ptr pal L carved" and f: "free_ok ptr s L carved F"
    using inv by (auto simp: pool_inv_def)
  have "pool_base s + pool_used s \<le> 2 ^ (8 * ptr)" "ptr \<le> 8" "0 < pool_base s" using inv by (auto simp: pool_inv_def)
  then obtain F' where "free_ok ptr (pool_push ptr s i p) (L - {(p, n, a)}) carved F'"
    using free_ok_push [OF f c l _ _ _ i pL shape] by blast
  moreover have "carved_ok ptr (pool_push ptr s i p) carved"
    using c by (rule carved_ok_same) (simp_all add: pool_push_def Let_def)
  ultimately show ?thesis
    using inv live_ok_subset [OF l] unfolding pool_inv_def by (auto simp: pool_push_def Let_def)
qed

lemma pool_inv_subset: "pool_inv w ptr pal s L \<Longrightarrow> pool_inv w ptr pal s (L - X)"
  unfolding pool_inv_def using live_ok_subset free_ok_subset by blast

lemma pool_inv_claim:
  assumes "pool_inv w ptr pal s L" and "pool_claim s m b = (Some i, s')"
  shows "pool_inv w ptr pal s' L \<and> i < length (pool_cls s') \<and> sc_bytes (pool_cls s' ! i) = m \<and> sc_align (pool_cls s' ! i) = b"
proof -
  have s': "s' = s\<lparr>pool_cls := pool_cls s @ [\<lparr>sc_bytes = m, sc_align = b, sc_head = 0\<rparr>]\<rparr>" and i: "i = length (pool_cls s)"
    using assms(2) by (auto simp: pool_claim_def split: if_splits)
  obtain carved F where c: "carved_ok ptr s carved" and l: "live_ok ptr pal L carved" and f: "free_ok ptr s L carved F"
    using assms(1) by (auto simp: pool_inv_def)
  have "carved_ok ptr s' carved" using c by (rule carved_ok_same) (simp_all add: s')
  then have "pool_inv w ptr pal s' L"
    using assms(1) l free_ok_claim [OF f, of m b] unfolding pool_inv_def by (auto simp: s')
  then show ?thesis by (simp add: s' i nth_append)
qed

lemma pool_release_live:
  assumes inv: "pool_inv w ptr pal s L" and pL: "(p, n, a) \<in> L"
  shows "pool_inv w ptr pal (pool_release ptr pal s p n a) (L - {(p, n, a)})"
proof -
  obtain m b where norm: "pool_normalize ptr pal n a = (m, b)" by fastforce
  have inside: "\<not> (p < pool_base s \<or> p \<ge> pool_base s + pool_size s)"
  proof -
    obtain carved where c: "carved_ok ptr s carved" and l: "live_ok ptr pal L carved"
      using inv by (auto simp: pool_inv_def)
    have "carved p = Some (m, b)" using l pL norm by (auto simp: live_ok_def)
    from carved_ok_block [OF c this] show ?thesis using inv by (auto simp: pool_inv_def)
  qed
  show ?thesis
  proof (cases "pool_find s m b")
    case (Some i)
    then show ?thesis
      using inside pool_find_Some [OF Some] pool_inv_push [OF inv _ pL, of i] norm by (simp add: pool_release_def)
  next
    case None
    show ?thesis
    proof (cases "pool_claim s m b")
      case (Pair r s')
      show ?thesis
      proof (cases r)
        case None': None
        then have "s' = s" using Pair by (auto simp: pool_claim_def split: if_splits)
        then show ?thesis
          using inside None None' Pair norm pool_inv_counters [OF pool_inv_subset [OF inv]]
          by (simp add: pool_release_def)
      next
        case (Some i)
        then show ?thesis
          using inside None Pair norm pool_inv_claim [OF inv, of m b i s'] pool_inv_push [of w ptr pal s' L i p n a] pL
          by (simp add: pool_release_def)
      qed
    qed
  qed
qed

text \<open>A client may write anywhere inside its live blocks.\<close>

lemma pool_client_write_inv:
  assumes inv: "pool_inv w ptr pal s L" and x: "x \<in> L" and a: "a \<in> block_range x"
  shows "pool_inv w ptr pal (pool_client_write s a b) L"
proof -
  obtain carved F where c: "carved_ok ptr s carved" and l: "live_ok ptr pal L carved" and f: "free_ok ptr s L carved F"
    using inv by (auto simp: pool_inv_def)
  obtain p n k where xp: "x = (p, n, k)" by (metis prod_cases3)
  define m d where "m = fst (pool_normalize ptr pal n k)" and "d = snd (pool_normalize ptr pal n k)"
  have pc: "carved p = Some (m, d)" using l x xp by (auto simp: live_ok_def m_def d_def)
  have am: "p \<le> a" "a < p + m" using a by (auto simp: xp m_def pool_normalize_def split: if_splits)
  have "free_ok ptr (pool_client_write s a b) L carved F"
  proof (rule free_ok_mem [OF f])
    fix i y assume i: "i < length (pool_cls s)" "y \<in> set (F i)"
    note y = free_ok_member [OF f i]
    have "y \<noteq> p" using y x xp by force
    then have "a < y \<or> y + ptr \<le> a"
      using carved_ok_apart [OF c conjunct1 [OF y] pc] carved_ok_block [OF c conjunct1 [OF y]] am by linarith
    then show "load_ptr ptr (pool_mem (pool_client_write s a b)) y = load_ptr ptr (pool_mem s) y"
      by (intro load_ptr_cong) (auto simp: pool_client_write_def)
  qed (simp add: pool_client_write_def)
  moreover have "carved_ok ptr (pool_client_write s a b) carved"
    using c by (rule carved_ok_same) (simp_all add: pool_client_write_def)
  ultimately show ?thesis using inv l unfolding pool_inv_def by (auto simp: pool_client_write_def)
qed

interpretation pool_src: block_source w "pool_source w ptr pal" "pool_inv w ptr pal"
proof unfold_locales
  show "pool_inv w ptr pal m L \<Longrightarrow> blocks_apart L" for m L by (rule pool_inv_apart)
  show "pool_inv w ptr pal m L \<Longrightarrow> request_ok w n a \<Longrightarrow> try_alloc (pool_source w ptr pal) m n a = (Some p, m') \<Longrightarrow>
      pool_inv w ptr pal m' (insert (p, n, a) L) \<and> (p, n, a) \<notin> L \<and> p \<noteq> 0 \<and> a dvd p" for m L n a p m'
    by (simp add: pool_source_def pool_grant)
  show "pool_inv w ptr pal m L \<Longrightarrow> request_ok w n a \<Longrightarrow> try_alloc (pool_source w ptr pal) m n a = (None, m') \<Longrightarrow>
      pool_inv w ptr pal m' L" for m L n a m'
    by (simp add: pool_source_def pool_refuse)
  show "pool_inv w ptr pal m L \<Longrightarrow> (p, n, a) \<in> L \<Longrightarrow>
      pool_inv w ptr pal (release (pool_source w ptr pal) m p n a) (L - {(p, n, a)})" for m L p n a
    by (simp add: pool_source_def pool_release_live)
qed

section \<open>Clients of a source\<close>

text \<open>
  A run of a client: requests, returns of live blocks and, on the pool, stores inside live
  blocks. The ghost component is the set of live blocks.
\<close>

inductive pool_run :: "nat \<Rightarrow> nat \<Rightarrow> nat \<Rightarrow> pool_source_t \<Rightarrow> pool_source_t \<times> block set \<Rightarrow> bool"
  for w ptr pal s0 where
  start: "pool_run w ptr pal s0 (s0, {})"
| grant: "pool_run w ptr pal s0 (s, L) \<Longrightarrow> request_ok w n a \<Longrightarrow> pool_try_alloc w ptr pal s n a = (Some p, s') \<Longrightarrow>
    pool_run w ptr pal s0 (s', insert (p, n, a) L)"
| refuse: "pool_run w ptr pal s0 (s, L) \<Longrightarrow> request_ok w n a \<Longrightarrow> pool_try_alloc w ptr pal s n a = (None, s') \<Longrightarrow>
    pool_run w ptr pal s0 (s', L)"
| give_back: "pool_run w ptr pal s0 (s, L) \<Longrightarrow> (p, n, a) \<in> L \<Longrightarrow>
    pool_run w ptr pal s0 (pool_release ptr pal s p n a, L - {(p, n, a)})"
| store: "pool_run w ptr pal s0 (s, L) \<Longrightarrow> x \<in> L \<Longrightarrow> a \<in> block_range x \<Longrightarrow>
    pool_run w ptr pal s0 (pool_client_write s a b, L)"

lemma pool_run_inv:
  assumes "pool_run w ptr pal s0 sL" and "pool_inv w ptr pal s0 {}"
  shows "pool_inv w ptr pal (fst sL) (snd sL)"
  using assms
  by (induction rule: pool_run.induct)
     (auto simp: pool_grant pool_refuse pool_release_live pool_client_write_inv)

lemma pool_inv_live:
  assumes "pool_inv w ptr pal s L" and "(p, n, a) \<in> L"
  shows "pool_base s \<le> p \<and> p + n \<le> pool_base s + pool_size s"
proof -
  obtain carved where c: "carved_ok ptr s carved" and l: "live_ok ptr pal L carved"
    using assms(1) by (auto simp: pool_inv_def)
  have "carved p = Some (pool_normalize ptr pal n a)" using l assms(2) by (auto simp: live_ok_def)
  then have "carved p = Some (fst (pool_normalize ptr pal n a), snd (pool_normalize ptr pal n a))" by simp
  from carved_ok_block [OF c this] show ?thesis
    using assms(1) by (auto simp: pool_inv_def pool_normalize_def split: if_splits)
qed

lemma pool_slab_fixed:
  "pool_base (snd (pool_try_alloc w ptr pal s n a)) = pool_base s \<and> pool_size (snd (pool_try_alloc w ptr pal s n a)) = pool_size s"
  "pool_base (pool_release ptr pal s p n a) = pool_base s \<and> pool_size (pool_release ptr pal s p n a) = pool_size s"
  by (simp_all add: pool_try_alloc_def pool_carve_def pool_release_def pool_push_def pool_claim_def Let_def
      split: option.splits prod.splits)

lemma pool_run_slab:
  assumes "pool_run w ptr pal s0 sL"
  shows "pool_base (fst sL) = pool_base s0 \<and> pool_size (fst sL) = pool_size s0"
  using assms
proof (induction rule: pool_run.induct)
  case (grant s L n a p s')
  then show ?case using pool_slab_fixed(1) [of w ptr pal s n a] by simp
next
  case (refuse s L n a s')
  then show ?case using pool_slab_fixed(1) [of w ptr pal s n a] by simp
qed (simp_all add: pool_slab_fixed(2) pool_client_write_def)

text \<open>The search for a class looks at the keys only.\<close>

lemma pool_find_from_keys:
  "map sc_bytes cs = map sc_bytes ds \<Longrightarrow> map sc_align cs = map sc_align ds \<Longrightarrow>
     pool_find_from cs k m b = pool_find_from ds k m b"
proof (induction cs arbitrary: ds k)
  case (Cons c cs)
  then obtain d ds' where "ds = d # ds'" by (cases ds) auto
  with Cons show ?case by simp
qed simp

lemma pool_find_from_append_None:
  "pool_find_from cs k m b = None \<Longrightarrow>
     pool_find_from (cs @ [\<lparr>sc_bytes = m, sc_align = b, sc_head = h\<rparr>]) k m b = Some (k + length cs)"
  by (induction cs arbitrary: k) (auto split: if_splits)

lemma pool_find_push: "pool_find (pool_push ptr s i p) m b = pool_find s m b"
proof (cases "i < length (pool_cls s)")
  case True
  then show ?thesis
    unfolding pool_find_def
    by (intro pool_find_from_keys) (auto intro!: nth_equalityI simp: pool_push_def Let_def nth_list_update)
qed (simp add: pool_push_def Let_def pool_find_def list_update_beyond)

lemma pool_try_alloc_pushed:
  assumes "pool_find s m b = Some i" and "pool_normalize ptr pal n a = (m, b)" and "p \<noteq> 0"
  shows "fst (pool_try_alloc w ptr pal (pool_push ptr s i p) n a) = Some p"
  using assms pool_find_Some [OF assms(1)]
  by (simp add: pool_try_alloc_def pool_find_push) (simp add: pool_push_def Let_def)

text \<open>A small pool: one 16-byte block cut from a 64-byte slab at address 64.\<close>

lemma pool_example_alloc:
  "pool_try_alloc 32 4 4 (pool_init 64 64 2 (\<lambda>_. 0)) 16 4 = (Some 64, (pool_init 64 64 2 (\<lambda>_. 0))\<lparr>pool_used := 16\<rparr>)"
proof -
  have "align_pad 32 64 4 = 0" using align_pad_mod [of 2 32 64] by simp
  then show ?thesis
    by (simp add: pool_try_alloc_def pool_normalize_def pool_find_def pool_carve_def pool_init_def)
qed

lemma pool_example_request: "request_ok 32 16 4"
proof -
  have "(4 :: nat) = 2 ^ 2" by simp
  then show ?thesis unfolding request_ok_def by (intro conjI exI [of _ 2]) simp_all
qed

section \<open>Properties\<close>

text \<open>
  C11. The pool source never hands out overlapping storage: after any sequence of requests,
  returns of live blocks and writes by clients inside their own blocks, the live blocks are
  pairwise disjoint and inside the slab, although the free lists are threaded through memory
  the clients were writing to.
\<close>

theorem pool_live_blocks_disjoint:
  assumes "0 < ptr" and "ptr \<le> 8" and "pal = 2 ^ k" and "k \<le> w" and "0 < base" and "base + sz \<le> 2 ^ (8 * ptr)"
    and "pool_run w ptr pal (pool_init base sz slots h) (s, L)"
  shows "blocks_apart L \<and> (\<forall>(p, n, a) \<in> L. base \<le> p \<and> p + n \<le> base + sz)"
proof -
  have inv: "pool_inv w ptr pal s L"
    using pool_run_inv [OF assms(7) pool_init_inv [OF assms(1-6)]] by simp
  have "pool_base s = base" "pool_size s = sz" using pool_run_slab [OF assms(7)] by (simp_all add: pool_init_def)
  then have "base \<le> p \<and> p + n \<le> base + sz" if "(p, n, a) \<in> L" for p n a using pool_inv_live [OF inv that] by simp
  then show ?thesis using pool_src.inv_apart [OF inv] by auto
qed

theorem pool_live_blocks_disjoint_witness:
  "\<exists>s. pool_run 32 4 4 (pool_init 64 64 2 (\<lambda>_. 0)) (s, {(64, 16, 4)}) \<and> blocks_apart {(64, 16, 4)}"
proof -
  let ?s0 = "pool_init 64 64 2 (\<lambda>_. 0)"
  have run: "pool_run 32 4 4 ?s0 (?s0\<lparr>pool_used := 16\<rparr>, {(64, 16, 4)})"
    by (rule pool_run.grant [OF pool_run.start pool_example_request pool_example_alloc])
  have "blocks_apart {(64, 16, 4)}"
    by (rule conjunct1 [OF pool_live_blocks_disjoint [of 4 4 2 32 64 64, OF _ _ _ _ _ _ run]]) simp_all
  with run show ?thesis by blast
qed

text \<open>
  The pool recycles: once a live block has been returned, the next request of the same
  size and alignment is served from it without touching the slab, unless the class table had
  no slot left for that shape.
\<close>

theorem pool_recycles:
  assumes "pool_inv w ptr pal s L" and "(p, n, a) \<in> L"
    and "pool_find s (fst (pool_normalize ptr pal n a)) (snd (pool_normalize ptr pal n a)) \<noteq> None \<or>
         length (pool_cls s) < pool_slots s"
  shows "fst (pool_try_alloc w ptr pal (pool_release ptr pal s p n a) n a) = Some p"
proof -
  obtain m b where norm: "pool_normalize ptr pal n a = (m, b)" by fastforce
  have p: "pool_base s \<le> p" "p < pool_base s + pool_size s" "p \<noteq> 0"
    using pool_inv_live [OF assms(1,2)] assms(1,2) by (auto simp: pool_inv_def live_ok_def)
  show ?thesis
  proof (cases "pool_find s m b")
    case (Some i)
    then have "pool_release ptr pal s p n a = pool_push ptr s i p" using p norm by (simp add: pool_release_def)
    then show ?thesis using pool_try_alloc_pushed [OF Some norm p(3)] by simp
  next
    case None
    define s' where "s' = s\<lparr>pool_cls := pool_cls s @ [\<lparr>sc_bytes = m, sc_align = b, sc_head = 0\<rparr>]\<rparr>"
    have "pool_release ptr pal s p n a = pool_push ptr s' (length (pool_cls s)) p"
      using p norm None assms(3) by (simp add: pool_release_def pool_claim_def s'_def)
    moreover have "pool_find s' m b = Some (length (pool_cls s))"
      using None by (simp add: pool_find_def s'_def pool_find_from_append_None)
    ultimately show ?thesis using pool_try_alloc_pushed [OF _ norm p(3)] by simp
  qed
qed

theorem pool_recycles_witness:
  "let s = (pool_init 64 64 2 (\<lambda>_. 0))\<lparr>pool_used := 16\<rparr>
   in pool_inv 32 4 4 s {(64, 16, 4)} \<and> fst (pool_try_alloc 32 4 4 (pool_release 4 4 s 64 16 4) 16 4) = Some 64"
proof -
  let ?s0 = "pool_init 64 64 2 (\<lambda>_. 0)"
  have "pool_inv 32 4 4 ?s0 {}" by (rule pool_init_inv [of 4 4 2]) simp_all
  from pool_grant [OF this pool_example_request pool_example_alloc]
  have inv: "pool_inv 32 4 4 (?s0\<lparr>pool_used := 16\<rparr>) {(64, 16, 4)}" by (rule conjunct1)
  have "fst (pool_try_alloc 32 4 4 (pool_release 4 4 (?s0\<lparr>pool_used := 16\<rparr>) 64 16 4) 16 4) = Some 64"
    by (rule pool_recycles [OF inv]) (simp_all add: pool_init_def)
  with inv show ?thesis unfolding Let_def by (rule conjI)
qed

end
