(* ===== verification/Block_Array.thy ===== *)
theory Block_Array
  imports Mem_Source
begin

text \<open>
  The growable array \<^verbatim>\<open>block_array_t\<close> of \<^verbatim>\<open>mem_source.hpp\<close> and the byte string \<^verbatim>\<open>bytes_t\<close>: every
  operation that may grow threads the state of the source it draws from. \<open>es\<close> and \<open>ea\<close> are
  \<^verbatim>\<open>sizeof(T)\<close> and \<^verbatim>\<open>alignof(T)\<close>. The lemmas give each operation's contract, refusal included,
  and, for every source that keeps \<open>block_source\<close>, that an array owns exactly one live block
  and returns it with the size it was granted with.
\<close>

section \<open>The array\<close>

record 'a block_array_t =
  ba_elems :: "'a list"
  ba_cap :: nat
  ba_data :: addr

type_synonym bytes_t = "byte block_array_t"

definition ba_empty :: "'a block_array_t" where
  "ba_empty = \<lparr>ba_elems = [], ba_cap = 0, ba_data = 0\<rparr>"

abbreviation ba_size :: "'a block_array_t \<Rightarrow> nat" where
  "ba_size a \<equiv> length (ba_elems a)"

definition ba_release_block :: "'m source_ops \<Rightarrow> nat \<Rightarrow> nat \<Rightarrow> 'a block_array_t \<Rightarrow> 'm \<Rightarrow> 'm" where
  "ba_release_block src es ea a m =
     (if ba_data a \<noteq> 0 then release src m (ba_data a) (ba_cap a * es) ea else m)"

definition ba_next_capacity :: "'a block_array_t \<Rightarrow> nat" where
  "ba_next_capacity a = (if ba_cap a < 4 then 8 else ba_cap a * 2)"

definition ba_regrow ::
  "'m source_ops \<Rightarrow> nat \<Rightarrow> nat \<Rightarrow> nat \<Rightarrow> 'a block_array_t \<Rightarrow> 'm \<Rightarrow> bool \<times> 'a block_array_t \<times> 'm" where
  "ba_regrow src es ea want a m =
     (case try_alloc src m (want * es) ea of
        (None, m') \<Rightarrow> (False, a, m')
      | (Some fresh, m') \<Rightarrow> (True, a\<lparr>ba_data := fresh, ba_cap := want\<rparr>, ba_release_block src es ea a m'))"

definition ba_reserve ::
  "'m source_ops \<Rightarrow> nat \<Rightarrow> nat \<Rightarrow> nat \<Rightarrow> 'a block_array_t \<Rightarrow> 'm \<Rightarrow> bool \<times> 'a block_array_t \<times> 'm" where
  "ba_reserve src es ea n a m = (if n \<le> ba_cap a then (True, a, m) else ba_regrow src es ea n a m)"

text \<open>\<open>push_slot\<close> followed by the caller's stores into the slot is a push of the stored value.\<close>

definition ba_push_back ::
  "'m source_ops \<Rightarrow> nat \<Rightarrow> nat \<Rightarrow> 'a \<Rightarrow> 'a block_array_t \<Rightarrow> 'm \<Rightarrow> bool \<times> 'a block_array_t \<times> 'm" where
  "ba_push_back src es ea v a m =
     (let (ok, a', m') = (if ba_size a = ba_cap a then ba_regrow src es ea (ba_next_capacity a) a m else (True, a, m))
      in if \<not> ok then (False, a', m') else (True, a'\<lparr>ba_elems := ba_elems a' @ [v]\<rparr>, m'))"

definition ba_append ::
  "'m source_ops \<Rightarrow> nat \<Rightarrow> nat \<Rightarrow> 'a list \<Rightarrow> 'a block_array_t \<Rightarrow> 'm \<Rightarrow> bool \<times> 'a block_array_t \<times> 'm" where
  "ba_append src es ea p a m =
     (let want = ba_size a + length p;
          (ok, a', m') =
            (if length p > ba_cap a - ba_size a
             then ba_regrow src es ea (if want > ba_next_capacity a then want else ba_next_capacity a) a m
             else (True, a, m))
      in if \<not> ok then (False, a', m') else (True, a'\<lparr>ba_elems := ba_elems a' @ p\<rparr>, m'))"

text \<open>Insertion at an index, growing or not.\<close>

definition ba_emplace_at ::
  "'m source_ops \<Rightarrow> nat \<Rightarrow> nat \<Rightarrow> nat \<Rightarrow> 'a \<Rightarrow> 'a block_array_t \<Rightarrow> 'm \<Rightarrow> bool \<times> 'a block_array_t \<times> 'm" where
  "ba_emplace_at src es ea i v a m =
     (if ba_size a = ba_cap a then
        (case ba_regrow src es ea (ba_next_capacity a) a m of
           (False, a', m') \<Rightarrow> (False, a', m')
         | (True, a', m') \<Rightarrow> (True, a'\<lparr>ba_elems := take i (ba_elems a) @ v # drop i (ba_elems a)\<rparr>, m'))
      else (True, a\<lparr>ba_elems := take i (ba_elems a) @ v # drop i (ba_elems a)\<rparr>, m))"

definition ba_pop_back :: "'a block_array_t \<Rightarrow> 'a block_array_t" where
  "ba_pop_back a = a\<lparr>ba_elems := butlast (ba_elems a)\<rparr>"

definition ba_erase_at :: "nat \<Rightarrow> nat \<Rightarrow> 'a block_array_t \<Rightarrow> 'a block_array_t" where
  "ba_erase_at i n a = a\<lparr>ba_elems := take i (ba_elems a) @ drop (i + n) (ba_elems a)\<rparr>"

definition ba_erase_front :: "nat \<Rightarrow> 'a block_array_t \<Rightarrow> 'a block_array_t" where
  "ba_erase_front n a = a\<lparr>ba_elems := drop n (ba_elems a)\<rparr>"

definition ba_clear :: "'a block_array_t \<Rightarrow> 'a block_array_t" where
  "ba_clear a = a\<lparr>ba_elems := []\<rparr>"

definition ba_destroy :: "'m source_ops \<Rightarrow> nat \<Rightarrow> nat \<Rightarrow> 'a block_array_t \<Rightarrow> 'm \<Rightarrow> 'm" where
  "ba_destroy src es ea a m = ba_release_block src es ea a m"

text \<open>Byte strings: one byte per element.\<close>

abbreviation bytes_append :: "'m source_ops \<Rightarrow> bytes \<Rightarrow> bytes_t \<Rightarrow> 'm \<Rightarrow> bool \<times> bytes_t \<times> 'm" where
  "bytes_append src \<equiv> ba_append src 1 1"

abbreviation bytes_reserve :: "'m source_ops \<Rightarrow> nat \<Rightarrow> bytes_t \<Rightarrow> 'm \<Rightarrow> bool \<times> bytes_t \<times> 'm" where
  "bytes_reserve src \<equiv> ba_reserve src 1 1"

definition assign_bytes :: "'m source_ops \<Rightarrow> bytes \<Rightarrow> bytes_t \<Rightarrow> 'm \<Rightarrow> bool \<times> bytes_t \<times> 'm" where
  "assign_bytes src b out m =
     (case bytes_reserve src (length b) out m of
        (False, out', m') \<Rightarrow> (False, out', m')
      | (True, out', m') \<Rightarrow> bytes_append src b (ba_clear out') m')"

section \<open>Contracts of the operations\<close>

definition ba_ok :: "'a block_array_t \<Rightarrow> bool" where
  "ba_ok a \<longleftrightarrow> ba_size a \<le> ba_cap a \<and> (ba_data a = 0 \<longrightarrow> ba_cap a = 0)"

named_theorems array_simps \<open>array operations inside the reserved capacity\<close>

lemma ba_ok_empty [simp]: "ba_ok ba_empty"
  by (simp add: ba_ok_def ba_empty_def)

lemma ba_regrow_elems:
  "ba_regrow src es ea want a m = (ok, a', m') \<Longrightarrow> ba_elems a' = ba_elems a \<and> (\<not> ok \<longrightarrow> a' = a) \<and> (ok \<longrightarrow> ba_cap a' = want)"
  by (auto simp: ba_regrow_def split: prod.splits option.splits)

lemma ba_reserve_spec:
  "ba_reserve src es ea n a m = (ok, a', m') \<Longrightarrow>
     ba_elems a' = ba_elems a \<and> (\<not> ok \<longrightarrow> a' = a) \<and> (ok \<longrightarrow> n \<le> ba_cap a' \<and> ba_cap a \<le> ba_cap a')"
  by (auto simp: ba_reserve_def split: if_splits dest!: ba_regrow_elems)

lemma ba_append_room [array_simps]:
  "ba_size a + length p \<le> ba_cap a \<Longrightarrow> ba_append src es ea p a m = (True, a\<lparr>ba_elems := ba_elems a @ p\<rparr>, m)"
proof -
  assume "ba_size a + length p \<le> ba_cap a"
  then have "\<not> length p > ba_cap a - ba_size a" by linarith
  then show ?thesis by (simp add: ba_append_def Let_def)
qed

lemma ba_append_spec:
  "ba_append src es ea p a m = (ok, a', m') \<Longrightarrow>
     (\<not> ok \<longrightarrow> a' = a) \<and> (ok \<longrightarrow> ba_elems a' = ba_elems a @ p)"
  by (auto simp: ba_append_def Let_def split: if_splits prod.splits dest!: ba_regrow_elems)

lemma ba_push_back_spec:
  "ba_push_back src es ea v a m = (ok, a', m') \<Longrightarrow>
     (\<not> ok \<longrightarrow> a' = a) \<and> (ok \<longrightarrow> ba_elems a' = ba_elems a @ [v])"
  by (auto simp: ba_push_back_def Let_def split: if_splits prod.splits dest!: ba_regrow_elems)

lemma assign_bytes_spec:
  assumes "assign_bytes src b out m = (ok, out', m')"
  shows "(\<not> ok \<longrightarrow> out' = out) \<and> (ok \<longrightarrow> ba_elems out' = b)"
proof -
  obtain k o1 m1 where r: "bytes_reserve src (length b) out m = (k, o1, m1)" by (metis prod_cases3)
  then show ?thesis
    using assms ba_reserve_spec [OF r] by (cases k) (auto simp: assign_bytes_def ba_clear_def array_simps)
qed

lemma ba_emplace_at_spec:
  "ba_emplace_at src es ea i v a m = (ok, a', m') \<Longrightarrow>
     (\<not> ok \<longrightarrow> a' = a) \<and> (ok \<longrightarrow> ba_elems a' = take i (ba_elems a) @ v # drop i (ba_elems a))"
  by (auto simp: ba_emplace_at_def split: if_splits prod.splits bool.splits dest!: ba_regrow_elems)

section \<open>Ownership\<close>

text \<open>The block an array owns, as the source knows it.\<close>

definition ba_block :: "nat \<Rightarrow> nat \<Rightarrow> 'a block_array_t \<Rightarrow> block set" where
  "ba_block es ea a = (if ba_data a = 0 then {} else {(ba_data a, ba_cap a * es, ea)})"

lemma ba_block_elems [simp]: "ba_block es ea (a\<lparr>ba_elems := xs\<rparr>) = ba_block es ea a"
  by (simp add: ba_block_def)

lemma ba_block_empty [simp]: "ba_block es ea ba_empty = {}"
  by (simp add: ba_block_def ba_empty_def)

lemma ba_next_capacity_pos: "0 < ba_next_capacity a"
  by (simp add: ba_next_capacity_def)

lemma request_ok_scale: "request_ok w es ea \<Longrightarrow> 0 < n \<Longrightarrow> request_ok w (n * es) ea"
  by (simp add: request_ok_def)

context block_source
begin

lemma release_block_owned:
  "inv m L \<Longrightarrow> ba_block es ea a \<subseteq> L \<Longrightarrow> inv (ba_release_block ops es ea a m) (L - ba_block es ea a)"
  using release_live [of m L] by (auto simp: ba_block_def ba_release_block_def)

text \<open>Growth trades the old block for a fresh one; a refusal trades nothing.\<close>

lemma regrow_owned:
  assumes inv: "inv m L" and own: "ba_block es ea a \<subseteq> L" and el: "request_ok w es ea" and want: "0 < want"
    and r: "ba_regrow ops es ea want a m = (ok, a', m')"
  shows "inv m' (L - ba_block es ea a \<union> ba_block es ea a') \<and> (L - ba_block es ea a) \<inter> ba_block es ea a' = {}"
proof -
  note req = request_ok_scale [OF el want]
  obtain p m1 where alloc: "try_alloc ops m (want * es) ea = (p, m1)" by fastforce
  show ?thesis
  proof (cases p)
    case None
    then have "inv m' L" "a' = a" using alloc_refuse [OF inv req] r alloc by (auto simp: ba_regrow_def)
    with own show ?thesis by (simp add: Un_absorb2 Un_commute inf_commute)
  next
    case (Some fresh)
    let ?new = "(fresh, want * es, ea)"
    have g: "inv m1 (insert ?new L)" "?new \<notin> L" "fresh \<noteq> 0"
      using alloc_grant [OF inv req] alloc Some by auto
    have a': "ba_block es ea a' = {?new}" and m': "m' = ba_release_block ops es ea a m1"
      using r alloc Some g(3) by (auto simp: ba_regrow_def ba_block_def)
    have "inv m' (insert ?new L - ba_block es ea a)"
      unfolding m' using own by (intro release_block_owned [OF g(1)]) blast
    moreover have "insert ?new L - ba_block es ea a = L - ba_block es ea a \<union> ba_block es ea a'"
      using g(2) own a' by auto
    ultimately show ?thesis using g(2) a' by simp
  qed
qed

lemma keep_owned:
  "inv m L \<Longrightarrow> ba_block es ea a \<subseteq> L \<Longrightarrow> inv m (L - ba_block es ea a \<union> ba_block es ea a) \<and> (L - ba_block es ea a) \<inter> ba_block es ea a = {}"
  by (simp add: Un_absorb2 Un_commute inf_commute)

lemma reserve_owned:
  assumes "inv m L" and "ba_block es ea a \<subseteq> L" and "request_ok w es ea"
    and "ba_reserve ops es ea n a m = (ok, a', m')"
  shows "inv m' (L - ba_block es ea a \<union> ba_block es ea a') \<and> (L - ba_block es ea a) \<inter> ba_block es ea a' = {}"
proof (cases "n \<le> ba_cap a")
  case True
  then show ?thesis using assms(4) keep_owned [OF assms(1,2)] by (simp add: ba_reserve_def)
next
  case False
  then have "0 < n" by simp
  from regrow_owned [OF assms(1-3) this] show ?thesis using assms(4) False by (simp add: ba_reserve_def)
qed

lemma append_owned:
  assumes "inv m L" and "ba_block es ea a \<subseteq> L" and "request_ok w es ea"
    and "ba_append ops es ea p a m = (ok, a', m')"
  shows "inv m' (L - ba_block es ea a \<union> ba_block es ea a') \<and> (L - ba_block es ea a) \<inter> ba_block es ea a' = {}"
proof (cases "length p > ba_cap a - ba_size a")
  case False
  then show ?thesis using assms(4) keep_owned [OF assms(1,2)] by (auto simp: ba_append_def Let_def)
next
  case True
  let ?want = "if ba_size a + length p > ba_next_capacity a then ba_size a + length p else ba_next_capacity a"
  obtain k a1 m1 where r: "ba_regrow ops es ea ?want a m = (k, a1, m1)" by (metis prod_cases3)
  have "0 < ?want" using ba_next_capacity_pos [of a] by (auto split: if_splits)
  from regrow_owned [OF assms(1-3) this r] show ?thesis
    using assms(4) True r by (auto simp: ba_append_def Let_def split: if_splits)
qed

lemma push_back_owned:
  assumes "inv m L" and "ba_block es ea a \<subseteq> L" and "request_ok w es ea"
    and "ba_push_back ops es ea v a m = (ok, a', m')"
  shows "inv m' (L - ba_block es ea a \<union> ba_block es ea a') \<and> (L - ba_block es ea a) \<inter> ba_block es ea a' = {}"
proof (cases "ba_size a = ba_cap a")
  case False
  then show ?thesis using assms(4) keep_owned [OF assms(1,2)] by (auto simp: ba_push_back_def Let_def)
next
  case True
  obtain k a1 m1 where r: "ba_regrow ops es ea (ba_next_capacity a) a m = (k, a1, m1)" by (metis prod_cases3)
  from regrow_owned [OF assms(1-3) ba_next_capacity_pos r] show ?thesis
    using assms(4) True r by (auto simp: ba_push_back_def Let_def split: if_splits)
qed

text \<open>Destroying an array returns its block, and nothing of the array stays live.\<close>

lemma destroy_owned:
  "inv m L \<Longrightarrow> ba_block es ea a \<subseteq> L \<Longrightarrow> inv (ba_destroy ops es ea a m) (L - ba_block es ea a)"
  by (simp add: ba_destroy_def release_block_owned)

end

end
