(* ===== verification/Tlv.thy ===== *)
theory Tlv
  imports Byteorder
begin

text \<open>
  The vocabulary of the wire format: the error registry of \<^verbatim>\<open>error.hpp\<close>, the type codes and
  the \<^verbatim>\<open>opt\<close> bitfield of \<^verbatim>\<open>tlv.hpp\<close>, the PAIR of \<^verbatim>\<open>pair.hpp\<close>, the fixed-stride body rule of
  \<^verbatim>\<open>path_ref.hpp\<close> and the values of \<^verbatim>\<open>frame.hpp\<close> (trailer, timestamp, the tree a caller builds).
\<close>

unbundle bit_operations_syntax

section \<open>The error registry\<close>

datatype err_t =
    FRAME_TRUNCATED | FRAME_INVALID | FRAME_CRC_FAIL | TLV_NESTING_TOO_DEEP
  | PATH_NOT_FOUND | PATH_INVALID | PATH_IN_USE | SCHEMA_TYPE_MISMATCH | SCHEMA_NOT_FOUND
  | FLOW_BACKPRESSURE | FLOW_TIMEOUT | FLOW_ADDRESS_SHIFT_GAP | ACCESS_DENIED
  | TRANSPORT_DOWN | VERSION_MISMATCH

datatype err_severity_t = WARN | ERROR_SEV | CRITICAL
datatype err_disposition_t = TRANSIENT | PERMANENT | FATAL

primrec err_code :: "err_t \<Rightarrow> 16 word" where
  "err_code FRAME_TRUNCATED = 0x0001"
| "err_code FRAME_INVALID = 0x0002"
| "err_code FRAME_CRC_FAIL = 0x0003"
| "err_code TLV_NESTING_TOO_DEEP = 0x0010"
| "err_code PATH_NOT_FOUND = 0x0020"
| "err_code PATH_INVALID = 0x0021"
| "err_code PATH_IN_USE = 0x0022"
| "err_code SCHEMA_TYPE_MISMATCH = 0x0030"
| "err_code SCHEMA_NOT_FOUND = 0x0031"
| "err_code FLOW_BACKPRESSURE = 0x0040"
| "err_code FLOW_TIMEOUT = 0x0041"
| "err_code FLOW_ADDRESS_SHIFT_GAP = 0x0042"
| "err_code ACCESS_DENIED = 0x0050"
| "err_code TRANSPORT_DOWN = 0x0060"
| "err_code VERSION_MISMATCH = 0x0070"

primrec err_path :: "err_t \<Rightarrow> string" where
  "err_path FRAME_TRUNCATED = ''tr::frame::truncated''"
| "err_path FRAME_INVALID = ''tr::frame::invalid''"
| "err_path FRAME_CRC_FAIL = ''tr::frame::crc_fail''"
| "err_path TLV_NESTING_TOO_DEEP = ''tr::tlv::nesting_too_deep''"
| "err_path PATH_NOT_FOUND = ''tr::path::not_found''"
| "err_path PATH_INVALID = ''tr::path::invalid''"
| "err_path PATH_IN_USE = ''tr::path::in_use''"
| "err_path SCHEMA_TYPE_MISMATCH = ''tr::schema::type_mismatch''"
| "err_path SCHEMA_NOT_FOUND = ''tr::schema::not_found''"
| "err_path FLOW_BACKPRESSURE = ''tr::flow::backpressure''"
| "err_path FLOW_TIMEOUT = ''tr::flow::timeout''"
| "err_path FLOW_ADDRESS_SHIFT_GAP = ''tr::flow::address_shift_gap''"
| "err_path ACCESS_DENIED = ''tr::access::denied''"
| "err_path TRANSPORT_DOWN = ''tr::transport::down''"
| "err_path VERSION_MISMATCH = ''tr::version::mismatch''"

definition err_severity :: "err_t \<Rightarrow> err_severity_t" where
  "err_severity e =
     (if e \<in> {PATH_NOT_FOUND, PATH_INVALID, PATH_IN_USE, SCHEMA_NOT_FOUND, FLOW_BACKPRESSURE, FLOW_TIMEOUT}
      then WARN
      else if e = VERSION_MISMATCH then CRITICAL
      else ERROR_SEV)"

definition err_disposition :: "err_t \<Rightarrow> err_disposition_t" where
  "err_disposition e =
     (if e \<in> {FRAME_TRUNCATED, FRAME_CRC_FAIL, FLOW_BACKPRESSURE, FLOW_TIMEOUT, TRANSPORT_DOWN}
      then TRANSIENT
      else if e = VERSION_MISMATCH then FATAL
      else PERMANENT)"

section \<open>Type codes\<close>

text \<open>
  \<^verbatim>\<open>type_t\<close> is an enumeration over \<^verbatim>\<open>std::uint8_t\<close> whose values the codec takes from the wire
  unchecked, so every byte is a value of the type and the enumerators are constants of it.
\<close>

type_synonym type_t = byte

abbreviation VALUE :: type_t where "VALUE \<equiv> 0x01"
abbreviation NAME :: type_t where "NAME \<equiv> 0x02"
abbreviation DESCRIPTION :: type_t where "DESCRIPTION \<equiv> 0x03"
abbreviation SUBSCRIBER :: type_t where "SUBSCRIBER \<equiv> 0x04"
abbreviation PATH :: type_t where "PATH \<equiv> 0x06"
abbreviation POINT :: type_t where "POINT \<equiv> 0x07"
abbreviation ERROR_T :: type_t where "ERROR_T \<equiv> 0x08"
abbreviation STATUS :: type_t where "STATUS \<equiv> 0x09"
abbreviation ACL :: type_t where "ACL \<equiv> 0x0A"
abbreviation SETTINGS :: type_t where "SETTINGS \<equiv> 0x0B"
abbreviation TIME :: type_t where "TIME \<equiv> 0x0C"
abbreviation ROUTER :: type_t where "ROUTER \<equiv> 0x0D"
abbreviation SPEC :: type_t where "SPEC \<equiv> 0x0E"
abbreviation FWD :: type_t where "FWD \<equiv> 0x0F"
abbreviation FIELD :: type_t where "FIELD \<equiv> 0x10"
abbreviation PATH_REF :: type_t where "PATH_REF \<equiv> 0x14"
abbreviation PATH_REF_REVERSE :: type_t where "PATH_REF_REVERSE \<equiv> 0x15"
abbreviation BATCH :: type_t where "BATCH \<equiv> 0x80"

definition is_path_ref_type :: "type_t \<Rightarrow> bool" where
  "is_path_ref_type t \<longleftrightarrow> t = PATH_REF"

section \<open>The option bits\<close>

record opt_t =
  opt_pl :: bool
  opt_ts :: bool
  opt_cr :: bool
  opt_ll :: bool
  opt_cw :: bool
  opt_tf :: bool

definition opt_zero :: opt_t where
  "opt_zero = \<lparr>opt_pl = False, opt_ts = False, opt_cr = False, opt_ll = False, opt_cw = False, opt_tf = False\<rparr>"

definition reserved_set :: "byte \<Rightarrow> bool" where
  "reserved_set b \<longleftrightarrow> b AND 0x81 \<noteq> 0"

definition opt_decode :: "byte \<Rightarrow> opt_t" where
  "opt_decode b =
     \<lparr>opt_pl = (b AND 0x40 \<noteq> 0), opt_ts = (b AND 0x20 \<noteq> 0), opt_cr = (b AND 0x10 \<noteq> 0),
      opt_ll = (b AND 0x08 \<noteq> 0), opt_cw = (b AND 0x04 \<noteq> 0), opt_tf = (b AND 0x02 \<noteq> 0)\<rparr>"

definition opt_encode :: "opt_t \<Rightarrow> byte" where
  "opt_encode o' =
     (if opt_pl o' then 0x40 else 0) OR (if opt_ts o' then 0x20 else 0) OR
     (if opt_cr o' then 0x10 else 0) OR (if opt_ll o' then 0x08 else 0) OR
     (if opt_cw o' then 0x04 else 0) OR (if opt_tf o' then 0x02 else 0)"

definition without_trailer :: "opt_t \<Rightarrow> opt_t" where
  "without_trailer o' = o'\<lparr>opt_ts := False, opt_cr := False, opt_cw := False, opt_tf := False\<rparr>"

lemma opt_decode_encode [simp]: "opt_decode (opt_encode o') = o'"
  by (cases o') (simp add: opt_decode_def opt_encode_def)

lemma reserved_set_encode [simp]: "\<not> reserved_set (opt_encode o')"
  by (simp add: reserved_set_def opt_encode_def)

lemma opt_decode_bits:
  "opt_decode b = \<lparr>opt_pl = bit b 6, opt_ts = bit b 5, opt_cr = bit b 4, opt_ll = bit b 3,
     opt_cw = bit b 2, opt_tf = bit b 1\<rparr>"
  using and_exp_eq_0_iff_not_bit [of b 6] and_exp_eq_0_iff_not_bit [of b 5]
    and_exp_eq_0_iff_not_bit [of b 4] and_exp_eq_0_iff_not_bit [of b 3]
    and_exp_eq_0_iff_not_bit [of b 2] and_exp_eq_0_iff_not_bit [of b 1]
  by (simp add: opt_decode_def)

lemma reserved_set_bits: "reserved_set b \<longleftrightarrow> bit b 7 \<or> bit b 0"
proof -
  have "b AND 0x81 = (b AND 2 ^ 7) OR (b AND 2 ^ 0)" by (simp add: bit.conj_disj_distrib [symmetric])
  then show ?thesis
    using and_exp_eq_0_iff_not_bit [of b 7] and_exp_eq_0_iff_not_bit [of b 0]
    by (simp add: reserved_set_def or_eq_0_iff)
qed

lemma opt_encode_decode: "\<not> reserved_set b \<Longrightarrow> opt_encode (opt_decode b) = b"
proof (rule bit_word_eqI)
  fix k assume r: "\<not> reserved_set b" and "k < LENGTH(8)"
  then have "k < 8" by simp
  then consider "k = 0" | "k = 1" | "k = 2" | "k = 3" | "k = 4" | "k = 5" | "k = 6" | "k = 7" by linarith
  then show "bit (opt_encode (opt_decode b)) k = bit b k"
    using r by cases (simp_all add: opt_decode_bits opt_encode_def reserved_set_bits bit_or_iff)
qed

section \<open>PAIRs and the element array\<close>

record pair_t =
  pair_index :: "32 word"
  pair_generation :: "32 word"

definition pair_load_le :: "bytes \<Rightarrow> pair_t" where
  "pair_load_le b = \<lparr>pair_index = load_le (subspan 0 4 b), pair_generation = load_le (subspan 4 4 b)\<rparr>"

definition pair_store_le :: "bytes \<Rightarrow> pair_t \<Rightarrow> bytes" where
  "pair_store_le out p =
     (let lo = store_le (subspan 0 4 out) (pair_index p) 4;
          hi = store_le (subspan 4 4 out) (pair_generation p) 4
      in lo @ hi @ drop 8 out)"

abbreviation kPairBytes :: nat where "kPairBytes \<equiv> 8"
abbreviation kPathRefElementBytes :: nat where "kPathRefElementBytes \<equiv> kPairBytes"
abbreviation kMaxPathRefElements :: nat where "kMaxPathRefElements \<equiv> 255"
abbreviation kMaxPathRefBodyBytes :: nat where "kMaxPathRefBodyBytes \<equiv> kMaxPathRefElements * kPathRefElementBytes"

definition path_ref_element_count :: "nat \<Rightarrow> nat" where
  "path_ref_element_count body_len = body_len div kPathRefElementBytes"

definition path_ref_body_valid :: "bool \<Rightarrow> bool \<Rightarrow> nat \<Rightarrow> bool" where
  "path_ref_body_valid pl ll body_len \<longleftrightarrow>
     \<not> pl \<and> \<not> ll \<and> body_len mod kPathRefElementBytes = 0 \<and> body_len \<le> kMaxPathRefBodyBytes"

definition path_ref_element_at :: "bytes \<Rightarrow> nat \<Rightarrow> pair_t" where
  "path_ref_element_at body i = pair_load_le (subspan (i * kPathRefElementBytes) kPathRefElementBytes body)"

text \<open>
  The peer handle is a PAIR of its own; its identity as one integer is injective.
\<close>

definition peer_handle_valid :: "pair_t \<Rightarrow> bool" where
  "peer_handle_valid h \<longleftrightarrow> pair_generation h \<noteq> 0"

definition peer_handle_bits :: "pair_t \<Rightarrow> 64 word" where
  "peer_handle_bits h = push_bit 32 (ucast (pair_generation h)) OR ucast (pair_index h)"

lemma pair_load_store:
  "8 \<le> length out \<Longrightarrow> pair_load_le (pair_store_le out p) = p"
  by (simp add: pair_load_le_def pair_store_le_def Let_def store_le_def subspan_append_at
      subspan_append_at' length_subspan load_le_store_le_same subspan_def)

end
