(* ===== verification/Emit.thy ===== *)
theory Emit
  imports Tlv Block_Array
begin

text \<open>
  The byte-level emitters of \<^verbatim>\<open>tlv_emit.hpp\<close>, in both of their spellings: into a growing
  \<^verbatim>\<open>std::vector\<close> (a byte list) and into a core byte array that may refuse. An \<^verbatim>\<open>std::int64_t\<close>
  stamp is the 64-bit word of its two's complement. The lemmas show that the two spellings write
  the same bytes and that each core-array call is all-or-nothing.
\<close>

unbundle bit_operations_syntax

section \<open>Span and vector forms\<close>

definition header_bytes :: "opt_t \<Rightarrow> nat" where
  "header_bytes opt = (if opt_ll opt then 6 else 4)"

definition length_bytes :: "opt_t \<Rightarrow> nat" where
  "length_bytes opt = (if opt_ll opt then 4 else 2)"

definition store_header :: "bytes \<Rightarrow> type_t \<Rightarrow> opt_t \<Rightarrow> nat \<Rightarrow> bytes" where
  "store_header out type opt body_len =
     type # opt_encode opt # store_le (drop 2 out) (of_nat body_len :: 32 word) (length_bytes opt)"

definition emit_header_vec :: "bytes \<Rightarrow> type_t \<Rightarrow> opt_t \<Rightarrow> nat \<Rightarrow> bytes" where
  "emit_header_vec out type opt body_len =
     append_le (out @ [type] @ [opt_encode opt]) (of_nat body_len :: 32 word) (length_bytes opt)"

definition store_trailer_ts :: "bytes \<Rightarrow> bool \<Rightarrow> 64 word \<Rightarrow> bytes" where
  "store_trailer_ts out relative ns =
     (if relative then store_le out (ucast ns :: 32 word) 4 else store_le out ns 8)"

definition trailer_ts_bytes :: "bool \<Rightarrow> nat" where
  "trailer_ts_bytes relative = (if relative then 4 else 8)"

definition emit_trailer_ts_vec :: "bytes \<Rightarrow> bool \<Rightarrow> 64 word \<Rightarrow> bytes" where
  "emit_trailer_ts_vec out relative ns =
     (let base = length out;
          grown = out @ replicate (trailer_ts_bytes relative) 0
      in take base grown @ store_trailer_ts (drop base grown) relative ns)"

definition emit_tlv_vec :: "bytes \<Rightarrow> type_t \<Rightarrow> opt_t \<Rightarrow> bytes \<Rightarrow> bytes" where
  "emit_tlv_vec out type opt0 body =
     (let opt1 = without_trailer opt0;
          opt = (if length body > 0xFFFF then opt1\<lparr>opt_ll := True\<rparr> else opt1)
      in emit_header_vec out type opt (length body) @ body)"

definition emit_name_vec :: "bytes \<Rightarrow> bytes \<Rightarrow> bytes" where
  "emit_name_vec out name = emit_tlv_vec out NAME opt_zero name"

definition emit_value_le_vec :: "bytes \<Rightarrow> 'a::len word \<Rightarrow> nat \<Rightarrow> bytes" where
  "emit_value_le_vec out value width = append_le (emit_header_vec out VALUE opt_zero width) value width"

section \<open>Core-array forms\<close>

text \<open>The local buffers \<^verbatim>\<open>std::byte h[6]\<close>, \<^verbatim>\<open>ts[8]\<close> and \<^verbatim>\<open>body[sizeof(T)]\<close> start uninitialised and are overwritten.\<close>

definition emit_header ::
  "'m source_ops \<Rightarrow> type_t \<Rightarrow> opt_t \<Rightarrow> nat \<Rightarrow> bytes_t \<Rightarrow> 'm \<Rightarrow> bool \<times> bytes_t \<times> 'm" where
  "emit_header src type opt body_len out m =
     bytes_append src (store_header (replicate (header_bytes opt) 0) type opt body_len) out m"

definition emit_trailer_ts ::
  "'m source_ops \<Rightarrow> bool \<Rightarrow> 64 word \<Rightarrow> bytes_t \<Rightarrow> 'm \<Rightarrow> bool \<times> bytes_t \<times> 'm" where
  "emit_trailer_ts src relative ns out m =
     bytes_append src (store_trailer_ts (replicate (trailer_ts_bytes relative) 0) relative ns) out m"

definition emit_tlv ::
  "'m source_ops \<Rightarrow> type_t \<Rightarrow> opt_t \<Rightarrow> bytes \<Rightarrow> bytes_t \<Rightarrow> 'm \<Rightarrow> bool \<times> bytes_t \<times> 'm" where
  "emit_tlv src type opt0 body out m =
     (let opt1 = without_trailer opt0;
          opt = (if length body > 0xFFFF then opt1\<lparr>opt_ll := True\<rparr> else opt1)
      in case bytes_reserve src (ba_size out + header_bytes opt + length body) out m of
           (False, out, m) \<Rightarrow> (False, out, m)
         | (True, out, m) \<Rightarrow>
             (case emit_header src type opt (length body) out m of
                (False, out, m) \<Rightarrow> (False, out, m)
              | (True, out, m) \<Rightarrow> bytes_append src body out m))"

definition emit_name :: "'m source_ops \<Rightarrow> bytes \<Rightarrow> bytes_t \<Rightarrow> 'm \<Rightarrow> bool \<times> bytes_t \<times> 'm" where
  "emit_name src name out m = emit_tlv src NAME opt_zero name out m"

definition emit_value_le ::
  "'m source_ops \<Rightarrow> 'a::len word \<Rightarrow> nat \<Rightarrow> bytes_t \<Rightarrow> 'm \<Rightarrow> bool \<times> bytes_t \<times> 'm" where
  "emit_value_le src value width out m =
     emit_tlv src VALUE opt_zero (store_le (replicate width 0) value width) out m"

section \<open>One byte layout\<close>

text \<open>The header and the stamp as byte strings: what every form writes.\<close>

definition header_image :: "type_t \<Rightarrow> opt_t \<Rightarrow> nat \<Rightarrow> bytes" where
  "header_image type opt body_len = type # opt_encode opt # le_bytes (of_nat body_len :: 32 word) (length_bytes opt)"

definition ts_image :: "bool \<Rightarrow> 64 word \<Rightarrow> bytes" where
  "ts_image relative ns = (if relative then le_bytes (ucast ns :: 32 word) 4 else le_bytes ns 8)"

lemma length_header_image [simp, size_simps]: "length (header_image type opt n) = header_bytes opt"
  by (simp add: header_image_def length_bytes_def header_bytes_def)

lemma length_ts_image [simp, size_simps]: "length (ts_image relative ns) = trailer_ts_bytes relative"
  by (simp add: ts_image_def trailer_ts_bytes_def)

lemma header_bytes_length: "header_bytes opt = 2 + length_bytes opt"
  by (simp add: header_bytes_def length_bytes_def)

lemma store_header_image:
  "length out = header_bytes opt \<Longrightarrow> store_header out type opt n = header_image type opt n"
  by (simp add: store_header_def header_image_def store_le_def header_bytes_length)

lemma emit_header_vec_image: "emit_header_vec out type opt n = out @ header_image type opt n"
  by (simp add: emit_header_vec_def append_le_def header_image_def)

lemma store_trailer_ts_image:
  "length out = trailer_ts_bytes relative \<Longrightarrow> store_trailer_ts out relative ns = ts_image relative ns"
  by (simp add: store_trailer_ts_def ts_image_def store_le_def trailer_ts_bytes_def)

lemma emit_trailer_ts_vec_image: "emit_trailer_ts_vec out relative ns = out @ ts_image relative ns"
  by (simp add: emit_trailer_ts_vec_def Let_def store_trailer_ts_image)

lemma emit_header_image: "emit_header src type opt n out m = bytes_append src (header_image type opt n) out m"
  by (simp add: emit_header_def store_header_image)

lemma emit_trailer_ts_image: "emit_trailer_ts src relative ns out m = bytes_append src (ts_image relative ns) out m"
  by (simp add: emit_trailer_ts_def store_trailer_ts_image)

text \<open>
  The core-array form of \<^verbatim>\<open>emit_tlv\<close> succeeds exactly when the reservation does, and then appends
  the bytes of the vector form.
\<close>

lemma emit_tlv_spec:
  assumes "emit_tlv src type opt body out m = (ok, out', m')"
  shows "(ok \<longrightarrow> ba_elems out' = emit_tlv_vec (ba_elems out) type opt body) \<and> (\<not> ok \<longrightarrow> out' = out)"
proof -
  define o1 where "o1 = without_trailer opt"
  define o2 where "o2 = (if length body > 0xFFFF then o1\<lparr>opt_ll := True\<rparr> else o1)"
  obtain k r m1 where r: "bytes_reserve src (ba_size out + header_bytes o2 + length body) out m = (k, r, m1)"
    by (metis prod_cases3)
  note res = ba_reserve_spec [OF r]
  show ?thesis
  proof (cases k)
    case False
    then show ?thesis
      using assms r res unfolding emit_tlv_def Let_def o1_def [symmetric] o2_def [symmetric] by simp
  next
    case True
    let ?r1 = "r\<lparr>ba_elems := ba_elems r @ header_image type o2 (length body)\<rparr>"
    have "emit_header src type o2 (length body) r m1 = (True, ?r1, m1)"
      unfolding emit_header_image using res True by (intro ba_append_room) simp
    moreover have "bytes_append src body ?r1 m1 = (True, ?r1\<lparr>ba_elems := ba_elems ?r1 @ body\<rparr>, m1)"
      using res True by (intro ba_append_room) simp
    ultimately have "ok \<and> out' = ?r1\<lparr>ba_elems := ba_elems ?r1 @ body\<rparr>"
      using assms r True unfolding emit_tlv_def Let_def o1_def [symmetric] o2_def [symmetric] by simp
    then show ?thesis
      using res by (simp add: emit_tlv_vec_def Let_def emit_header_vec_image o1_def o2_def)
  qed
qed

text \<open>The two spellings of an integer \<open>VALUE\<close> agree, for every width a \<^verbatim>\<open>u16\<close> length can carry.\<close>

lemma emit_value_le_vec_tlv:
  assumes "width \<le> 0xFFFF"
  shows "emit_tlv_vec out VALUE opt_zero (store_le (replicate width 0) value width) = emit_value_le_vec out value width"
  using assms by (simp add: emit_tlv_vec_def emit_value_le_vec_def Let_def append_le_def store_le_def
      without_trailer_def opt_zero_def)

end
