(* ===== verification/Grammar.thy ===== *)
theory Grammar
  imports Crc Emit
begin

text \<open>
  The header grammar of \<^verbatim>\<open>grammar.hpp\<close>: the wrap-free size bound, the byte cursors and
  \<^verbatim>\<open>parse_header\<close>. The C++ template over a cursor type is a function of a record of cursor
  operations; the locale \<open>byte_cursor\<close> states what the grammar relies on, and is proved here for
  the contiguous cursor. The reference \<open>header_of\<close> reads a header off a byte string; the main
  lemma shows that \<open>parse_header\<close> computes it over every cursor and for every width of
  \<^verbatim>\<open>std::size_t\<close> of at least 32 bits.
\<close>

unbundle bit_operations_syntax

section \<open>The size bound\<close>

text \<open>Unsigned arithmetic of a \<open>w\<close>-bit \<^verbatim>\<open>Size\<close>, wrap-around written out.\<close>

definition uadd :: "nat \<Rightarrow> nat \<Rightarrow> nat \<Rightarrow> nat" where
  "uadd w a b = (a + b) mod 2 ^ w"

definition usub :: "nat \<Rightarrow> nat \<Rightarrow> nat \<Rightarrow> nat" where
  "usub w a b = (a + (2 ^ w - b mod 2 ^ w)) mod 2 ^ w"

definition total_size_fits_narrow :: "nat \<Rightarrow> nat \<Rightarrow> nat \<Rightarrow> 32 word \<Rightarrow> nat \<Rightarrow> nat \<Rightarrow> nat option" where
  "total_size_fits_narrow w avail header len ts_size crc_size =
     (if avail < header then None else
      let room = usub w avail header in
      if unat len > room then None else
      let rest = usub w room (unat len) in
      if uadd w ts_size crc_size > rest then None else
      Some (uadd w (uadd w (uadd w header (unat len)) ts_size) crc_size))"

definition total_size_fits :: "nat \<Rightarrow> nat \<Rightarrow> nat \<Rightarrow> 32 word \<Rightarrow> nat \<Rightarrow> nat \<Rightarrow> nat option" where
  "total_size_fits w avail header len ts_size crc_size =
     (if w > 32 then
        let t = uadd w (uadd w (uadd w header (unat len)) ts_size) crc_size
        in if avail < t then None else Some t
      else total_size_fits_narrow w avail header len ts_size crc_size)"

section \<open>Cursors and headers\<close>

record 'c cursor_ops =
  cur_size :: "'c \<Rightarrow> nat"
  cur_byte_at :: "'c \<Rightarrow> nat \<Rightarrow> byte"
  cur_load_le :: "'c \<Rightarrow> nat \<Rightarrow> nat \<Rightarrow> 64 word"
  cur_region :: "'c \<Rightarrow> nat \<Rightarrow> nat \<Rightarrow> 'c"
  cur_for_each_span :: "'c \<Rightarrow> nat \<Rightarrow> nat \<Rightarrow> bytes list \<times> 'c"
  cur_poisoned :: "'c \<Rightarrow> bool"

text \<open>
  \<open>cur_for_each_span c off n\<close> is the list of the spans the callback is given and the cursor
  afterwards, whose latch the call may have set. The contiguous cursor is its span.
\<close>

definition span_cursor :: "bytes cursor_ops" where
  "span_cursor =
     \<lparr>cur_size = length,
      cur_byte_at = (\<lambda>buf off. buf ! off),
      cur_load_le = (\<lambda>buf off n. load_le (subspan off n buf)),
      cur_region = (\<lambda>buf off len. subspan off len buf),
      cur_for_each_span = (\<lambda>buf off n. ([subspan off n buf], buf)),
      cur_poisoned = (\<lambda>buf. False)\<rparr>"

datatype crc_check_t = VERIFY | DEFER

record header_t =
  h_type :: type_t
  h_opt :: opt_t
  h_header :: nat
  h_length :: nat
  h_ts_size :: nat
  h_crc_size :: nat
  h_total :: nat

definition ts_size_of :: "opt_t \<Rightarrow> nat" where
  "ts_size_of opt = (if opt_ts opt then (if opt_tf opt then 4 else 8) else 0)"

definition crc_size_of :: "opt_t \<Rightarrow> nat" where
  "crc_size_of opt = (if opt_cr opt then (if opt_cw opt then 2 else 4) else 0)"

text \<open>The trailer check: the accumulator is fed the payload and then the timestamp, chunk by chunk.\<close>

definition check_crc :: "'c cursor_ops \<Rightarrow> 'c \<Rightarrow> header_t \<Rightarrow> err_t + header_t" where
  "check_crc ops cur h =
     (let crc_off = h_header h + h_length h + h_ts_size h;
          (pay, cur1) = cur_for_each_span ops cur (h_header h) (h_length h);
          (ts, cur2) = cur_for_each_span ops cur1 (h_header h + h_length h) (h_ts_size h)
      in if opt_cw (h_opt h) then
           let crc = foldl crc16_feed (foldl crc16_feed crc16_init pay) ts in
           if crc16_value crc \<noteq> ucast (cur_load_le ops cur2 crc_off 2) then Inl FRAME_CRC_FAIL
           else if cur_poisoned ops cur2 then Inl FRAME_TRUNCATED
           else Inr h
         else
           let crc = foldl crc32c_feed (foldl crc32c_feed crc32c_init pay) ts in
           if crc32c_value crc \<noteq> ucast (cur_load_le ops cur2 crc_off 4) then Inl FRAME_CRC_FAIL
           else if cur_poisoned ops cur2 then Inl FRAME_TRUNCATED
           else Inr h)"

definition parse_header :: "nat \<Rightarrow> 'c cursor_ops \<Rightarrow> 'c \<Rightarrow> crc_check_t \<Rightarrow> err_t + header_t" where
  "parse_header w ops cur crc_policy =
     (let avail = cur_size ops cur in
      if avail < 4 then Inl FRAME_TRUNCATED else
      let type_b = cur_byte_at ops cur 0;
          opt_b = cur_byte_at ops cur 1 in
      if type_b = 0x00 then Inl FRAME_INVALID else
      if reserved_set opt_b then Inl FRAME_INVALID else
      let opt = opt_decode opt_b;
          header = (if opt_ll opt then 6 else 4) in
      if avail < header then Inl FRAME_TRUNCATED else
      let len = (ucast (cur_load_le ops cur 2 (if opt_ll opt then 4 else 2)) :: 32 word) in
      if is_path_ref_type type_b \<and> \<not> path_ref_body_valid (opt_pl opt) (opt_ll opt) (unat len) then
        Inl FRAME_INVALID else
      let ts_size = ts_size_of opt;
          crc_size = crc_size_of opt in
      case total_size_fits w avail header len ts_size crc_size of
        None \<Rightarrow> Inl FRAME_TRUNCATED
      | Some tot \<Rightarrow>
          let h = \<lparr>h_type = type_b, h_opt = opt, h_header = header, h_length = unat len,
                   h_ts_size = ts_size, h_crc_size = crc_size, h_total = tot\<rparr> in
          if opt_cr opt \<and> crc_policy = VERIFY then check_crc ops cur h else Inr h)"

section \<open>What the bound computes\<close>

lemma usub_exact: "b \<le> a \<Longrightarrow> a < 2 ^ w \<Longrightarrow> usub w a b = a - b"
proof -
  assume "b \<le> a" "a < 2 ^ w"
  define m where "m = (2 :: nat) ^ w"
  have "b < m" "a < m" using \<open>b \<le> a\<close> \<open>a < 2 ^ w\<close> by (simp_all add: m_def)
  then have "a + (m - b mod m) = (a - b) + m" using \<open>b \<le> a\<close> by simp
  then have "(a + (m - b mod m)) mod m = a - b" using \<open>a < m\<close> by simp
  then show ?thesis by (simp add: usub_def m_def)
qed

lemma uadd_exact: "a + b < 2 ^ w \<Longrightarrow> uadd w a b = a + b"
  by (simp add: uadd_def)

lemma total_size_fits_exact:
  assumes w: "32 \<le> w" and avail: "avail < 2 ^ w" and header: "header \<le> 6" and tr: "ts_size \<le> 8" "crc_size \<le> 4"
  shows "total_size_fits w avail header len ts_size crc_size =
     (if avail < header + unat len + ts_size + crc_size then None
      else Some (header + unat len + ts_size + crc_size))"
proof (cases "w > 32")
  case True
  have len: "unat len < 2 ^ 32" using unsigned_less [of len] by simp
  have "(2 :: nat) ^ 33 \<le> 2 ^ w" using True by (intro power_increasing) simp_all
  then have "header + unat len + ts_size + crc_size < 2 ^ w" using header tr len by simp
  then have "uadd w (uadd w (uadd w header (unat len)) ts_size) crc_size = header + unat len + ts_size + crc_size"
    by (simp add: uadd_exact)
  then show ?thesis using True by (simp add: total_size_fits_def)
next
  case False
  have "ts_size + crc_size < 2 ^ w"
  proof -
    have "(2 :: nat) ^ 32 \<le> 2 ^ w" using w by (intro power_increasing) simp_all
    then show ?thesis using tr by simp
  qed
  then have tr': "uadd w ts_size crc_size = ts_size + crc_size" by (rule uadd_exact)
  show ?thesis
  proof (cases "avail < header + unat len")
    case True
    then show ?thesis using False avail by (auto simp: total_size_fits_def total_size_fits_narrow_def usub_exact Let_def)
  next
    case fits: False
    then have room: "usub w avail header = avail - header" using avail by (intro usub_exact) simp_all
    have rest: "usub w (avail - header) (unat len) = avail - header - unat len"
      using avail fits by (intro usub_exact) simp_all
    have sum: "uadd w (uadd w (uadd w header (unat len)) ts_size) crc_size = header + unat len + ts_size + crc_size"
      if "header + unat len + ts_size + crc_size \<le> avail"
      using that avail by (simp add: uadd_exact)
    show ?thesis
      using False fits sum by (auto simp: total_size_fits_def total_size_fits_narrow_def Let_def room rest tr')
  qed
qed

section \<open>The reference header\<close>

text \<open>Is the trailer CRC of a header right? Payload and stamp are one contiguous run of bytes.\<close>

definition crc_holds :: "header_t \<Rightarrow> bytes \<Rightarrow> bool" where
  "crc_holds h b =
     (let covered = subspan (h_header h) (h_length h + h_ts_size h) b;
          stored = subspan (h_header h + h_length h + h_ts_size h) (h_crc_size h) b
      in if opt_cw (h_opt h) then crc16_ccitt covered = load_le stored else crc32c covered = load_le stored)"

definition header_fields :: "bytes \<Rightarrow> header_t" where
  "header_fields b =
     (let opt = opt_decode (b ! 1);
          header = header_bytes opt;
          len = unat (load_le (subspan 2 (length_bytes opt) b) :: 32 word);
          ts_size = ts_size_of opt;
          crc_size = crc_size_of opt
      in \<lparr>h_type = b ! 0, h_opt = opt, h_header = header, h_length = len,
          h_ts_size = ts_size, h_crc_size = crc_size, h_total = header + len + ts_size + crc_size\<rparr>)"

definition header_of :: "crc_check_t \<Rightarrow> bytes \<Rightarrow> err_t + header_t" where
  "header_of policy b =
     (if length b < 4 then Inl FRAME_TRUNCATED
      else let h = header_fields b in
        if h_type h = 0 \<or> reserved_set (b ! 1) then Inl FRAME_INVALID
        else if length b < h_header h then Inl FRAME_TRUNCATED
        else if is_path_ref_type (h_type h) \<and>
                \<not> path_ref_body_valid (opt_pl (h_opt h)) (opt_ll (h_opt h)) (h_length h) then Inl FRAME_INVALID
        else if length b < h_total h then Inl FRAME_TRUNCATED
        else if opt_cr (h_opt h) \<and> policy = VERIFY \<and> \<not> crc_holds h b then Inl FRAME_CRC_FAIL
        else Inr h)"

section \<open>The cursor contract\<close>

text \<open>
  What the grammar relies on of a byte source: each cursor shows a byte string, its reads are
  the reads of that string, a region shows a window of it, and a feed inside the window hands
  out chunks that concatenate to the bytes asked for and leaves the latch clear.
\<close>

locale byte_cursor =
  fixes ops :: "'c cursor_ops" and ok :: "'c \<Rightarrow> bool" and shows_bytes :: "'c \<Rightarrow> bytes"
  assumes size: "ok c \<Longrightarrow> cur_size ops c = length (shows_bytes c)"
    and byte_at: "ok c \<Longrightarrow> off < length (shows_bytes c) \<Longrightarrow> cur_byte_at ops c off = shows_bytes c ! off"
    and load: "ok c \<Longrightarrow> off + n \<le> length (shows_bytes c) \<Longrightarrow> n \<le> 8 \<Longrightarrow>
      cur_load_le ops c off n = load_le (subspan off n (shows_bytes c))"
    and region_ok: "ok c \<Longrightarrow> off + n \<le> length (shows_bytes c) \<Longrightarrow> ok (cur_region ops c off n)"
    and region: "ok c \<Longrightarrow> off + n \<le> length (shows_bytes c) \<Longrightarrow>
      shows_bytes (cur_region ops c off n) = subspan off n (shows_bytes c)"
    and feed: "ok c \<Longrightarrow> off + n \<le> length (shows_bytes c) \<Longrightarrow>
      concat (fst (cur_for_each_span ops c off n)) = subspan off n (shows_bytes c) \<and>
      snd (cur_for_each_span ops c off n) = c"
    and clean: "ok c \<Longrightarrow> \<not> cur_poisoned ops c"
begin

lemma check_crc_spec:
  assumes c: "ok c" and b: "shows_bytes c = b"
    and fits: "h_header h + h_length h + h_ts_size h + h_crc_size h \<le> length b"
    and crc: "h_crc_size h = crc_size_of (h_opt h)" "opt_cr (h_opt h)"
  shows "check_crc ops c h = (if crc_holds h b then Inr h else Inl FRAME_CRC_FAIL)"
proof -
  obtain pay where pay: "cur_for_each_span ops c (h_header h) (h_length h) = (pay, c)"
      "concat pay = subspan (h_header h) (h_length h) b"
    using feed [OF c, of "h_header h" "h_length h"] b fits by (metis add_leD1 prod.collapse)
  obtain ts where ts: "cur_for_each_span ops c (h_header h + h_length h) (h_ts_size h) = (ts, c)"
      "concat ts = subspan (h_header h + h_length h) (h_ts_size h) b"
    using feed [OF c, of "h_header h + h_length h" "h_ts_size h"] b fits by (metis add_leD1 prod.collapse)
  have covered: "concat pay @ concat ts = subspan (h_header h) (h_length h + h_ts_size h) b"
    by (simp add: pay(2) ts(2) subspan_adjacent)
  have v16: "crc16_value (foldl crc16_feed (foldl crc16_feed crc16_init pay) ts) =
      crc16_ccitt (subspan (h_header h) (h_length h + h_ts_size h) b)"
    using crc16_feeds_value [of "pay @ ts"] covered by simp
  have v32: "crc32c_value (foldl crc32c_feed (foldl crc32c_feed crc32c_init pay) ts) =
      crc32c (subspan (h_header h) (h_length h + h_ts_size h) b)"
    using crc32c_feeds_value [of "pay @ ts"] covered by simp
  have stored: "cur_load_le ops c (h_header h + h_length h + h_ts_size h) n =
      load_le (subspan (h_header h + h_length h + h_ts_size h) n b)" if "n = h_crc_size h" for n
    using load [OF c] b fits crc that by (simp add: crc_size_of_def)
  show ?thesis
  proof (cases "opt_cw (h_opt h)")
    case True
    then show ?thesis
      using crc clean [OF c] v16 stored [of 2]
      by (simp add: check_crc_def pay(1) ts(1) crc_holds_def Let_def crc_size_of_def ucast_load_le)
  next
    case False
    then show ?thesis
      using crc clean [OF c] v32 stored [of 4]
      by (simp add: check_crc_def pay(1) ts(1) crc_holds_def Let_def crc_size_of_def ucast_load_le)
  qed
qed

text \<open>The template instance at any cursor computes the reference header.\<close>

lemma parse_header_spec:
  assumes w: "32 \<le> w" and c: "ok c" and small: "length (shows_bytes c) < 2 ^ w"
  shows "parse_header w ops c policy = header_of policy (shows_bytes c)"
proof (cases "length (shows_bytes c) < 4")
  case True
  then show ?thesis by (simp add: parse_header_def header_of_def size [OF c])
next
  case four: False
  define b where "b = shows_bytes c"
  define opt where "opt = opt_decode (b ! 1)"
  define h where "h = header_fields b"
  have len4: "4 \<le> length b" using four by (simp add: b_def)
  have b01: "cur_byte_at ops c 0 = b ! 0" "cur_byte_at ops c 1 = b ! 1"
    by (rule byte_at [OF c, folded b_def]; use len4 in linarith)+
  have hb: "(if opt_ll opt then 6 else 4) = header_bytes opt" by (simp add: header_bytes_def)
  have hf: "h_type h = b ! 0" "h_opt h = opt" "h_header h = header_bytes opt"
    "h_ts_size h = ts_size_of opt" "h_crc_size h = crc_size_of opt"
    "h_length h = unat (load_le (subspan 2 (length_bytes opt) b) :: 32 word)"
    "h_total h = h_header h + h_length h + h_ts_size h + h_crc_size h"
    by (simp_all add: h_def header_fields_def opt_def Let_def)
  show ?thesis
  proof (cases "b ! 0 = 0 \<or> reserved_set (b ! 1) \<or> length b < header_bytes opt")
    case True
    then show ?thesis
      using four
      unfolding parse_header_def header_of_def Let_def size [OF c] b_def [symmetric] b01 opt_def [symmetric]
        h_def [symmetric] hf(1,3) hb
      by (cases "b ! 0 = 0"; cases "reserved_set (b ! 1)") simp_all
  next
    case False
    then have g: "b ! 0 \<noteq> 0" "\<not> reserved_set (b ! 1)" "header_bytes opt \<le> length b" by simp_all
    have ld: "(ucast (cur_load_le ops c 2 (if opt_ll opt then 4 else 2)) :: 32 word) = load_le (subspan 2 (length_bytes opt) b)"
    proof -
      have "cur_load_le ops c 2 (length_bytes opt) = load_le (subspan 2 (length_bytes opt) b)"
        using load [OF c, of 2 "length_bytes opt"] g(3) by (simp add: b_def header_bytes_length length_bytes_def)
      then show ?thesis by (simp add: length_bytes_def ucast_load_le)
    qed
    have fits: "total_size_fits w (length b) (header_bytes opt) (load_le (subspan 2 (length_bytes opt) b)) (ts_size_of opt) (crc_size_of opt) =
        (if length b < h_total h then None else Some (h_total h))"
      using small w hf by (subst total_size_fits_exact) (auto simp: b_def header_bytes_def ts_size_of_def crc_size_of_def)
    have hh: "\<lparr>h_type = b ! 0, h_opt = opt, h_header = header_bytes opt,
        h_length = h_length h,
        h_ts_size = ts_size_of opt, h_crc_size = crc_size_of opt, h_total = h_total h\<rparr> = h"
      by (rule header_t.equality) (simp_all add: hf)
    have crc: "check_crc ops c h = (if crc_holds h b then Inr h else Inl FRAME_CRC_FAIL)"
      if "h_total h \<le> length b" "opt_cr opt"
      using that hf check_crc_spec [OF c b_def [symmetric], of h] by simp
    have "parse_header w ops c policy =
       (if is_path_ref_type (b ! 0) \<and> \<not> path_ref_body_valid (opt_pl opt) (opt_ll opt) (h_length h) then Inl FRAME_INVALID
        else if length b < h_total h then Inl FRAME_TRUNCATED
        else if opt_cr opt \<and> policy = VERIFY then check_crc ops c h else Inr h)"
      using four g
      unfolding parse_header_def Let_def size [OF c] b_def [symmetric] b01 opt_def [symmetric] hb ld fits hf(6) [symmetric]
      by (simp add: hh)
    also have "\<dots> = header_of policy b"
      using four g crc unfolding header_of_def Let_def b_def [symmetric] h_def [symmetric] hf(1-3) by simp
    finally show ?thesis by (simp add: b_def)
  qed
qed

end

interpretation span_cur: byte_cursor span_cursor "\<lambda>_. True" "\<lambda>buf. buf"
  by unfold_locales (simp_all add: span_cursor_def)

section \<open>Facts of the reference header\<close>

text \<open>The sizes every header has, whatever the bytes.\<close>

definition header_sized :: "header_t \<Rightarrow> bool" where
  "header_sized h \<longleftrightarrow>
     h_header h = header_bytes (h_opt h) \<and> h_ts_size h = ts_size_of (h_opt h) \<and>
     h_crc_size h = crc_size_of (h_opt h) \<and> h_total h = h_header h + h_length h + h_ts_size h + h_crc_size h \<and>
     h_length h < 2 ^ (8 * length_bytes (h_opt h))"

lemma header_fields_sized: "header_sized (header_fields b)"
proof -
  have "unat (load_le (subspan 2 (length_bytes opt) b) :: 32 word) < 2 ^ (8 * length_bytes opt)" for opt
  proof -
    have "length (subspan 2 (length_bytes opt) b) \<le> length_bytes opt" by simp
    then have "(2 :: nat) ^ (8 * length (subspan 2 (length_bytes opt) b)) \<le> 2 ^ (8 * length_bytes opt)"
      by (intro power_increasing) auto
    moreover have "length (subspan 2 (length_bytes opt) b) \<le> LENGTH(32) div 8" by (simp add: length_bytes_def min_def)
    note unat_load_le_less [OF this]
    ultimately show ?thesis by (rule less_le_trans [rotated])
  qed
  then show ?thesis by (simp add: header_sized_def header_fields_def Let_def)
qed

lemma header_sized_bounds:
  assumes "header_sized h"
  shows "4 \<le> h_header h" and "h_header h \<le> 6" and "h_header h + h_length h \<le> h_total h"
    and "h_header h + h_length h + h_ts_size h \<le> h_total h" and "4 \<le> h_total h" and "h_total h \<le> h_header h + h_length h + 12"
  using assms by (auto simp: header_sized_def header_bytes_def ts_size_of_def crc_size_of_def)

lemma header_of_Inr_iff:
  "header_of policy b = Inr h \<longleftrightarrow>
     h = header_fields b \<and> 4 \<le> length b \<and> h_type h \<noteq> 0 \<and> \<not> reserved_set (b ! 1) \<and>
     (is_path_ref_type (h_type h) \<longrightarrow> path_ref_body_valid (opt_pl (h_opt h)) (opt_ll (h_opt h)) (h_length h)) \<and>
     h_total h \<le> length b \<and> (opt_cr (h_opt h) \<and> policy = VERIFY \<longrightarrow> crc_holds h b)"
proof -
  have "h_header (header_fields b) \<le> h_total (header_fields b)"
    using header_sized_bounds(3) [OF header_fields_sized [of b]] by simp
  then show ?thesis unfolding header_of_def Let_def by auto
qed

lemma header_of_Inr:
  assumes "header_of policy b = Inr h"
  shows "h = header_fields b" and "4 \<le> length b" and "h_type h \<noteq> 0" and "\<not> reserved_set (b ! 1)"
    and "is_path_ref_type (h_type h) \<Longrightarrow> path_ref_body_valid (opt_pl (h_opt h)) (opt_ll (h_opt h)) (h_length h)"
    and "h_total h \<le> length b" and "opt_cr (h_opt h) \<Longrightarrow> policy = VERIFY \<Longrightarrow> crc_holds h b" and "header_sized h"
  using assms header_fields_sized [of b] unfolding header_of_Inr_iff by blast+

text \<open>A header read from the wire spells the bytes it was read from.\<close>

lemma header_image_of:
  assumes "header_of policy b = Inr h"
  shows "take (h_header h) b = header_image (h_type h) (h_opt h) (h_length h)"
proof -
  note f = header_of_Inr [OF assms]
  have len: "header_bytes (h_opt h) \<le> length b"
    using f(6,8) header_sized_bounds(3) [OF f(8)] by (simp add: header_sized_def)
  obtain b0 b1 r where b: "b = b0 # b1 # r" using f(2) by (auto simp: Suc_le_length_iff numeral_eq_Suc)
  have t: "h_type h = b0" and opt: "h_opt h = opt_decode b1"
    and l: "h_length h = unat (load_le (take (length_bytes (h_opt h)) r) :: 32 word)"
    using f(1) by (simp_all add: header_fields_def Let_def b subspan_def)
  have "opt_encode (h_opt h) = b1" using f(4) opt_encode_decode by (simp add: b opt)
  moreover have "length (take (length_bytes (h_opt h)) r) = length_bytes (h_opt h)"
    using len by (simp add: b header_bytes_length)
  then have "le_bytes (of_nat (h_length h) :: 32 word) (length_bytes (h_opt h)) = take (length_bytes (h_opt h)) r"
    unfolding l by (simp add: le_bytes_load_le length_bytes_def)
  moreover have "h_header h = Suc (Suc (length_bytes (h_opt h)))"
    using f(8) by (simp add: header_sized_def header_bytes_length)
  ultimately show ?thesis by (simp add: header_image_def b t)
qed

lemma header_fields_assemble:
  assumes "n < 2 ^ (8 * length_bytes opt)"
  shows "header_fields (header_image t opt n @ rest) =
    \<lparr>h_type = t, h_opt = opt, h_header = header_bytes opt, h_length = n, h_ts_size = ts_size_of opt,
     h_crc_size = crc_size_of opt, h_total = header_bytes opt + n + ts_size_of opt + crc_size_of opt\<rparr>"
proof -
  have "subspan 2 (length_bytes opt) (header_image t opt n @ rest) = le_bytes (of_nat n :: 32 word) (length_bytes opt)"
    by (simp add: header_image_def subspan_def numeral_2_eq_2)
  moreover have "unat (load_le (le_bytes (of_nat n :: 32 word) (length_bytes opt)) :: 32 word) = n"
    using assms by (intro unat_load_le_le_bytes) (auto simp: length_bytes_def)
  ultimately show ?thesis by (simp add: header_fields_def header_image_def Let_def)
qed

text \<open>Reading back an assembled TLV.\<close>

lemma header_of_assemble:
  assumes t: "t \<noteq> 0" and n: "n = length body" "n < 2 ^ (8 * length_bytes opt)"
    and pr: "is_path_ref_type t \<Longrightarrow> path_ref_body_valid (opt_pl opt) (opt_ll opt) n"
    and ts: "length ts = ts_size_of opt" and crc: "length crc = crc_size_of opt"
    and sum: "opt_cr opt \<Longrightarrow> (if opt_cw opt then load_le crc = crc16_ccitt (body @ ts) else load_le crc = crc32c (body @ ts))"
  shows "header_of policy (header_image t opt n @ body @ ts @ crc @ rest) = Inr
    \<lparr>h_type = t, h_opt = opt, h_header = header_bytes opt, h_length = n, h_ts_size = ts_size_of opt,
     h_crc_size = crc_size_of opt, h_total = header_bytes opt + n + ts_size_of opt + crc_size_of opt\<rparr>"
    (is "_ = Inr ?h")
proof -
  let ?b = "header_image t opt n @ body @ ts @ crc @ rest"
  have hf: "header_fields ?b = ?h" using header_fields_assemble [OF n(2), of t "body @ ts @ crc @ rest"] by simp
  have b1: "?b ! 1 = opt_encode opt" by (simp add: header_image_def)
  have len: "4 \<le> length ?b" "header_bytes opt + n + ts_size_of opt + crc_size_of opt \<le> length ?b"
    using n ts crc by (simp_all add: header_bytes_def)
  have covered: "subspan (header_bytes opt) (n + ts_size_of opt) ?b = body @ ts"
    using subspan_append_at [of "header_bytes opt" "header_image t opt n" "n + ts_size_of opt" "body @ ts" "crc @ rest"] n ts by simp
  have stored: "subspan (header_bytes opt + n + ts_size_of opt) (crc_size_of opt) ?b = crc"
    using subspan_append_at [of "header_bytes opt + n + ts_size_of opt" "header_image t opt n @ body @ ts" "crc_size_of opt" crc rest]
      n ts crc by simp
  have "crc_holds ?h ?b" if "opt_cr opt"
    using sum [OF that] by (auto simp: crc_holds_def Let_def covered stored)
  then show ?thesis
    unfolding header_of_def Let_def hf b1 using len t pr by auto
qed

text \<open>A header is decided by the bytes of its own TLV.\<close>

lemma header_of_prefix:
  assumes h: "header_of policy b = Inr h" and len: "h_total h \<le> length b'" and eq: "take (h_total h) b' = take (h_total h) b"
  shows "header_of policy b' = Inr h"
proof -
  note f = header_of_Inr [OF h]
  note sz = header_sized_bounds [OF f(8)]
  have win: "subspan i k b' = subspan i k b" if "i + k \<le> h_total h" for i k
  proof -
    have "subspan i k x = subspan i k (take (h_total h) x)" for x :: bytes
      using that by (simp add: subspan_def drop_take min_def)
    then show ?thesis using eq by metis
  qed
  have nth: "b' ! i = b ! i" if "i < 4" for i
  proof -
    have "i < h_total h" using that sz(5) by simp
    then show ?thesis using eq by (metis nth_take)
  qed
  have "2 + length_bytes (h_opt h) \<le> h_total h"
    using f(8) sz(3) by (simp add: header_sized_def header_bytes_length)
  moreover have "opt_decode (b ! 1) = h_opt h" using f(1) by (simp add: header_fields_def Let_def)
  ultimately have "header_fields b' = header_fields b"
    using nth [of 0] nth [of 1] win [of 2 "length_bytes (h_opt h)"] by (simp add: header_fields_def Let_def)
  moreover have "crc_holds h b' = crc_holds h b"
  proof -
    have "subspan (h_header h) (h_length h + h_ts_size h) b' = subspan (h_header h) (h_length h + h_ts_size h) b"
      using sz(4) by (intro win) simp
    moreover have "subspan (h_header h + h_length h + h_ts_size h) (h_crc_size h) b' =
        subspan (h_header h + h_length h + h_ts_size h) (h_crc_size h) b"
      using f(8) by (intro win) (simp add: header_sized_def)
    ultimately show ?thesis by (simp only: crc_holds_def)
  qed
  moreover have "4 \<le> length b'" using len sz(5) by simp
  ultimately show ?thesis
    using h len nth [of 1] unfolding header_of_Inr_iff by auto
qed

lemma header_of_take:
  assumes "header_of policy b = Inr h" and "h_total h \<le> n"
  shows "header_of policy (take n b) = Inr h"
  using assms(1)
proof (rule header_of_prefix)
  show "h_total h \<le> length (take n b)" using header_of_Inr(6) [OF assms(1)] assms(2) by simp
  show "take (h_total h) (take n b) = take (h_total h) b" using assms(2) by (simp add: min_def)
qed

text \<open>The two policies agree on every header whose CRC holds.\<close>

lemma header_of_DEFER: "header_of VERIFY b = Inr h \<Longrightarrow> header_of DEFER b = Inr h"
  unfolding header_of_Inr_iff by auto

end
