(* ===== verification/Grammar_Walk.thy ===== *)
theory Grammar_Walk
  imports Grammar
begin

text \<open>
  The descent of \<^verbatim>\<open>grammar.hpp\<close>: the open-node stack \<^verbatim>\<open>walk_stack_t\<close> with its inline slots and its
  spill, and the iterative \<^verbatim>\<open>walk\<close> that drives a sink. The loop is a partial function; it is
  proved to return for every input, and to do exactly what a recursive descent over the bytes
  does: the reference \<open>frame_events\<close> lists the hooks the walk calls, in order, and
  \<open>parse_frame\<close> the tree they spell. Nesting too deep is decided by the stack and the source it
  spills to, and only by them.
\<close>

section \<open>The open-node stack\<close>

record 'c walk_frame_t =
  wf_body :: 'c
  wf_pos :: nat

text \<open>
  \<open>ws_frames\<close> lists the open nodes, innermost first; \<open>ws_data\<close> is the spill block while
  \<open>ws_spilled\<close>.
\<close>

record 'c walk_stack_t =
  ws_frames :: "'c walk_frame_t list"
  ws_cap :: nat
  ws_data :: addr
  ws_spilled :: bool

definition walk_stack :: "nat \<Rightarrow> 'c walk_stack_t" where
  "walk_stack inline_slots = \<lparr>ws_frames = [], ws_cap = inline_slots, ws_data = 0, ws_spilled = False\<rparr>"

text \<open>
  What a walk is run with: the width of \<^verbatim>\<open>std::size_t\<close>, the cursor, the spill source if there is
  one, the size and alignment of a stack frame, and the CRC policy.
\<close>

record ('c, 'm) walk_env =
  we_width :: nat
  we_ops :: "'c cursor_ops"
  we_spill :: "'m source_ops option"
  we_frame_size :: nat
  we_frame_align :: nat
  we_policy :: crc_check_t

definition ws_grow :: "('c, 'm) walk_env \<Rightarrow> 'd walk_stack_t \<Rightarrow> 'm \<Rightarrow> bool \<times> 'd walk_stack_t \<times> 'm" where
  "ws_grow env st m =
     (case we_spill env of
        None \<Rightarrow> (False, st, m)
      | Some src \<Rightarrow>
          let new_cap = (if ws_cap st < 4 then 8 else ws_cap st * 2) in
          (case try_alloc src m (new_cap * we_frame_size env) (we_frame_align env) of
             (None, m') \<Rightarrow> (False, st, m')
           | (Some fresh, m') \<Rightarrow>
               let m'' = (if ws_spilled st
                          then release src m' (ws_data st) (ws_cap st * we_frame_size env) (we_frame_align env)
                          else m')
               in (True, st\<lparr>ws_data := fresh, ws_cap := new_cap, ws_spilled := True\<rparr>, m'')))"

definition ws_push :: "('c, 'm) walk_env \<Rightarrow> 'd walk_frame_t \<Rightarrow> 'd walk_stack_t \<Rightarrow> 'm \<Rightarrow> bool \<times> 'd walk_stack_t \<times> 'm" where
  "ws_push env f st m =
     (let (ok, st', m') = (if length (ws_frames st) = ws_cap st then ws_grow env st m else (True, st, m))
      in if \<not> ok then (False, st', m') else (True, st'\<lparr>ws_frames := f # ws_frames st'\<rparr>, m'))"

definition ws_pop :: "'d walk_stack_t \<Rightarrow> 'd walk_stack_t" where
  "ws_pop st = st\<lparr>ws_frames := tl (ws_frames st)\<rparr>"

definition ws_destroy :: "('c, 'm) walk_env \<Rightarrow> 'd walk_stack_t \<Rightarrow> 'm \<Rightarrow> 'm" where
  "ws_destroy env st m =
     (case we_spill env of
        None \<Rightarrow> m
      | Some src \<Rightarrow>
          if ws_spilled st then release src m (ws_data st) (ws_cap st * we_frame_size env) (we_frame_align env) else m)"

section \<open>The walk\<close>

text \<open>A sink acts on its own state and on the source it may share with the stack.\<close>

record ('c, 's, 'm) sink_ops =
  on_open :: "header_t \<Rightarrow> 'c \<Rightarrow> 's \<times> 'm \<Rightarrow> 's \<times> 'm"
  on_leaf :: "header_t \<Rightarrow> 'c \<Rightarrow> 's \<times> 'm \<Rightarrow> 's \<times> 'm"
  on_close :: "'s \<times> 'm \<Rightarrow> 's \<times> 'm"

type_synonym ('c, 's, 'm) walk_result = "err_t option \<times> 'c walk_stack_t \<times> ('s \<times> 'm)"

partial_function (option) walk_loop ::
  "('c, 'm) walk_env \<Rightarrow> ('c, 's, 'm) sink_ops \<Rightarrow> 'c walk_stack_t \<Rightarrow> 's \<times> 'm \<Rightarrow> ('c, 's, 'm) walk_result option" where
  "walk_loop env sink st sm =
     (case ws_frames st of
        [] \<Rightarrow> Some (None, st, sm)
      | fr # below \<Rightarrow>
          let body = wf_body fr; pos = wf_pos fr; ops = we_ops env in
          if pos = cur_size ops body then walk_loop env sink (ws_pop st) (on_close sink sm)
          else
            (case parse_header (we_width env) ops (cur_region ops body pos (cur_size ops body - pos)) (we_policy env) of
               Inl e \<Rightarrow> Some (Some e, st, sm)
             | Inr ch \<Rightarrow>
                 let node = cur_region ops body pos (h_total ch);
                     st1 = st\<lparr>ws_frames := fr\<lparr>wf_pos := pos + h_total ch\<rparr> # below\<rparr>
                 in if opt_pl (h_opt ch) then
                      let sm1 = on_open sink ch node sm in
                      (case ws_push env \<lparr>wf_body = cur_region ops node (h_header ch) (h_length ch), wf_pos = 0\<rparr> st1 (snd sm1) of
                         (pushed, st2, m2) \<Rightarrow>
                           if \<not> pushed then Some (Some TLV_NESTING_TOO_DEEP, st2, (fst sm1, m2))
                           else walk_loop env sink st2 (fst sm1, m2))
                    else walk_loop env sink st1 (on_leaf sink ch node sm)))"

definition walk ::
  "('c, 'm) walk_env \<Rightarrow> ('c, 's, 'm) sink_ops \<Rightarrow> 'c \<Rightarrow> 'c walk_stack_t \<Rightarrow> 's \<times> 'm \<Rightarrow> ('c, 's, 'm) walk_result option" where
  "walk env sink root st sm =
     (let ops = we_ops env in
      case parse_header (we_width env) ops root (we_policy env) of
        Inl e \<Rightarrow> Some (Some e, st, sm)
      | Inr rh \<Rightarrow>
          if h_total rh \<noteq> cur_size ops root then Some (Some FRAME_INVALID, st, sm)
          else if \<not> opt_pl (h_opt rh) then Some (None, st, on_leaf sink rh root sm)
          else
            let sm1 = on_open sink rh root sm in
            (case ws_push env \<lparr>wf_body = cur_region ops root (h_header rh) (h_length rh), wf_pos = 0\<rparr> st (snd sm1) of
               (pushed, st2, m2) \<Rightarrow>
                 if \<not> pushed then Some (Some TLV_NESTING_TOO_DEEP, st2, (fst sm1, m2))
                 else walk_loop env sink st2 (fst sm1, m2)))"

section \<open>The recursive reference\<close>

datatype event = Ev_open header_t bytes | Ev_leaf header_t bytes | Ev_close

datatype tlv_tree = Tree (tree_header: header_t) (tree_bytes: bytes) (tree_children: "tlv_tree list")

lemma forest_body_shorter:
  "header_of policy b = Inr h \<Longrightarrow> length (subspan (h_header h) (h_length h) b) < length b"
  using header_of_Inr(2,6,8) [of policy b h] header_sized_bounds(1,3) [of h] by (auto simp: min_def)

lemma forest_rest_shorter:
  "header_of policy b = Inr h \<Longrightarrow> length (drop (h_total h) b) < length b"
  using header_of_Inr(2,6,8) [of policy b h] header_sized_bounds(5) [of h] by auto

lemma forest_parts_shorter:
  assumes "header_of policy b = Inr h"
  shows "length (subspan (h_header h) (h_length h) b) + length (drop (h_total h) b) + 1 < length b"
proof -
  note f = header_of_Inr [OF assms]
  have "length (subspan (h_header h) (h_length h) b) \<le> h_length h" by simp
  then show ?thesis using header_sized_bounds(1,3) [OF f(8)] f(6) by (simp del: length_subspan)
qed

text \<open>The hooks of a run of sibling TLVs, in order, up to the first error.\<close>

function forest_events :: "crc_check_t \<Rightarrow> bytes \<Rightarrow> event list \<times> err_t option" where
  "forest_events policy b =
     (if b = [] then ([], None)
      else case header_of policy b of
        Inl e \<Rightarrow> ([], Some e)
      | Inr h \<Rightarrow>
          let node = take (h_total h) b in
          if opt_pl (h_opt h) then
            (case forest_events policy (subspan (h_header h) (h_length h) b) of
               (es, Some e) \<Rightarrow> (Ev_open h node # es, Some e)
             | (es, None) \<Rightarrow>
                 let (es', r) = forest_events policy (drop (h_total h) b)
                 in (Ev_open h node # es @ Ev_close # es', r))
          else
            let (es', r) = forest_events policy (drop (h_total h) b)
            in (Ev_leaf h node # es', r))"
  by pat_completeness auto
termination
  by (relation "measure (\<lambda>(policy, b). length b)") (simp_all add: forest_body_shorter forest_rest_shorter del: length_subspan length_drop)

declare forest_events.simps [simp del]

text \<open>The trees of a run of sibling TLVs, and of a whole frame.\<close>

function parse_forest :: "crc_check_t \<Rightarrow> bytes \<Rightarrow> err_t + tlv_tree list" where
  "parse_forest policy b =
     (if b = [] then Inr []
      else case header_of policy b of
        Inl e \<Rightarrow> Inl e
      | Inr h \<Rightarrow>
          (case (if opt_pl (h_opt h) then parse_forest policy (subspan (h_header h) (h_length h) b) else Inr []) of
             Inl e \<Rightarrow> Inl e
           | Inr kids \<Rightarrow>
               (case parse_forest policy (drop (h_total h) b) of
                  Inl e \<Rightarrow> Inl e
                | Inr sibs \<Rightarrow> Inr (Tree h (take (h_total h) b) kids # sibs))))"
  by pat_completeness auto
termination
  by (relation "measure (\<lambda>(policy, b). length b)") (simp_all add: forest_body_shorter forest_rest_shorter del: length_subspan length_drop)

declare parse_forest.simps [simp del]

definition parse_frame :: "crc_check_t \<Rightarrow> bytes \<Rightarrow> err_t + tlv_tree" where
  "parse_frame policy b =
     (case header_of policy b of
        Inl e \<Rightarrow> Inl e
      | Inr h \<Rightarrow>
          if h_total h \<noteq> length b then Inl FRAME_INVALID
          else
            (case (if opt_pl (h_opt h) then parse_forest policy (subspan (h_header h) (h_length h) b) else Inr []) of
               Inl e \<Rightarrow> Inl e
             | Inr kids \<Rightarrow> Inr (Tree h b kids)))"

text \<open>What is left to do when the open nodes have these bytes left, innermost first.\<close>

primrec rem_events :: "crc_check_t \<Rightarrow> bytes list \<Rightarrow> event list \<times> err_t option" where
  "rem_events policy [] = ([], None)"
| "rem_events policy (b # bs) =
     (case forest_events policy b of
        (es, Some e) \<Rightarrow> (es, Some e)
      | (es, None) \<Rightarrow> let (es', r) = rem_events policy bs in (es @ Ev_close # es', r))"

definition frame_events :: "crc_check_t \<Rightarrow> bytes \<Rightarrow> event list \<times> err_t option" where
  "frame_events policy b =
     (case header_of policy b of
        Inl e \<Rightarrow> ([], Some e)
      | Inr h \<Rightarrow>
          if h_total h \<noteq> length b then ([], Some FRAME_INVALID)
          else if \<not> opt_pl (h_opt h) then ([Ev_leaf h b], None)
          else let (es, r) = rem_events policy [subspan (h_header h) (h_length h) b] in (Ev_open h b # es, r))"

text \<open>Performing the hooks: an open may be refused by the stack.\<close>

fun run_events ::
  "('c, 'm) walk_env \<Rightarrow> (bytes, 's, 'm) sink_ops \<Rightarrow> event list \<Rightarrow> err_t option \<Rightarrow> unit walk_stack_t \<Rightarrow> 's \<times> 'm \<Rightarrow>
   err_t option \<times> unit walk_stack_t \<times> ('s \<times> 'm)" where
  "run_events env sink [] r st sm = (r, st, sm)"
| "run_events env sink (Ev_leaf h b # es) r st sm = run_events env sink es r st (on_leaf sink h b sm)"
| "run_events env sink (Ev_open h b # es) r st sm =
     (let sm1 = on_open sink h b sm in
      case ws_push env \<lparr>wf_body = (), wf_pos = 0\<rparr> st (snd sm1) of
        (pushed, st2, m2) \<Rightarrow>
          if \<not> pushed then (Some TLV_NESTING_TOO_DEEP, st2, (fst sm1, m2))
          else run_events env sink es r st2 (fst sm1, m2))"
| "run_events env sink (Ev_close # es) r st sm = run_events env sink es r (ws_pop st) (on_close sink sm)"

section \<open>One hook at a time\<close>

lemma rem_events_close:
  "rem_events policy bs = (es, r) \<Longrightarrow> rem_events policy ([] # bs) = (Ev_close # es, r)"
  by (simp add: forest_events.simps [of policy "[]"])

lemma rem_events_error:
  "b \<noteq> [] \<Longrightarrow> header_of policy b = Inl e \<Longrightarrow> rem_events policy (b # bs) = ([], Some e)"
  by (simp add: forest_events.simps [of policy b])

lemma rem_events_leaf:
  assumes "b \<noteq> []" and "header_of policy b = Inr h" and "\<not> opt_pl (h_opt h)"
    and "rem_events policy (drop (h_total h) b # bs) = (es, r)"
  shows "rem_events policy (b # bs) = (Ev_leaf h (take (h_total h) b) # es, r)"
  using assms by (auto simp: forest_events.simps [of policy b] Let_def split: prod.splits option.splits)

lemma rem_events_open:
  assumes "b \<noteq> []" and "header_of policy b = Inr h" and "opt_pl (h_opt h)"
    and "rem_events policy (subspan (h_header h) (h_length h) b # drop (h_total h) b # bs) = (es, r)"
  shows "rem_events policy (b # bs) = (Ev_open h (take (h_total h) b) # es, r)"
  using assms by (auto simp: forest_events.simps [of policy b] Let_def split: prod.splits option.splits)

text \<open>The stack without the frames' contents: what growing and refusing depend on.\<close>

definition ws_shape :: "'d walk_stack_t \<Rightarrow> unit walk_stack_t" where
  "ws_shape st = \<lparr>ws_frames = map (\<lambda>_. \<lparr>wf_body = (), wf_pos = 0\<rparr>) (ws_frames st), ws_cap = ws_cap st,
     ws_data = ws_data st, ws_spilled = ws_spilled st\<rparr>"

lemma ws_grow_shape:
  "ws_grow env st m = (k, st', m') \<Longrightarrow> ws_grow env (ws_shape st) m = (k, ws_shape st', m') \<and> ws_frames st' = ws_frames st"
  by (auto simp: ws_grow_def ws_shape_def Let_def split: option.splits prod.splits if_splits)

lemma ws_push_shape:
  assumes "ws_push env f st m = (k, st', m')"
  shows "ws_push env \<lparr>wf_body = (), wf_pos = 0\<rparr> (ws_shape st) m = (k, ws_shape st', m') \<and>
    (k \<longrightarrow> ws_frames st' = f # ws_frames st)"
proof (cases "length (ws_frames st) = ws_cap st")
  case False
  then show ?thesis using assms by (auto simp: ws_push_def ws_shape_def)
next
  case True
  obtain g st1 m1 where g: "ws_grow env st m = (g, st1, m1)" by (metis prod_cases3)
  note gs = ws_grow_shape [OF g]
  show ?thesis
    using assms True gs g by (cases g) (auto simp: ws_push_def, auto simp: ws_shape_def)
qed

lemma ws_shape_pop: "ws_shape (ws_pop st) = ws_pop (ws_shape st)"
  by (simp add: ws_shape_def ws_pop_def map_tl)

lemma ws_shape_frames: "length fs = length (ws_frames st) \<Longrightarrow> ws_shape (st\<lparr>ws_frames := fs\<rparr>) = ws_shape st"
  by (simp add: ws_shape_def map_replicate_const)

section \<open>The walk performs the hooks of the reference\<close>

definition frame_rest :: "('c \<Rightarrow> bytes) \<Rightarrow> 'c walk_frame_t \<Rightarrow> bytes" where
  "frame_rest shows_bytes fr = drop (wf_pos fr) (shows_bytes (wf_body fr))"

definition frame_ok :: "('c \<Rightarrow> bool) \<Rightarrow> ('c \<Rightarrow> bytes) \<Rightarrow> nat \<Rightarrow> 'c walk_frame_t \<Rightarrow> bool" where
  "frame_ok ok shows_bytes w fr \<longleftrightarrow>
     ok (wf_body fr) \<and> wf_pos fr \<le> length (shows_bytes (wf_body fr)) \<and> length (shows_bytes (wf_body fr)) < 2 ^ w"

text \<open>
  A client of the walk: a cursor that keeps the cursor contract, and a sink that looks at a node
  only through the bytes it shows.
\<close>

locale walk_client = byte_cursor ops ok shows_bytes
  for ops :: "'c cursor_ops" and ok and shows_bytes +
  fixes sink :: "('c, 's, 'm) sink_ops" and bsink :: "(bytes, 's, 'm) sink_ops"
  assumes open_bytes: "ok c \<Longrightarrow> on_open sink h c sm = on_open bsink h (shows_bytes c) sm"
    and leaf_bytes: "ok c \<Longrightarrow> on_leaf sink h c sm = on_leaf bsink h (shows_bytes c) sm"
    and close_bytes: "on_close sink sm = on_close bsink sm"
begin

lemma frame_header:
  assumes "we_ops env = ops" and "32 \<le> we_width env" and fr: "frame_ok ok shows_bytes (we_width env) fr"
  shows "parse_header (we_width env) ops (cur_region ops (wf_body fr) (wf_pos fr) (cur_size ops (wf_body fr) - wf_pos fr)) policy
    = header_of policy (frame_rest shows_bytes fr)"
proof -
  have k: "ok (wf_body fr)" "wf_pos fr \<le> length (shows_bytes (wf_body fr))" "length (shows_bytes (wf_body fr)) < 2 ^ we_width env"
    using fr by (simp_all add: frame_ok_def)
  let ?c = "cur_region ops (wf_body fr) (wf_pos fr) (cur_size ops (wf_body fr) - wf_pos fr)"
  have c: "ok ?c" "shows_bytes ?c = frame_rest shows_bytes fr"
    using region_ok [OF k(1)] region [OF k(1)] size [OF k(1)] k(2) by (simp_all add: frame_rest_def drop_subspan_rest)
  moreover have "length (frame_rest shows_bytes fr) < 2 ^ we_width env" using k(3) by (simp add: frame_rest_def)
  ultimately show ?thesis using parse_header_spec [OF assms(2) c(1)] by simp
qed

lemma frame_child:
  assumes fr: "frame_ok ok shows_bytes w fr" and h: "header_of policy (frame_rest shows_bytes fr) = Inr h"
  shows "ok (cur_region ops (wf_body fr) (wf_pos fr) (h_total h))"
    and "shows_bytes (cur_region ops (wf_body fr) (wf_pos fr) (h_total h)) = take (h_total h) (frame_rest shows_bytes fr)"
    and "frame_ok ok shows_bytes w (fr\<lparr>wf_pos := wf_pos fr + h_total h\<rparr>)"
    and "frame_rest shows_bytes (fr\<lparr>wf_pos := wf_pos fr + h_total h\<rparr>) = drop (h_total h) (frame_rest shows_bytes fr)"
proof -
  have k: "ok (wf_body fr)" "wf_pos fr \<le> length (shows_bytes (wf_body fr))" using fr by (simp_all add: frame_ok_def)
  have t: "wf_pos fr + h_total h \<le> length (shows_bytes (wf_body fr))"
    using header_of_Inr(6) [OF h] k(2) by (simp add: frame_rest_def)
  show "ok (cur_region ops (wf_body fr) (wf_pos fr) (h_total h))"
    "shows_bytes (cur_region ops (wf_body fr) (wf_pos fr) (h_total h)) = take (h_total h) (frame_rest shows_bytes fr)"
    using region_ok [OF k(1) t] region [OF k(1) t] by (simp_all add: frame_rest_def subspan_def)
  show "frame_ok ok shows_bytes w (fr\<lparr>wf_pos := wf_pos fr + h_total h\<rparr>)"
    "frame_rest shows_bytes (fr\<lparr>wf_pos := wf_pos fr + h_total h\<rparr>) = drop (h_total h) (frame_rest shows_bytes fr)"
    using fr t by (simp_all add: frame_ok_def frame_rest_def add.commute)
qed

lemma body_frame:
  assumes c: "ok c" "shows_bytes c = take (h_total h) b" and h: "header_of policy b = Inr h" and w: "length b < 2 ^ w"
  shows "frame_ok ok shows_bytes w \<lparr>wf_body = cur_region ops c (h_header h) (h_length h), wf_pos = 0\<rparr>"
    and "frame_rest shows_bytes \<lparr>wf_body = cur_region ops c (h_header h) (h_length h), wf_pos = 0\<rparr> = subspan (h_header h) (h_length h) b"
proof -
  note f = header_of_Inr [OF h]
  have t: "h_header h + h_length h \<le> length (shows_bytes c)"
    using header_sized_bounds(3) [OF f(8)] f(6) by (simp add: c(2))
  have "shows_bytes (cur_region ops c (h_header h) (h_length h)) = subspan (h_header h) (h_length h) b"
    using region [OF c(1) t] header_sized_bounds(3) [OF f(8)] by (simp add: c(2) subspan_def drop_take min_def)
  then show "frame_ok ok shows_bytes w \<lparr>wf_body = cur_region ops c (h_header h) (h_length h), wf_pos = 0\<rparr>"
    "frame_rest shows_bytes \<lparr>wf_body = cur_region ops c (h_header h) (h_length h), wf_pos = 0\<rparr> = subspan (h_header h) (h_length h) b"
    using region_ok [OF c(1) t] w by (simp_all add: frame_ok_def frame_rest_def)
qed

text \<open>One turn of the loop on each kind of position.\<close>

lemma frame_at_end:
  "frame_ok ok shows_bytes w fr \<Longrightarrow> wf_pos fr = cur_size ops (wf_body fr) \<longleftrightarrow> frame_rest shows_bytes fr = []"
  using size by (auto simp: frame_rest_def frame_ok_def)

lemma walk_loop_close:
  assumes "we_ops env = ops" and "frame_ok ok shows_bytes (we_width env) fr" and "ws_frames st = fr # below"
    and "frame_rest shows_bytes fr = []"
  shows "walk_loop env sink st sm = walk_loop env sink (ws_pop st) (on_close bsink sm)"
  using assms frame_at_end [OF assms(2)]
  by (simp add: walk_loop.simps [of env sink st sm] Let_def close_bytes)

lemma walk_loop_error:
  assumes "we_ops env = ops" and "32 \<le> we_width env" and "frame_ok ok shows_bytes (we_width env) fr"
    and "ws_frames st = fr # below" and "frame_rest shows_bytes fr \<noteq> []"
    and "header_of (we_policy env) (frame_rest shows_bytes fr) = Inl e"
  shows "walk_loop env sink st sm = Some (Some e, st, sm)"
  using assms frame_at_end [OF assms(3)] frame_header [OF assms(1-3), of "we_policy env"]
  by (simp add: walk_loop.simps [of env sink st sm] Let_def)

lemma walk_loop_leaf:
  assumes "we_ops env = ops" and "32 \<le> we_width env" and "frame_ok ok shows_bytes (we_width env) fr"
    and "ws_frames st = fr # below" and "frame_rest shows_bytes fr \<noteq> []"
    and "header_of (we_policy env) (frame_rest shows_bytes fr) = Inr h" and "\<not> opt_pl (h_opt h)"
  shows "walk_loop env sink st sm =
    walk_loop env sink (st\<lparr>ws_frames := fr\<lparr>wf_pos := wf_pos fr + h_total h\<rparr> # below\<rparr>)
      (on_leaf bsink h (take (h_total h) (frame_rest shows_bytes fr)) sm)"
  using assms frame_at_end [OF assms(3)] frame_header [OF assms(1-3), of "we_policy env"]
    frame_child(1,2) [OF assms(3,6)]
  by (simp add: walk_loop.simps [of env sink st sm] Let_def leaf_bytes)

lemma walk_loop_open:
  assumes "we_ops env = ops" and "32 \<le> we_width env" and fr: "frame_ok ok shows_bytes (we_width env) fr"
    and st: "ws_frames st = fr # below" and "frame_rest shows_bytes fr \<noteq> []"
    and h: "header_of (we_policy env) (frame_rest shows_bytes fr) = Inr h" and "opt_pl (h_opt h)"
    and sm1: "sm1 = on_open bsink h (take (h_total h) (frame_rest shows_bytes fr)) sm"
  shows "\<exists>k st2 m2 new. ws_push env \<lparr>wf_body = (), wf_pos = 0\<rparr> (ws_shape st) (snd sm1) = (k, ws_shape st2, m2) \<and>
    walk_loop env sink st sm =
      (if \<not> k then Some (Some TLV_NESTING_TOO_DEEP, st2, (fst sm1, m2)) else walk_loop env sink st2 (fst sm1, m2)) \<and>
    (k \<longrightarrow> ws_frames st2 = new # fr\<lparr>wf_pos := wf_pos fr + h_total h\<rparr> # below) \<and>
    frame_ok ok shows_bytes (we_width env) new \<and>
    frame_rest shows_bytes new = subspan (h_header h) (h_length h) (frame_rest shows_bytes fr)"
proof -
  let ?node = "cur_region ops (wf_body fr) (wf_pos fr) (h_total h)"
  let ?st1 = "st\<lparr>ws_frames := fr\<lparr>wf_pos := wf_pos fr + h_total h\<rparr> # below\<rparr>"
  let ?new = "\<lparr>wf_body = cur_region ops ?node (h_header h) (h_length h), wf_pos = 0\<rparr>"
  note child = frame_child [OF fr h]
  have "length (frame_rest shows_bytes fr) < 2 ^ we_width env"
    using fr by (auto simp: frame_ok_def frame_rest_def intro: le_less_trans [OF diff_le_self])
  note new = body_frame [OF child(1,2) h this]
  have sm1': "on_open sink h ?node sm = sm1" using open_bytes [OF child(1)] child(2) by (simp add: sm1)
  obtain k st2 m2 where push: "ws_push env ?new ?st1 (snd sm1) = (k, st2, m2)" by (metis prod_cases3)
  have "ws_shape ?st1 = ws_shape st" using st by (simp add: ws_shape_frames)
  note ps = ws_push_shape [OF push, unfolded this]
  have "walk_loop env sink st sm =
      (if \<not> k then Some (Some TLV_NESTING_TOO_DEEP, st2, (fst sm1, m2)) else walk_loop env sink st2 (fst sm1, m2))"
    using assms push frame_at_end [OF fr] frame_header [OF assms(1-3), of "we_policy env"]
    by (simp add: walk_loop.simps [of env sink st sm] Let_def sm1')
  then show ?thesis using ps new by (intro exI [of _ k] exI [of _ st2] exI [of _ m2] exI [of _ ?new]) simp
qed

text \<open>The loop returns, with the result of performing what the open nodes have left.\<close>

lemma walk_loop_spec:
  assumes env: "we_ops env = ops" "32 \<le> we_width env"
    and "list_all (frame_ok ok shows_bytes (we_width env)) (ws_frames st)"
    and "rem_events (we_policy env) (map (frame_rest shows_bytes) (ws_frames st)) = (es, e)"
  shows "\<exists>r st' sm'. walk_loop env sink st sm = Some (r, st', sm') \<and>
     run_events env bsink es e (ws_shape st) sm = (r, ws_shape st', sm')"
  using assms(3,4)
proof (induction "sum_list (map (length \<circ> frame_rest shows_bytes) (ws_frames st)) + length (ws_frames st)"
    arbitrary: st sm es e rule: less_induct)
  case less
  let ?p = "we_policy env" and ?rest = "frame_rest shows_bytes"
  show ?case
  proof (cases "ws_frames st")
    case Nil
    then show ?thesis using less.prems by (simp add: walk_loop.simps [of env sink st sm])
  next
    case (Cons fr below)
    have fr: "frame_ok ok shows_bytes (we_width env) fr" and below: "list_all (frame_ok ok shows_bytes (we_width env)) below"
      using less.prems(1) Cons by simp_all
    note ev = less.prems(2) [unfolded Cons list.map]
    consider (closes) "?rest fr = []" | (err) x where "?rest fr \<noteq> []" "header_of ?p (?rest fr) = Inl x"
      | (leaf) h where "?rest fr \<noteq> []" "header_of ?p (?rest fr) = Inr h" "\<not> opt_pl (h_opt h)"
      | (opens) h where "?rest fr \<noteq> []" "header_of ?p (?rest fr) = Inr h" "opt_pl (h_opt h)"
      by (cases "header_of ?p (?rest fr)") blast+
    then show ?thesis
    proof cases
      case closes
      obtain es' e' where rem: "rem_events ?p (map ?rest below) = (es', e')" by fastforce
      have es: "es = Ev_close # es'" "e = e'" using rem_events_close [OF rem] ev closes by simp_all
      show ?thesis
        unfolding walk_loop_close [OF env(1) fr Cons closes] es run_events.simps ws_shape_pop [symmetric]
        using below rem Cons closes by (intro less.hyps) (simp_all add: ws_pop_def)
    next
      case err
      then show ?thesis
        using rem_events_error [OF err] ev walk_loop_error [OF env fr Cons err] by simp
    next
      case (leaf h)
      obtain es' e' where rem: "rem_events ?p (drop (h_total h) (?rest fr) # map ?rest below) = (es', e')" by fastforce
      have es: "es = Ev_leaf h (take (h_total h) (?rest fr)) # es'" "e = e'"
        using rem_events_leaf [OF leaf rem] ev by simp_all
      have "ws_shape st = ws_shape (st\<lparr>ws_frames := fr\<lparr>wf_pos := wf_pos fr + h_total h\<rparr> # below\<rparr>)"
        using Cons by (simp add: ws_shape_frames)
      then show ?thesis
        unfolding walk_loop_leaf [OF env fr Cons leaf] es run_events.simps
        using below rem Cons frame_child(3,4) [OF fr leaf(2)] forest_rest_shorter [OF leaf(2)]
        by (simp only:, intro less.hyps) simp_all
    next
      case (opens h)
      obtain es' e' where rem: "rem_events ?p (subspan (h_header h) (h_length h) (?rest fr) # drop (h_total h) (?rest fr) # map ?rest below) = (es', e')"
        by fastforce
      have es: "es = Ev_open h (take (h_total h) (?rest fr)) # es'" "e = e'"
        using rem_events_open [OF opens rem] ev by simp_all
      define sm1 where "sm1 = on_open bsink h (take (h_total h) (?rest fr)) sm"
      obtain k st2 m2 new where push: "ws_push env \<lparr>wf_body = (), wf_pos = 0\<rparr> (ws_shape st) (snd sm1) = (k, ws_shape st2, m2)"
        and loop: "walk_loop env sink st sm =
          (if \<not> k then Some (Some TLV_NESTING_TOO_DEEP, st2, (fst sm1, m2)) else walk_loop env sink st2 (fst sm1, m2))"
        and fs: "k \<longrightarrow> ws_frames st2 = new # fr\<lparr>wf_pos := wf_pos fr + h_total h\<rparr> # below"
        and new: "frame_ok ok shows_bytes (we_width env) new" "?rest new = subspan (h_header h) (h_length h) (?rest fr)"
        using walk_loop_open [OF env fr Cons opens sm1_def] by blast
      have run: "run_events env bsink es e (ws_shape st) sm =
          (if \<not> k then (Some TLV_NESTING_TOO_DEEP, ws_shape st2, (fst sm1, m2))
           else run_events env bsink es' e' (ws_shape st2) (fst sm1, m2))"
        using push by (simp add: es Let_def sm1_def)
      show ?thesis
      proof (cases k)
        case True
        have "\<exists>r st' sm'. walk_loop env sink st2 (fst sm1, m2) = Some (r, st', sm') \<and>
            run_events env bsink es' e' (ws_shape st2) (fst sm1, m2) = (r, ws_shape st', sm')"
          using below rem Cons fs True new frame_child(3,4) [OF fr opens(2)] forest_parts_shorter [OF opens(2)]
          by (intro less.hyps) simp_all
        then show ?thesis using True by (simp add: loop run)
      qed (simp add: loop run)
    qed
  qed
qed

lemma walk_spec:
  assumes env: "we_ops env = ops" "32 \<le> we_width env"
    and root: "ok root" "length (shows_bytes root) < 2 ^ we_width env" and st: "ws_frames st = []"
    and ev: "frame_events (we_policy env) (shows_bytes root) = (es, e)"
  shows "\<exists>r st' sm'. walk env sink root st sm = Some (r, st', sm') \<and>
     run_events env bsink es e (ws_shape st) sm = (r, ws_shape st', sm')"
proof -
  let ?b = "shows_bytes root"
  note hd = parse_header_spec [OF env(2) root, of "we_policy env"]
  show ?thesis
  proof (cases "header_of (we_policy env) ?b")
    case (Inl x)
    then show ?thesis using ev env hd by (auto simp: walk_def frame_events_def Let_def)
  next
    case (Inr h)
    show ?thesis
    proof (cases "h_total h = length ?b \<and> opt_pl (h_opt h)")
      case False
      then show ?thesis
        using ev env hd Inr root size by (auto simp: walk_def frame_events_def Let_def leaf_bytes split: if_splits)
    next
      case True
      let ?new = "\<lparr>wf_body = cur_region ops root (h_header h) (h_length h), wf_pos = 0\<rparr>"
      have "?b = take (h_total h) ?b" using True by simp
      note new = body_frame [OF root(1) this Inr root(2)]
      obtain es' where rem: "rem_events (we_policy env) [subspan (h_header h) (h_length h) ?b] = (es', e)"
        and es: "es = Ev_open h ?b # es'"
        using ev Inr True by (auto simp: frame_events_def Let_def split: prod.splits)
      define sm1 where "sm1 = on_open bsink h ?b sm"
      obtain k st2 m2 where push: "ws_push env ?new st (snd sm1) = (k, st2, m2)" by (metis prod_cases3)
      note ps = ws_push_shape [OF push]
      have "walk env sink root st sm =
          (if \<not> k then Some (Some TLV_NESTING_TOO_DEEP, st2, (fst sm1, m2)) else walk_loop env sink st2 (fst sm1, m2))"
        using env hd Inr True push root size by (simp add: walk_def Let_def open_bytes sm1_def)
      moreover have "run_events env bsink es e (ws_shape st) sm =
          (if \<not> k then (Some TLV_NESTING_TOO_DEEP, ws_shape st2, (fst sm1, m2))
           else run_events env bsink es' e (ws_shape st2) (fst sm1, m2))"
        using ps by (simp add: es Let_def sm1_def)
      moreover have "\<exists>r st' sm'. walk_loop env sink st2 (fst sm1, m2) = Some (r, st', sm') \<and>
          run_events env bsink es' e (ws_shape st2) (fst sm1, m2) = (r, ws_shape st', sm')" if k
        using that ps st new rem by (intro walk_loop_spec [OF env]) simp_all
      ultimately show ?thesis by (cases k) simp_all
    qed
  qed
qed

end

section \<open>Hooks and trees\<close>

primrec tree_events :: "tlv_tree \<Rightarrow> event list" and forest_event_list :: "tlv_tree list \<Rightarrow> event list" where
  "tree_events (Tree h b kids) =
     (if opt_pl (h_opt h) then Ev_open h b # forest_event_list kids @ [Ev_close] else [Ev_leaf h b])"
| "forest_event_list [] = []"
| "forest_event_list (t # ts) = tree_events t @ forest_event_list ts"

lemma forest_events_parse:
  "case parse_forest policy b of
     Inr ts \<Rightarrow> forest_events policy b = (forest_event_list ts, None)
   | Inl e \<Rightarrow> \<exists>es. forest_events policy b = (es, Some e)"
proof (induction policy b rule: parse_forest.induct)
  case (1 policy b)
  show ?case
  proof (cases "b = []")
    case True
    then show ?thesis by (simp add: parse_forest.simps [of policy "[]"] forest_events.simps [of policy "[]"])
  next
    case False
    show ?thesis
    proof (cases "header_of policy b")
      case (Inl e)
      then show ?thesis using False by (simp add: parse_forest.simps [of policy b] forest_events.simps [of policy b])
    next
      case (Inr h)
      have rest: "case parse_forest policy (drop (h_total h) b) of
          Inr ts \<Rightarrow> forest_events policy (drop (h_total h) b) = (forest_event_list ts, None)
        | Inl e \<Rightarrow> \<exists>es. forest_events policy (drop (h_total h) b) = (es, Some e)"
        if "(if opt_pl (h_opt h) then parse_forest policy (subspan (h_header h) (h_length h) b) else Inr []) = Inr kids" for kids
        using "1.IH"(2) [OF False Inr] that by simp
      show ?thesis
        using "1.IH"(1) [OF False Inr] rest Inr False
        by (cases "opt_pl (h_opt h)"; cases "parse_forest policy (subspan (h_header h) (h_length h) b)";
            cases "parse_forest policy (drop (h_total h) b)")
           (auto simp: parse_forest.simps [of policy b] forest_events.simps [of policy b])
    qed
  qed
qed

lemma frame_events_parse:
  "case parse_frame policy b of
     Inr t \<Rightarrow> frame_events policy b = (tree_events t, None)
   | Inl e \<Rightarrow> \<exists>es. frame_events policy b = (es, Some e)"
proof (cases "header_of policy b")
  case (Inl e)
  then show ?thesis by (simp add: parse_frame_def frame_events_def)
next
  case (Inr h)
  show ?thesis
    using Inr forest_events_parse [of policy "subspan (h_header h) (h_length h) b"]
    by (cases "parse_forest policy (subspan (h_header h) (h_length h) b)")
       (auto simp: parse_frame_def frame_events_def)
qed

section \<open>Depth\<close>

text \<open>The deepest stack a list of hooks reaches, and how deep a tree opens.\<close>

fun event_depth :: "nat \<Rightarrow> event list \<Rightarrow> nat" where
  "event_depth n [] = n"
| "event_depth n (Ev_leaf h b # es) = event_depth n es"
| "event_depth n (Ev_open h b # es) = event_depth (Suc n) es"
| "event_depth n (Ev_close # es) = max n (event_depth (n - 1) es)"

primrec tree_depth :: "tlv_tree \<Rightarrow> nat" and forest_depth :: "tlv_tree list \<Rightarrow> nat" where
  "tree_depth (Tree h b kids) = (if opt_pl (h_opt h) then Suc (forest_depth kids) else 0)"
| "forest_depth [] = 0"
| "forest_depth (t # ts) = max (tree_depth t) (forest_depth ts)"

lemma event_depth_ge: "n \<le> event_depth n es"
  by (induction n es rule: event_depth.induct) auto

lemma event_depth_forest:
  assumes "\<And>t n es. t \<in> set ts \<Longrightarrow> event_depth n (tree_events t @ es) = max (n + tree_depth t) (event_depth n es)"
  shows "event_depth n (forest_event_list ts @ es) = max (n + forest_depth ts) (event_depth n es)"
  using assms event_depth_ge [of n es] by (induction ts) auto

lemma event_depth_tree:
  "event_depth n (tree_events t @ es) = max (n + tree_depth t) (event_depth n es)"
proof (induction t arbitrary: n es)
  case (Tree h b kids)
  note forest = event_depth_forest [of kids, OF Tree]
  show ?case using event_depth_ge [of n es] by (auto simp: forest)
qed

text \<open>The hooks without a stack.\<close>

fun play :: "(bytes, 's, 'm) sink_ops \<Rightarrow> event list \<Rightarrow> 's \<times> 'm \<Rightarrow> 's \<times> 'm" where
  "play sink [] sm = sm"
| "play sink (Ev_leaf h b # es) sm = play sink es (on_leaf sink h b sm)"
| "play sink (Ev_open h b # es) sm = play sink es (on_open sink h b sm)"
| "play sink (Ev_close # es) sm = play sink es (on_close sink sm)"

lemma ws_push_room:
  "length (ws_frames st) < ws_cap st \<Longrightarrow> ws_push env f st m = (True, st\<lparr>ws_frames := f # ws_frames st\<rparr>, m)"
  by (simp add: ws_push_def)

text \<open>A stack with room for the whole depth never asks the source for anything.\<close>

lemma run_events_room:
  "event_depth (length (ws_frames st)) es \<le> ws_cap st \<Longrightarrow>
     \<exists>fs. run_events env sink es r st sm = (r, st\<lparr>ws_frames := fs\<rparr>, play sink es sm)"
proof (induction env sink es r st sm rule: run_events.induct)
  case (1 env sink r st sm)
  show ?case by (simp add: exI [of _ "ws_frames st"])
next
  case (3 env sink h b es r st sm)
  have "length (ws_frames st) < ws_cap st"
    using "3.prems" event_depth_ge [of "Suc (length (ws_frames st))" es] by simp
  note push = ws_push_room [OF this, of env]
  show ?case using "3.prems" "3.IH" [OF refl push [symmetric] refl] by (auto simp: push)
next
  case (4 env sink es r st sm)
  then show ?case by (fastforce simp: ws_pop_def)
qed auto

text \<open>
  When the source grants no spill (there is none, or it refuses), a deeper frame is refused; in
  every other case the outcome is the frame's own or that refusal.
\<close>

lemma run_events_too_deep:
  "(\<And>(s :: unit walk_stack_t) m. \<not> fst (ws_grow env s m)) \<Longrightarrow> length (ws_frames st) \<le> ws_cap st \<Longrightarrow>
     ws_cap st < event_depth (length (ws_frames st)) es \<Longrightarrow>
     fst (run_events env sink es r st sm) = Some TLV_NESTING_TOO_DEEP"
proof (induction env sink es r st sm rule: run_events.induct)
  case (3 env sink h b es r st sm)
  show ?case
  proof (cases "length (ws_frames st) < ws_cap st")
    case True
    note push = ws_push_room [OF True, of env]
    show ?thesis using "3.prems" "3.IH" [OF refl push [symmetric] refl] True by (auto simp: push)
  next
    case False
    then have full: "length (ws_frames st) = ws_cap st" using "3.prems"(2) by simp
    obtain k st1 m1 where g: "ws_grow env st (snd (on_open sink h b sm)) = (k, st1, m1)" by (metis prod_cases3)
    then have "\<not> k" using "3.prems"(1) [of st "snd (on_open sink h b sm)"] by simp
    then show ?thesis using full g by (simp add: ws_push_def)
  qed
next
  case (4 env sink es r st sm)
  then show ?case by (auto simp: ws_pop_def max_def split: if_splits)
qed auto

lemma run_events_outcome:
  "fst (run_events env sink es r st sm) = r \<or> fst (run_events env sink es r st sm) = Some TLV_NESTING_TOO_DEEP"
  by (induction env sink es r st sm rule: run_events.induct) (auto simp: Let_def split: prod.splits)

lemma ws_grow_grants:
  assumes "we_spill env = Some src" and "always_grants src"
  shows "fst (ws_grow env st m)"
proof -
  define cap where "cap = (if ws_cap st < 4 then 8 else ws_cap st * 2)"
  obtain p m' where t: "try_alloc src m (cap * we_frame_size env) (we_frame_align env) = (p, m')" by fastforce
  have "fst (try_alloc src m (cap * we_frame_size env) (we_frame_align env)) \<noteq> None"
    using assms(2) by (simp add: always_grants_def)
  then obtain fresh where "p = Some fresh" using t by auto
  then show ?thesis unfolding ws_grow_def Let_def cap_def [symmetric] by (simp add: assms(1) t)
qed

lemma ws_push_grants: "we_spill env = Some src \<Longrightarrow> always_grants src \<Longrightarrow> fst (ws_push env f st m)"
  using ws_grow_grants [of env src st m] by (auto simp: ws_push_def Let_def split: prod.splits)

lemma run_events_grants:
  "we_spill env = Some src \<Longrightarrow> always_grants src \<Longrightarrow> fst (run_events env sink es r st sm) = r"
proof (induction env sink es r st sm rule: run_events.induct)
  case (3 env sink h b es r st sm)
  obtain k st2 m2 where push: "ws_push env \<lparr>wf_body = (), wf_pos = 0\<rparr> st (snd (on_open sink h b sm)) = (k, st2, m2)"
    by (metis prod_cases3)
  then have k: k using ws_push_grants [OF "3.prems", of "\<lparr>wf_body = (), wf_pos = 0\<rparr>" st "snd (on_open sink h b sm)"] by simp
  show ?case using "3.IH" [OF refl push [symmetric] refl] k "3.prems" push by simp
qed simp_all

section \<open>The stack owns its spill block\<close>

definition ws_block :: "('c, 'm) walk_env \<Rightarrow> 'd walk_stack_t \<Rightarrow> block set" where
  "ws_block env st =
     (if ws_spilled st then {(ws_data st, ws_cap st * we_frame_size env, we_frame_align env)} else {})"

text \<open>
  A hook keeps a sink's blocks apart from the others: \<open>own\<close> is what the sink's state owns, \<open>K\<close>
  everything else that is live.
\<close>

definition keeps_own ::
  "('m \<Rightarrow> block set \<Rightarrow> bool) \<Rightarrow> ('s \<Rightarrow> block set) \<Rightarrow> ('s \<times> 'm \<Rightarrow> 's \<times> 'm) \<Rightarrow> bool" where
  "keeps_own live own hook \<longleftrightarrow>
     (\<forall>K s m s' m'. hook (s, m) = (s', m') \<longrightarrow> live m (K \<union> own s) \<longrightarrow> K \<inter> own s = {} \<longrightarrow>
        live m' (K \<union> own s') \<and> K \<inter> own s' = {})"

definition sink_owns :: "('m \<Rightarrow> block set \<Rightarrow> bool) \<Rightarrow> ('s \<Rightarrow> block set) \<Rightarrow> (bytes, 's, 'm) sink_ops \<Rightarrow> bool" where
  "sink_owns live own sink \<longleftrightarrow>
     (\<forall>h b. keeps_own live own (on_open sink h b)) \<and> (\<forall>h b. keeps_own live own (on_leaf sink h b)) \<and>
     keeps_own live own (on_close sink)"

context block_source
begin

lemma ws_grow_owned:
  assumes spill: "we_spill env = Some ops" and inv: "inv m L" and own: "ws_block env st \<subseteq> L"
    and req: "request_ok w (we_frame_size env) (we_frame_align env)" and r: "ws_grow env st m = (k, st', m')"
  shows "inv m' (L - ws_block env st \<union> ws_block env st') \<and> (L - ws_block env st) \<inter> ws_block env st' = {}"
proof -
  define cap where "cap = (if ws_cap st < 4 then 8 else ws_cap st * 2)"
  have "request_ok w (cap * we_frame_size env) (we_frame_align env)"
    using req by (intro request_ok_scale) (simp_all add: cap_def)
  note grant = alloc_grant [OF inv this] and refuse = alloc_refuse [OF inv this]
  obtain p m1 where alloc: "try_alloc ops m (cap * we_frame_size env) (we_frame_align env) = (p, m1)" by fastforce
  show ?thesis
  proof (cases p)
    case None
    then have "inv m' L" "st' = st" using refuse r alloc spill by (auto simp: ws_grow_def cap_def)
    with own show ?thesis by (simp add: Un_absorb2 Un_commute inf_commute)
  next
    case (Some fresh)
    let ?new = "(fresh, cap * we_frame_size env, we_frame_align env)"
    have g: "inv m1 (insert ?new L)" "?new \<notin> L" using grant alloc Some by auto
    have st': "ws_block env st' = {?new}"
      and m': "m' = (if ws_spilled st then release ops m1 (ws_data st) (ws_cap st * we_frame_size env) (we_frame_align env) else m1)"
      using r alloc Some spill by (auto simp: ws_grow_def ws_block_def cap_def Let_def)
    have "inv m' (insert ?new L - ws_block env st)"
      using release_live [OF g(1)] g(1) own by (auto simp: m' ws_block_def)
    moreover have "insert ?new L - ws_block env st = L - ws_block env st \<union> ws_block env st'" using g(2) own st' by auto
    ultimately show ?thesis using g(2) st' by simp
  qed
qed

lemma ws_push_owned:
  assumes spill: "we_spill env = Some ops" and inv: "inv m L" and own: "ws_block env st \<subseteq> L"
    and req: "request_ok w (we_frame_size env) (we_frame_align env)" and r: "ws_push env f st m = (k, st', m')"
  shows "inv m' (L - ws_block env st \<union> ws_block env st') \<and> (L - ws_block env st) \<inter> ws_block env st' = {}"
proof (cases "length (ws_frames st) = ws_cap st")
  case False
  then have "m' = m" "ws_block env st' = ws_block env st" using r by (auto simp: ws_push_def ws_block_def)
  with inv own show ?thesis by (simp add: Un_absorb2 Un_commute inf_commute)
next
  case True
  obtain k1 st1 m1 where g: "ws_grow env st m = (k1, st1, m1)" by (metis prod_cases3)
  then have "m' = m1" "ws_block env st' = ws_block env st1"
    using r True by (auto simp: ws_push_def ws_block_def split: if_splits)
  with ws_grow_owned [OF spill inv own req g] show ?thesis by simp
qed

text \<open>A whole walk: what is live besides the sink's and the stack's blocks stays as it was.\<close>

lemma run_events_owned:
  assumes "we_spill env = Some ops" and "request_ok w (we_frame_size env) (we_frame_align env)" and "sink_owns inv own sink"
    and "inv m (K \<union> own s \<union> ws_block env st)" and "K \<inter> own s = {}" and "(K \<union> own s) \<inter> ws_block env st = {}"
    and "run_events env sink es r st (s, m) = (r', st', (s', m'))"
  shows "inv m' (K \<union> own s' \<union> ws_block env st') \<and> K \<inter> own s' = {} \<and> (K \<union> own s') \<inter> ws_block env st' = {}"
proof -
  have hook: "inv m' (K \<union> own s' \<union> ws_block env st) \<and> K \<inter> own s' = {} \<and> (K \<union> own s') \<inter> ws_block env st = {}"
    if "keeps_own inv own f" "f (s, m) = (s', m')" "inv m (K \<union> own s \<union> ws_block env st)" "K \<inter> own s = {}"
      "(K \<union> own s) \<inter> ws_block env st = {}" for f s m s' m' and st :: "unit walk_stack_t"
  proof -
    have "inv m ((K \<union> ws_block env st) \<union> own s)" using that(3) by (simp add: Un_ac)
    moreover have "(K \<union> ws_block env st) \<inter> own s = {}" using that(4,5) by blast
    ultimately have a: "inv m' ((K \<union> ws_block env st) \<union> own s')" "(K \<union> ws_block env st) \<inter> own s' = {}"
      using that(1,2) unfolding keeps_own_def by blast+
    have "inv m' (K \<union> own s' \<union> ws_block env st)" using a(1) by (simp add: Un_ac)
    moreover have "K \<inter> own s' = {} \<and> (K \<union> own s') \<inter> ws_block env st = {}" using a(2) that(5) by blast
    ultimately show ?thesis by simp
  qed
  show ?thesis
    using assms(4-7)
  proof (induction es arbitrary: st s m)
    case (Cons ev es)
    show ?case
    proof (cases ev)
      case (Ev_leaf h b)
      obtain s1 m1 where h: "on_leaf sink h b (s, m) = (s1, m1)" by fastforce
      have "keeps_own inv own (on_leaf sink h b)" using assms(3) by (simp add: sink_owns_def)
      from Cons.IH [of m1 s1 st] hook [OF this h Cons.prems(1-3)] show ?thesis
        using Cons.prems(4) by (simp add: Ev_leaf h)
    next
      case Ev_close
      obtain s1 m1 where h: "on_close sink (s, m) = (s1, m1)" by fastforce
      have b: "ws_block env (ws_pop st) = ws_block env st" by (simp add: ws_block_def ws_pop_def)
      have "keeps_own inv own (on_close sink)" using assms(3) by (simp add: sink_owns_def)
      from Cons.IH [of m1 s1 "ws_pop st"] hook [OF this h Cons.prems(1-3)] show ?thesis
        using Cons.prems(4) by (simp add: Ev_close h b)
    next
      case (Ev_open h b)
      obtain s1 m1 where h: "on_open sink h b (s, m) = (s1, m1)" by fastforce
      have "keeps_own inv own (on_open sink h b)" using assms(3) by (simp add: sink_owns_def)
      note after = hook [OF this h Cons.prems(1-3)]
      obtain k st2 m2 where push: "ws_push env \<lparr>wf_body = (), wf_pos = 0\<rparr> st m1 = (k, st2, m2)" by (metis prod_cases3)
      have "K \<union> own s1 \<union> ws_block env st - ws_block env st = K \<union> own s1" using after by blast
      then have "inv m2 (K \<union> own s1 \<union> ws_block env st2) \<and> (K \<union> own s1) \<inter> ws_block env st2 = {}"
        using ws_push_owned [OF assms(1) conjunct1 [OF after] _ assms(2) push] by simp
      with Cons.IH [of m2 s1 st2] after show ?thesis
        using Cons.prems(4) push by (cases k) (simp_all add: Ev_open h)
    qed
  qed auto
qed

end

end
