(* ===== verification/Frame.thy ===== *)
theory Frame
  imports Grammar
begin

text \<open>
  The tree a caller builds and the encoder of \<^verbatim>\<open>frame.hpp\<close> and \<^verbatim>\<open>frame.cpp\<close>: sizing and refusing
  (\<^verbatim>\<open>body_bytes\<close>, \<^verbatim>\<open>tlv_bytes\<close>), writing (\<^verbatim>\<open>put_tlv\<close>) and \<^verbatim>\<open>encode\<close>, over a byte array that may
  refuse to grow. The reference \<open>tlv_image\<close> is the wire form of a tree; the lemmas show that the
  size computed beforehand is the size written, that the writes after the one reservation never
  touch the source, and that \<^verbatim>\<open>encode\<close> is all-or-nothing.
\<close>

unbundle bit_operations_syntax

section \<open>Values\<close>

datatype crc_width_t = CRC32C | CRC16_CCITT

record crc_t =
  crc_width :: crc_width_t
  crc_val :: "32 word"

text \<open>An \<^verbatim>\<open>std::int64_t\<close> is the 64-bit word of its two's complement.\<close>

record timestamp_t =
  ts_relative :: bool
  ts_value :: "64 word"

record trailer_t =
  tr_ts :: "timestamp_t option"
  tr_crc :: "crc_t option"

datatype tlv_t =
  Tlv (tlv_type: type_t) (tlv_opt: opt_t) (tlv_payload: bytes) (tlv_children: "tlv_t list") (tlv_trailer: "trailer_t option")

text \<open>\<^verbatim>\<open>equal\<close> compares type, options, trailer and payload, then the children pairwise.\<close>

fun tlv_equal :: "tlv_t \<Rightarrow> tlv_t \<Rightarrow> bool" and tlvs_equal :: "tlv_t list \<Rightarrow> tlv_t list \<Rightarrow> bool" where
  "tlv_equal (Tlv t1 o1 p1 cs1 tr1) (Tlv t2 o2 p2 cs2 tr2) \<longleftrightarrow>
     (if t1 \<noteq> t2 \<or> o1 \<noteq> o2 \<or> tr1 \<noteq> tr2 then False
      else if p1 \<noteq> p2 then False
      else if length cs1 \<noteq> length cs2 then False
      else tlvs_equal cs1 cs2)"
| "tlvs_equal (c # cs) (d # ds) \<longleftrightarrow> tlv_equal c d \<and> tlvs_equal cs ds"
| "tlvs_equal _ _ \<longleftrightarrow> True"

definition stamp_ts :: "tlv_t \<Rightarrow> 64 word \<Rightarrow> tlv_t" where
  "stamp_ts tlv now_ns =
     Tlv (tlv_type tlv) ((tlv_opt tlv)\<lparr>opt_ts := True, opt_tf := False\<rparr>) (tlv_payload tlv) (tlv_children tlv)
       (let tr = (case tlv_trailer tlv of None \<Rightarrow> \<lparr>tr_ts = None, tr_crc = None\<rparr> | Some t \<Rightarrow> t)
        in Some (tr\<lparr>tr_ts := Some \<lparr>ts_relative = False, ts_value = now_ns\<rparr>\<rparr>))"

section \<open>Sizing\<close>

definition crc_bytes :: "opt_t \<Rightarrow> nat" where
  "crc_bytes opt = (if \<not> opt_cr opt then 0 else if opt_cw opt then 2 else 4)"

text \<open>The timestamp check of \<^verbatim>\<open>body_bytes\<close>: a stamp bit with a value that does not fit it.\<close>

definition ts_incoherent :: "opt_t \<Rightarrow> trailer_t option \<Rightarrow> bool" where
  "ts_incoherent opt trailer \<longleftrightarrow>
     opt_ts opt \<and>
     (case trailer of
        None \<Rightarrow> True
      | Some tr \<Rightarrow> (case tr_ts tr of None \<Rightarrow> True | Some ts \<Rightarrow> ts_relative ts \<noteq> opt_tf opt))"

text \<open>\<^verbatim>\<open>body_bytes\<close> with the sum over the children as an argument, then the mutual recursion.\<close>

definition body_bytes_of :: "type_t \<Rightarrow> opt_t \<Rightarrow> bytes \<Rightarrow> trailer_t option \<Rightarrow> nat option \<Rightarrow> nat option" where
  "body_bytes_of t opt payload trailer children =
     (if is_path_ref_type t \<and> \<not> path_ref_body_valid (opt_pl opt) (opt_ll opt) (length payload) then None
      else if ts_incoherent opt trailer then None
      else if \<not> opt_pl opt then Some (length payload)
      else children)"

definition widen :: "opt_t \<Rightarrow> nat \<Rightarrow> opt_t" where
  "widen opt body = (if body > 0xFFFF then opt\<lparr>opt_ll := True\<rparr> else opt)"

primrec tlv_bytes :: "tlv_t \<Rightarrow> nat option" and children_bytes :: "tlv_t list \<Rightarrow> nat option" where
  "tlv_bytes (Tlv t opt payload cs trailer) =
     (case body_bytes_of t opt payload trailer (children_bytes cs) of
        None \<Rightarrow> None
      | Some body \<Rightarrow>
          Some (header_bytes (widen opt body) + body +
                (if opt_ts opt then trailer_ts_bytes (opt_tf opt) else 0) + crc_bytes opt))"
| "children_bytes [] = Some 0"
| "children_bytes (c # cs) =
     (case tlv_bytes c of
        None \<Rightarrow> None
      | Some k \<Rightarrow> (case children_bytes cs of None \<Rightarrow> None | Some n \<Rightarrow> Some (k + n)))"

definition body_bytes :: "tlv_t \<Rightarrow> nat option" where
  "body_bytes tlv =
     body_bytes_of (tlv_type tlv) (tlv_opt tlv) (tlv_payload tlv) (tlv_trailer tlv) (children_bytes (tlv_children tlv))"

section \<open>Writing\<close>

primrec put_tlv :: "'m source_ops \<Rightarrow> tlv_t \<Rightarrow> bytes_t \<Rightarrow> 'm \<Rightarrow> bytes_t \<times> 'm"
  and put_children :: "'m source_ops \<Rightarrow> tlv_t list \<Rightarrow> bytes_t \<Rightarrow> 'm \<Rightarrow> bytes_t \<times> 'm" where
  "put_tlv src (Tlv t opt payload cs trailer) out m =
     (let body = the (body_bytes_of t opt payload trailer (children_bytes cs));
          (_, out1, m1) = emit_header src t (widen opt body) body out m;
          at = ba_size out1;
          (out2, m2) = (if opt_pl opt then put_children src cs out1 m1 else snd (bytes_append src payload out1 m1));
          (out3, m3) = (if opt_ts opt
                        then snd (emit_trailer_ts src (opt_tf opt) (ts_value (the (tr_ts (the trailer)))) out2 m2)
                        else (out2, m2))
      in if \<not> opt_cr opt then (out3, m3)
         else let covered = drop at (ba_elems out3);
                  crc = (if opt_cw opt then ucast (crc16_ccitt covered) else crc32c covered) :: 32 word
              in snd (bytes_append src (le_bytes crc (crc_bytes opt)) out3 m3))"
| "put_children src [] out m = (out, m)"
| "put_children src (c # cs) out m =
     (let (out1, m1) = put_tlv src c out m in put_children src cs out1 m1)"

definition encode :: "'m source_ops \<Rightarrow> tlv_t \<Rightarrow> bytes_t \<Rightarrow> 'm \<Rightarrow> bool \<times> bytes_t \<times> 'm" where
  "encode src tlv out m =
     (case tlv_bytes tlv of
        None \<Rightarrow> (False, out, m)
      | Some n \<Rightarrow>
          (case bytes_reserve src (ba_size out + n) out m of
             (False, out', m') \<Rightarrow> (False, out', m')
           | (True, out', m') \<Rightarrow> (True, put_tlv src tlv out' m')))"

text \<open>The vector form, over the heap source it names: an empty result is the refusal.\<close>

definition encode_vec :: "'m source_ops \<Rightarrow> tlv_t \<Rightarrow> 'm \<Rightarrow> bytes \<times> 'm" where
  "encode_vec heap tlv m =
     (case encode heap tlv ba_empty m of
        (False, out, m') \<Rightarrow> ([], ba_destroy heap 1 1 out m')
      | (True, out, m') \<Rightarrow> (ba_elems out, ba_destroy heap 1 1 out m'))"

section \<open>The wire form\<close>

definition crc_image :: "opt_t \<Rightarrow> bytes \<Rightarrow> bytes" where
  "crc_image opt covered =
     (if \<not> opt_cr opt then []
      else le_bytes ((if opt_cw opt then ucast (crc16_ccitt covered) else crc32c covered) :: 32 word) (crc_bytes opt))"

definition stamp_image :: "opt_t \<Rightarrow> trailer_t option \<Rightarrow> bytes" where
  "stamp_image opt trailer = (if opt_ts opt then ts_image (opt_tf opt) (ts_value (the (tr_ts (the trailer)))) else [])"

definition wire_image :: "type_t \<Rightarrow> opt_t \<Rightarrow> bytes \<Rightarrow> bytes \<Rightarrow> bytes" where
  "wire_image t opt body stamp =
     header_image t (widen opt (length body)) (length body) @ body @ stamp @ crc_image opt (body @ stamp)"

primrec tlv_image :: "tlv_t \<Rightarrow> bytes" and children_image :: "tlv_t list \<Rightarrow> bytes" where
  "tlv_image (Tlv t opt payload cs trailer) =
     wire_image t opt (if opt_pl opt then children_image cs else payload) (stamp_image opt trailer)"
| "children_image [] = []"
| "children_image (c # cs) = tlv_image c @ children_image cs"

lemma length_crc_image [simp]: "length (crc_image opt covered) = crc_bytes opt"
  by (simp add: crc_image_def crc_bytes_def)

lemma length_stamp_image [simp]:
  "length (stamp_image opt trailer) = (if opt_ts opt then trailer_ts_bytes (opt_tf opt) else 0)"
  by (simp add: stamp_image_def)

lemma crc_bytes_size: "crc_bytes opt = crc_size_of opt"
  by (simp add: crc_bytes_def crc_size_of_def)

lemma stamp_size: "length (stamp_image opt trailer) = ts_size_of opt"
  by (simp add: ts_size_of_def trailer_ts_bytes_def)

lemma length_wire_image:
  "length (wire_image t opt body stamp) =
     header_bytes (widen opt (length body)) + length body + length stamp + crc_bytes opt"
  by (simp add: wire_image_def)

section \<open>The size computed is the size written\<close>

lemma children_bytes_image:
  "(\<And>c n. c \<in> set cs \<Longrightarrow> tlv_bytes c = Some n \<Longrightarrow> length (tlv_image c) = n) \<Longrightarrow>
     children_bytes cs = Some n \<Longrightarrow> length (children_image cs) = n"
  by (induction cs arbitrary: n) (auto split: option.splits)

lemma tlv_bytes_image: "tlv_bytes tlv = Some n \<Longrightarrow> length (tlv_image tlv) = n"
proof (induction tlv arbitrary: n)
  case (Tlv t opt payload cs trailer)
  note kids = children_bytes_image [of cs, OF Tlv.IH]
  from Tlv.prems obtain body where b: "body_bytes_of t opt payload trailer (children_bytes cs) = Some body"
    by (auto split: option.splits)
  then have "length (if opt_pl opt then children_image cs else payload) = body"
    using kids by (auto simp: body_bytes_of_def split: if_splits)
  then show ?case using Tlv.prems b by (simp add: length_wire_image)
qed

lemma tlv_bytes_pos: "tlv_bytes tlv = Some n \<Longrightarrow> 4 \<le> n"
  by (cases tlv) (auto simp: header_bytes_def split: option.splits)

section \<open>Writing inside the reservation\<close>

text \<open>With room for a tree, \<^verbatim>\<open>put_tlv\<close> appends its wire form and never reaches the source.\<close>

lemma put_children_room:
  assumes "\<And>c n out. c \<in> set cs \<Longrightarrow> tlv_bytes c = Some n \<Longrightarrow> ba_size out + n \<le> ba_cap out \<Longrightarrow>
      put_tlv src c out m = (out\<lparr>ba_elems := ba_elems out @ tlv_image c\<rparr>, m)"
    and "children_bytes cs = Some n" and "ba_size out + n \<le> ba_cap out"
  shows "put_children src cs out m = (out\<lparr>ba_elems := ba_elems out @ children_image cs\<rparr>, m)"
  using assms
proof (induction cs arbitrary: n out)
  case (Cons c cs)
  from Cons.prems(2) obtain k r where k: "tlv_bytes c = Some k" and r: "children_bytes cs = Some r" and n: "n = k + r"
    by (auto split: option.splits)
  have "put_tlv src c out m = (out\<lparr>ba_elems := ba_elems out @ tlv_image c\<rparr>, m)"
    using Cons.prems(1,3) k n by simp
  moreover have "put_children src cs (out\<lparr>ba_elems := ba_elems out @ tlv_image c\<rparr>) m =
      (out\<lparr>ba_elems := (ba_elems out @ tlv_image c) @ children_image cs\<rparr>, m)"
    using Cons.IH [of r "out\<lparr>ba_elems := ba_elems out @ tlv_image c\<rparr>"] Cons.prems r n tlv_bytes_image [OF k] by simp
  ultimately show ?case by simp
qed simp

lemma put_tlv_room:
  "tlv_bytes tlv = Some n \<Longrightarrow> ba_size out + n \<le> ba_cap out \<Longrightarrow>
     put_tlv src tlv out m = (out\<lparr>ba_elems := ba_elems out @ tlv_image tlv\<rparr>, m)"
proof (induction tlv arbitrary: n out)
  case (Tlv t opt payload cs trailer)
  from Tlv.prems(1) obtain body where b: "body_bytes_of t opt payload trailer (children_bytes cs) = Some body"
    by (auto split: option.splits)
  define bd where "bd = (if opt_pl opt then children_image cs else payload)"
  define hd where "hd = header_image t (widen opt body) body"
  define st where "st = stamp_image opt trailer"
  have bd_len: "length bd = body"
    using b children_bytes_image [of cs, OF tlv_bytes_image] by (auto simp: body_bytes_of_def bd_def split: if_splits)
  have n: "n = length hd + body + length st + crc_bytes opt" using Tlv.prems(1) b by (simp add: hd_def st_def)
  let ?o1 = "out\<lparr>ba_elems := ba_elems out @ hd\<rparr>"
  let ?o2 = "out\<lparr>ba_elems := (ba_elems out @ hd) @ bd\<rparr>"
  let ?o3 = "out\<lparr>ba_elems := ((ba_elems out @ hd) @ bd) @ st\<rparr>"
  have h: "emit_header src t (widen opt body) body out m = (True, ?o1, m)"
    unfolding emit_header_image hd_def [symmetric] using Tlv.prems(2) n by (simp add: array_simps)
  have p: "(if opt_pl opt then put_children src cs ?o1 m else snd (bytes_append src payload ?o1 m)) = (?o2, m)"
  proof (cases "opt_pl opt")
    case True
    then have "children_bytes cs = Some body" using b by (auto simp: body_bytes_of_def split: if_splits)
    then show ?thesis
      using put_children_room [of cs src m body ?o1] Tlv.IH Tlv.prems(2) n True by (simp add: bd_def)
  next
    case False
    then show ?thesis using Tlv.prems(2) n bd_len by (simp add: bd_def array_simps)
  qed
  have t: "(if opt_ts opt then snd (emit_trailer_ts src (opt_tf opt) (ts_value (the (tr_ts (the trailer)))) ?o2 m) else (?o2, m)) = (?o3, m)"
    using Tlv.prems(2) n bd_len
    by (cases "opt_ts opt") (simp_all add: emit_trailer_ts_image st_def stamp_image_def array_simps)
  have "put_tlv src (Tlv t opt payload cs trailer) out m =
      (if \<not> opt_cr opt then (?o3, m) else snd (bytes_append src (crc_image opt (bd @ st)) ?o3 m))"
    unfolding put_tlv.simps Let_def b option.sel h prod.case p t by (simp add: crc_image_def)
  also have "\<dots> = (?o3\<lparr>ba_elems := ba_elems ?o3 @ crc_image opt (bd @ st)\<rparr>, m)"
    using Tlv.prems(2) n bd_len by (cases "opt_cr opt") (simp_all add: array_simps crc_image_def)
  finally show ?case using bd_len by (simp add: wire_image_def bd_def [symmetric] st_def [symmetric] hd_def)
qed

text \<open>
  \<^verbatim>\<open>encode\<close> appends the wire form or nothing at all; it fails exactly when the tree is refused or
  the source refuses the reservation.
\<close>

lemma encode_ok:
  assumes "encode src tlv out m = (True, out', m')"
  shows "ba_elems out' = ba_elems out @ tlv_image tlv \<and> tlv_bytes tlv = Some (length (tlv_image tlv))"
proof -
  obtain n where n: "tlv_bytes tlv = Some n" using assms by (auto simp: encode_def split: option.splits)
  obtain k o1 m1 where r: "bytes_reserve src (ba_size out + n) out m = (k, o1, m1)" by (metis prod_cases3)
  have k: k "put_tlv src tlv o1 m1 = (out', m')" using assms n r by (auto simp: encode_def split: bool.splits)
  then have "ba_size o1 + n \<le> ba_cap o1" "ba_elems o1 = ba_elems out" using ba_reserve_spec [OF r] by simp_all
  then show ?thesis using k put_tlv_room [OF n, of o1 src m1] tlv_bytes_image [OF n] n by auto
qed

lemma encode_refused:
  "encode src tlv out m = (False, out', m') \<Longrightarrow>
     out' = out \<and> (tlv_bytes tlv = None \<or> (\<exists>n. tlv_bytes tlv = Some n \<and> \<not> fst (bytes_reserve src (ba_size out + n) out m)))"
  by (auto simp: encode_def split: option.splits bool.splits prod.splits dest: ba_reserve_spec)

end
