(* ===== verification/Reader.thy ===== *)
theory Reader
  imports Frame Grammar_Walk
begin

text \<open>
  The library's reader of a frame, from \<^verbatim>\<open>frame.hpp\<close> and \<^verbatim>\<open>frame.cpp\<close>: \<^verbatim>\<open>tlv_node_t::over\<close>, the
  node accessors, the child iterator and \<^verbatim>\<open>read_trailer\<close>. The lemmas relate \<^verbatim>\<open>over\<close> to the reference
  parse (it accepts exactly the frames the recursive descent accepts, up to the depth its stack
  can hold, and returns every block it borrowed), and show that the iterator over a validated
  node yields the children of the parsed tree, one by one and without ever failing.
\<close>

unbundle bit_operations_syntax

section \<open>The target\<close>

text \<open>
  What the build fixes: the width of \<^verbatim>\<open>std::size_t\<close>, and the sizes and alignments of the records
  kept in blocks drawn from a source.
\<close>

record target =
  size_bits :: nat
  span_frame_size :: nat
  span_frame_align :: nat
  rope_frame_size :: nat
  rope_frame_align :: nat
  arena_node_size :: nat
  arena_node_align :: nat

definition target_ok :: "target \<Rightarrow> bool" where
  "target_ok tgt \<longleftrightarrow> 32 \<le> size_bits tgt \<and>
     request_ok (size_bits tgt) (span_frame_size tgt) (span_frame_align tgt) \<and>
     request_ok (size_bits tgt) (rope_frame_size tgt) (rope_frame_align tgt) \<and>
     request_ok (size_bits tgt) (arena_node_size tgt) (arena_node_align tgt)"

definition host64 :: target where
  "host64 = \<lparr>size_bits = 64, span_frame_size = 24, span_frame_align = 8, rope_frame_size = 56,
     rope_frame_align = 8, arena_node_size = 48, arena_node_align = 8\<rparr>"

definition rv32 :: target where
  "rv32 = \<lparr>size_bits = 32, span_frame_size = 12, span_frame_align = 4, rope_frame_size = 28,
     rope_frame_align = 4, arena_node_size = 28, arena_node_align = 4\<rparr>"

section \<open>Nodes\<close>

record tlv_node_t =
  nd_bytes :: bytes
  nd_type :: type_t
  nd_opt :: opt_t
  nd_header :: nat
  nd_length :: nat

definition node_of :: "header_t \<Rightarrow> bytes \<Rightarrow> tlv_node_t" where
  "node_of h b = \<lparr>nd_bytes = take (h_total h) b, nd_type = h_type h, nd_opt = h_opt h,
     nd_header = h_header h, nd_length = h_length h\<rparr>"

definition node_wire :: "tlv_node_t \<Rightarrow> bytes" where
  "node_wire n = take (nd_header n + nd_length n) (nd_bytes n)"

definition node_body :: "tlv_node_t \<Rightarrow> bytes" where
  "node_body n = subspan (nd_header n) (nd_length n) (nd_bytes n)"

definition node_payload :: "tlv_node_t \<Rightarrow> bytes" where
  "node_payload n = (if opt_pl (nd_opt n) then [] else node_body n)"

definition read_trailer :: "opt_t \<Rightarrow> bytes \<Rightarrow> nat \<Rightarrow> trailer_t option" where
  "read_trailer opt b trailer_at =
     (if \<not> opt_ts opt \<and> \<not> opt_cr opt then None
      else
        let ts = (if opt_ts opt then
                    (if opt_tf opt
                     then Some \<lparr>ts_relative = True, ts_value = scast (load_le (subspan trailer_at 4 b) :: 32 word)\<rparr>
                     else Some \<lparr>ts_relative = False, ts_value = load_le (subspan trailer_at 8 b)\<rparr>)
                  else None);
            at = (if opt_ts opt then (if opt_tf opt then trailer_at + 4 else trailer_at + 8) else trailer_at);
            crc = (if opt_cr opt then
                     (if opt_cw opt
                      then Some \<lparr>crc_width = CRC16_CCITT, crc_val = load_le (subspan at 2 b)\<rparr>
                      else Some \<lparr>crc_width = CRC32C, crc_val = load_le (subspan at 4 b)\<rparr>)
                   else None)
        in Some \<lparr>tr_ts = ts, tr_crc = crc\<rparr>)"

definition node_trailer :: "tlv_node_t \<Rightarrow> trailer_t option" where
  "node_trailer n = read_trailer (nd_opt n) (nd_bytes n) (nd_header n + nd_length n)"

text \<open>
  The child iterator: its unread rest and the cached front child. \<open>children_load\<close> is \<^verbatim>\<open>load()\<close>; an
  exhausted iterator has an empty rest.
\<close>

record children_iter =
  ci_rest :: bytes
  ci_front :: "tlv_node_t option"

definition children_load :: "target \<Rightarrow> bytes \<Rightarrow> children_iter" where
  "children_load tgt rest =
     (if rest = [] then \<lparr>ci_rest = rest, ci_front = None\<rparr>
      else case parse_header (size_bits tgt) span_cursor rest DEFER of
        Inl e \<Rightarrow> \<lparr>ci_rest = [], ci_front = None\<rparr>
      | Inr h \<Rightarrow> \<lparr>ci_rest = rest, ci_front = Some (node_of h rest)\<rparr>)"

definition children_next :: "target \<Rightarrow> children_iter \<Rightarrow> children_iter" where
  "children_next tgt it =
     (case ci_front it of
        None \<Rightarrow> it
      | Some f \<Rightarrow> children_load tgt (drop (length (nd_bytes f)) (ci_rest it)))"

definition children_begin :: "target \<Rightarrow> tlv_node_t \<Rightarrow> children_iter" where
  "children_begin tgt n = children_load tgt (if opt_pl (nd_opt n) then node_body n else [])"

text \<open>A range-for over the children: the nodes visited until the rest is empty.\<close>

partial_function (option) children_visit :: "target \<Rightarrow> children_iter \<Rightarrow> tlv_node_t list option" where
  "children_visit tgt it =
     (if ci_rest it = [] then Some []
      else case ci_front it of
        None \<Rightarrow> None
      | Some f \<Rightarrow> Option.bind (children_visit tgt (children_next tgt it)) (\<lambda>fs. Some (f # fs)))"

section \<open>Validation\<close>

record validate_sink =
  vs_root :: header_t
  vs_seen :: bool

definition header_zero :: header_t where
  "header_zero = \<lparr>h_type = 0, h_opt = opt_zero, h_header = 0, h_length = 0, h_ts_size = 0, h_crc_size = 0, h_total = 0\<rparr>"

definition validate_init :: validate_sink where
  "validate_init = \<lparr>vs_root = header_zero, vs_seen = False\<rparr>"

definition validate_keep :: "header_t \<Rightarrow> validate_sink \<Rightarrow> validate_sink" where
  "validate_keep h s = (if vs_seen s then s else s\<lparr>vs_root := h, vs_seen := True\<rparr>)"

definition validate_ops :: "(bytes, validate_sink, 'm) sink_ops" where
  "validate_ops = \<lparr>on_open = (\<lambda>h node (s, m). (validate_keep h s, m)),
     on_leaf = (\<lambda>h node (s, m). (validate_keep h s, m)), on_close = (\<lambda>sm. sm)\<rparr>"

definition span_env :: "target \<Rightarrow> 'm source_ops \<Rightarrow> (bytes, 'm) walk_env" where
  "span_env tgt src = \<lparr>we_width = size_bits tgt, we_ops = span_cursor, we_spill = Some src,
     we_frame_size = span_frame_size tgt, we_frame_align = span_frame_align tgt, we_policy = VERIFY\<rparr>"

text \<open>\<open>None\<close> would be a walk that does not return.\<close>

definition over :: "target \<Rightarrow> 'm source_ops \<Rightarrow> bytes \<Rightarrow> 'm \<Rightarrow> ((err_t + tlv_node_t) \<times> 'm) option" where
  "over tgt spill input m =
     (case walk (span_env tgt spill) validate_ops input (walk_stack 8) (validate_init, m) of
        None \<Rightarrow> None
      | Some (r, st, (s, m')) \<Rightarrow>
          Some (case r of Some e \<Rightarrow> Inl e | None \<Rightarrow> Inr (node_of (vs_root s) input),
                ws_destroy (span_env tgt spill) st m'))"

section \<open>What \<^verbatim>\<open>over\<close> accepts\<close>

interpretation validate_walk: walk_client span_cursor "\<lambda>_. True" "\<lambda>buf. buf" validate_ops validate_ops
  by unfold_locales (simp_all add: validate_ops_def)

lemma play_seen: "vs_seen s \<Longrightarrow> play validate_ops es (s, m) = (s, m)"
proof (induction es arbitrary: s m)
  case (Cons ev es)
  then show ?case by (cases ev) (simp_all add: validate_ops_def validate_keep_def)
qed simp

lemma run_seen:
  "vs_seen s \<Longrightarrow> run_events env validate_ops es r st (s, m) = (r', st', (s', m')) \<Longrightarrow> s' = s"
proof (induction es arbitrary: st m)
  case (Cons ev es)
  then show ?case
    by (cases ev) (auto simp: validate_ops_def validate_keep_def Let_def split: prod.splits if_splits)
qed simp

text \<open>The first hook of a frame is its root's.\<close>

lemma frame_events_root:
  "frame_events policy b = (es, None) \<Longrightarrow> \<exists>h es'. header_of policy b = Inr h \<and> (es = Ev_open h b # es' \<or> es = Ev_leaf h b # es')"
  by (auto simp: frame_events_def split: sum.splits if_splits prod.splits)

lemma run_root:
  assumes "es = Ev_open h b # es' \<or> es = Ev_leaf h b # es'"
    and "run_events env validate_ops es r st (validate_init, m) = (r', st', (s', m'))"
  shows "vs_root s' = h"
proof -
  define s1 where "s1 = validate_keep h validate_init"
  have s1: "vs_seen s1" "vs_root s1 = h" by (simp_all add: s1_def validate_keep_def validate_init_def)
  from assms have "s' = s1"
    using run_seen [OF s1(1)]
    by (auto simp: validate_ops_def s1_def [symmetric] Let_def split: prod.splits if_splits)
  then show ?thesis using s1 by simp
qed

text \<open>What the call leaves behind does not depend on what the stack's frames hold.\<close>

lemma ws_destroy_shape: "ws_destroy env (ws_shape st) m = ws_destroy env st m"
  by (simp add: ws_destroy_def ws_shape_def split: option.split)

lemma ws_shape_empty: "ws_shape (walk_stack n) = walk_stack n"
  by (simp add: ws_shape_def walk_stack_def)

lemma walk_stack_empty: "ws_frames (walk_stack n) = []"
  by (simp add: walk_stack_def)

text \<open>\<^verbatim>\<open>over\<close> always returns, with the outcome of performing the hooks of the reference.\<close>

lemma over_runs:
  assumes "target_ok tgt" and "length input < 2 ^ size_bits tgt" and "frame_events VERIFY input = (es, e)"
    and "run_events (span_env tgt src) validate_ops es e (walk_stack 8) (validate_init, m) = (r, st, (s, m'))"
  shows "over tgt src input m =
    Some (case r of Some x \<Rightarrow> Inl x | None \<Rightarrow> Inr (node_of (vs_root s) input), ws_destroy (span_env tgt src) st m')"
proof -
  have env: "we_ops (span_env tgt src) = span_cursor" "32 \<le> we_width (span_env tgt src)"
    "length input < 2 ^ we_width (span_env tgt src)" "we_policy (span_env tgt src) = VERIFY"
    using assms(1,2) by (simp_all add: span_env_def target_ok_def)
  obtain r1 st1 sm1 where w: "walk (span_env tgt src) validate_ops input (walk_stack 8) (validate_init, m) = Some (r1, st1, sm1)"
    and run: "run_events (span_env tgt src) validate_ops es e (ws_shape (walk_stack 8 :: bytes walk_stack_t)) (validate_init, m) = (r1, ws_shape st1, sm1)"
    using validate_walk.walk_spec [OF env(1,2) TrueI env(3), of "walk_stack 8" es e "(validate_init, m)"] assms(3) env(4)
    by (metis walk_stack_empty)
  have "r1 = r" "ws_shape st1 = st" "sm1 = (s, m')" using run assms(4) by (simp_all add: ws_shape_empty)
  then show ?thesis using w ws_destroy_shape [of "span_env tgt src" st1 m'] by (simp add: over_def)
qed

lemma parse_frame_header: "parse_frame policy b = Inr t \<Longrightarrow> header_of policy b = Inr (tree_header t) \<and> tree_bytes t = b"
  by (auto simp: parse_frame_def split: sum.splits if_splits)

lemma tree_events_root:
  "\<exists>es'. tree_events t = Ev_open (tree_header t) (tree_bytes t) # es' \<or> tree_events t = Ev_leaf (tree_header t) (tree_bytes t) # es'"
  by (cases t) simp

lemma event_depth_tree_0: "event_depth 0 (tree_events t) = tree_depth t"
  using event_depth_tree [of 0 t "[]"] by simp

text \<open>On a frame the reference rejects, the result is that rejection or a refused spill.\<close>

lemma over_rejects:
  assumes "target_ok tgt" and "length input < 2 ^ size_bits tgt" and "parse_frame VERIFY input = Inl e"
  shows "\<exists>m'. over tgt src input m = Some (Inl e, m') \<or> over tgt src input m = Some (Inl TLV_NESTING_TOO_DEEP, m')"
proof -
  obtain es where ev: "frame_events VERIFY input = (es, Some e)" using frame_events_parse [of VERIFY input] assms(3) by auto
  obtain r st s m' where run: "run_events (span_env tgt src) validate_ops es (Some e) (walk_stack 8) (validate_init, m) = (r, st, (s, m'))"
    by (metis prod_cases3)
  have "r = Some e \<or> r = Some TLV_NESTING_TOO_DEEP"
    using run_events_outcome [of "span_env tgt src" validate_ops es "Some e" "walk_stack 8" "(validate_init, m)"] run by simp
  then show ?thesis using over_runs [OF assms(1,2) ev run] by auto
qed

lemma over_accepts:
  assumes "target_ok tgt" and "length input < 2 ^ size_bits tgt" and "parse_frame VERIFY input = Inr t"
  shows "\<exists>m'. over tgt src input m = Some (Inr (node_of (tree_header t) input), m') \<or>
              over tgt src input m = Some (Inl TLV_NESTING_TOO_DEEP, m')"
proof -
  have ev: "frame_events VERIFY input = (tree_events t, None)" using frame_events_parse [of VERIFY input] assms(3) by simp
  obtain r st s m' where run: "run_events (span_env tgt src) validate_ops (tree_events t) None (walk_stack 8) (validate_init, m) = (r, st, (s, m'))"
    by (metis prod_cases3)
  have "vs_root s = tree_header t" using run_root [OF _ run] tree_events_root [of t] by blast
  moreover have "r = None \<or> r = Some TLV_NESTING_TOO_DEEP"
    using run_events_outcome [of "span_env tgt src" validate_ops "tree_events t" None "walk_stack 8" "(validate_init, m)"] run by simp
  ultimately show ?thesis using over_runs [OF assms(1,2) ev run] by auto
qed

text \<open>Within the inline slots the source is not touched, and the outcome is the reference's.\<close>

lemma play_validate:
  "snd (play validate_ops es sm) = snd sm"
proof (induction es arbitrary: sm)
  case (Cons ev es)
  then show ?case by (cases ev; cases sm) (simp_all add: validate_ops_def)
qed simp

lemma over_inline:
  assumes "target_ok tgt" and "length input < 2 ^ size_bits tgt" and "frame_events VERIFY input = (es, e)" and "event_depth 0 es \<le> 8"
  shows "over tgt src input m =
    Some (case parse_frame VERIFY input of Inl x \<Rightarrow> Inl x | Inr t \<Rightarrow> Inr (node_of (tree_header t) input), m)"
proof -
  let ?env = "span_env tgt src"
  obtain s m' where play: "play validate_ops es (validate_init, m) = (s, m')" by fastforce
  have m': "m' = m" using play_validate [of es "(validate_init, m)"] play by simp
  obtain fs where run: "run_events ?env validate_ops es e (walk_stack 8) (validate_init, m) = (e, (walk_stack 8)\<lparr>ws_frames := fs\<rparr>, (s, m'))"
    using run_events_room [of "walk_stack 8" es ?env validate_ops e "(validate_init, m)"] assms(4) play
    by (auto simp: walk_stack_def)
  have d: "ws_destroy ?env ((walk_stack 8)\<lparr>ws_frames := fs\<rparr> :: unit walk_stack_t) m' = m"
    by (simp add: ws_destroy_def walk_stack_def m' split: option.split)
  note over = over_runs [OF assms(1-3) run, unfolded d]
  show ?thesis
  proof (cases "parse_frame VERIFY input")
    case (Inl x)
    then have "e = Some x" using frame_events_parse [of VERIFY input] assms(3) by auto
    then show ?thesis using over Inl by simp
  next
    case (Inr t)
    then have ev: "es = tree_events t" "e = None" using frame_events_parse [of VERIFY input] assms(3) by simp_all
    have "vs_root s = tree_header t" using run_root [OF _ run] tree_events_root [of t] ev by blast
    then show ?thesis using over Inr ev by simp
  qed
qed

text \<open>With a source that refuses nothing, depth is no obstacle.\<close>

lemma over_grants:
  assumes "target_ok tgt" and "length input < 2 ^ size_bits tgt" and "always_grants src"
  shows "\<exists>m'. over tgt src input m =
    Some (case parse_frame VERIFY input of Inl x \<Rightarrow> Inl x | Inr t \<Rightarrow> Inr (node_of (tree_header t) input), m')"
proof -
  let ?env = "span_env tgt src"
  obtain es e where ev: "frame_events VERIFY input = (es, e)" by fastforce
  obtain r st s m' where run: "run_events ?env validate_ops es e (walk_stack 8) (validate_init, m) = (r, st, (s, m'))"
    by (metis prod_cases3)
  have "we_spill ?env = Some src" by (simp add: span_env_def)
  then have r: "r = e" using run_events_grants [of ?env src validate_ops es e "walk_stack 8" "(validate_init, m)"] assms(3) run by simp
  note over = over_runs [OF assms(1,2) ev run]
  show ?thesis
  proof (cases "parse_frame VERIFY input")
    case (Inl x)
    then have "e = Some x" using frame_events_parse [of VERIFY input] ev by auto
    then show ?thesis using over Inl r by simp
  next
    case (Inr t)
    then have tr: "es = tree_events t" "e = None" using frame_events_parse [of VERIFY input] ev by simp_all
    have "vs_root s = tree_header t" using run_root [OF _ run] tree_events_root [of t] tr by blast
    then show ?thesis using over Inr r tr by simp
  qed
qed

text \<open>With a source that grants nothing, a deeper frame is refused.\<close>

lemma null_no_grow: "\<not> fst (ws_grow (span_env tgt null_source) st m)"
  by (simp add: ws_grow_def span_env_def null_source_def Let_def)

lemma over_null_deep:
  assumes "target_ok tgt" and "length input < 2 ^ size_bits tgt" and "frame_events VERIFY input = (es, e)" and "8 < event_depth 0 es"
  shows "\<exists>m'. over tgt null_source input m = Some (Inl TLV_NESTING_TOO_DEEP, m')"
proof -
  let ?env = "span_env tgt null_source"
  obtain r st s m' where run: "run_events ?env validate_ops es e (walk_stack 8) (validate_init, m) = (r, st, (s, m'))"
    by (metis prod_cases3)
  have "fst (run_events ?env validate_ops es e (walk_stack 8) (validate_init, m)) = Some TLV_NESTING_TOO_DEEP"
    using assms(4) by (intro run_events_too_deep [OF null_no_grow]) (simp_all add: walk_stack_def)
  then show ?thesis using over_runs [OF assms(1-3) run] run by simp
qed

text \<open>Whatever the outcome, every block borrowed for the stack is back.\<close>

lemma validate_owns: "sink_owns live (\<lambda>_. {}) (validate_ops :: (bytes, validate_sink, 'm) sink_ops)"
  by (simp add: sink_owns_def keeps_own_def validate_ops_def)

context block_source
begin

lemma ws_destroy_owned:
  assumes "we_spill env = Some ops" and "inv m (K \<union> ws_block env st)" and "K \<inter> ws_block env st = {}"
  shows "inv (ws_destroy env st m) K"
proof (cases "ws_spilled st")
  case True
  let ?b = "(ws_data st, ws_cap st * we_frame_size env, we_frame_align env)"
  have b: "ws_block env st = {?b}" using True by (simp add: ws_block_def)
  have "inv (release ops m (ws_data st) (ws_cap st * we_frame_size env) (we_frame_align env)) (K \<union> ws_block env st - {?b})"
    by (rule release_live [OF assms(2)]) (simp add: b)
  moreover have "K \<union> ws_block env st - {?b} = K" using assms(3) b by auto
  ultimately show ?thesis using True assms(1) by (simp add: ws_destroy_def)
qed (use assms in \<open>simp add: ws_destroy_def ws_block_def\<close>)

lemma over_owned:
  assumes "target_ok tgt" and "size_bits tgt = w" and "length input < 2 ^ w" and "inv m L"
    and "over tgt ops input m = Some (r, m')"
  shows "inv m' L"
proof -
  let ?env = "span_env tgt ops"
  obtain es e where ev: "frame_events VERIFY input = (es, e)" by fastforce
  obtain r1 st s m1 where run: "run_events ?env validate_ops es e (walk_stack 8) (validate_init, m) = (r1, st, (s, m1))"
    by (metis prod_cases3)
  have env: "we_spill ?env = Some ops" "request_ok w (we_frame_size ?env) (we_frame_align ?env)"
    using assms(1,2) by (simp_all add: span_env_def target_ok_def)
  have "ws_block ?env (walk_stack 8 :: unit walk_stack_t) = {}" by (simp add: ws_block_def walk_stack_def)
  then have "inv m1 (L \<union> ws_block ?env st) \<and> L \<inter> ws_block ?env st = {}"
    using run_events_owned [OF env validate_owns _ _ _ run, of L] assms(4) by simp
  then have "inv (ws_destroy ?env st m1) L" using ws_destroy_owned [OF env(1)] by blast
  moreover have "m' = ws_destroy ?env st m1" using over_runs [OF assms(1) _ ev run] assms(2,3,5) by simp
  ultimately show ?thesis by simp
qed

end

section \<open>The children of a node\<close>

definition tree_node :: "tlv_tree \<Rightarrow> tlv_node_t" where
  "tree_node t = node_of (tree_header t) (tree_bytes t)"

lemma children_load_header:
  assumes "target_ok tgt" and "length b < 2 ^ size_bits tgt" and "b \<noteq> []"
  shows "children_load tgt b = (case header_of DEFER b of
      Inl e \<Rightarrow> \<lparr>ci_rest = [], ci_front = None\<rparr> | Inr h \<Rightarrow> \<lparr>ci_rest = b, ci_front = Some (node_of h b)\<rparr>)"
  using assms span_cur.parse_header_spec [of "size_bits tgt" b DEFER] by (simp add: children_load_def target_ok_def)

text \<open>The iterator yields the trees of a region that parses, in order, and returns.\<close>

lemma children_visit_forest:
  assumes tgt: "target_ok tgt" and "length b < 2 ^ size_bits tgt" and "parse_forest VERIFY b = Inr ts"
  shows "children_visit tgt (children_load tgt b) = Some (map tree_node ts)"
  using assms(2,3)
proof (induction VERIFY b arbitrary: ts rule: parse_forest.induct)
  case (1 b)
  show ?case
  proof (cases "b = []")
    case True
    then show ?thesis
      using "1.prems" by (simp add: parse_forest.simps [of VERIFY "[]"] children_load_def children_visit.simps)
  next
    case False
    from "1.prems"(2) False obtain h kids sibs where h: "header_of VERIFY b = Inr h"
      and kids: "(if opt_pl (h_opt h) then parse_forest VERIFY (subspan (h_header h) (h_length h) b) else Inr []) = Inr kids"
      and sibs: "parse_forest VERIFY (drop (h_total h) b) = Inr sibs" and ts: "ts = Tree h (take (h_total h) b) kids # sibs"
      by (subst (asm) parse_forest.simps) (auto split: sum.splits)
    have it: "children_load tgt b = \<lparr>ci_rest = b, ci_front = Some (node_of h b)\<rparr>"
      using children_load_header [OF tgt "1.prems"(1) False] header_of_DEFER [OF h] by simp
    have "length (nd_bytes (node_of h b)) = h_total h" using header_of_Inr(6) [OF h] by (simp add: node_of_def)
    then have "children_next tgt (children_load tgt b) = children_load tgt (drop (h_total h) b)"
      by (simp add: it children_next_def)
    moreover have "children_visit tgt (children_load tgt (drop (h_total h) b)) = Some (map tree_node sibs)"
      using "1.hyps"(2) [OF False h kids] sibs "1.prems"(1) by simp
    moreover have "tree_node (Tree h (take (h_total h) b) kids) = node_of h b"
      by (simp add: tree_node_def node_of_def)
    ultimately show ?thesis
      using False by (subst children_visit.simps) (simp add: it ts)
  qed
qed

lemma node_body_tree: "header_of policy b = Inr h \<Longrightarrow> node_body (node_of h b) = subspan (h_header h) (h_length h) b"
  using header_sized_bounds(3) [OF header_of_Inr(8)]
  by (fastforce simp: node_body_def node_of_def subspan_def drop_take min_def)

lemma children_visit_tree:
  assumes "target_ok tgt" and "length b < 2 ^ size_bits tgt" and "parse_frame VERIFY b = Inr t"
  shows "children_visit tgt (children_begin tgt (tree_node t)) = Some (map tree_node (tree_children t))"
proof -
  from assms(3) obtain h kids where h: "header_of VERIFY b = Inr h" and t: "t = Tree h b kids"
    and kids: "(if opt_pl (h_opt h) then parse_forest VERIFY (subspan (h_header h) (h_length h) b) else Inr []) = Inr kids"
    by (auto simp: parse_frame_def split: sum.splits if_splits)
  have n: "tree_node t = node_of h b" "nd_opt (node_of h b) = h_opt h" by (simp_all add: t tree_node_def node_of_def)
  show ?thesis
  proof (cases "opt_pl (h_opt h)")
    case True
    have "length (subspan (h_header h) (h_length h) b) < 2 ^ size_bits tgt"
      using forest_body_shorter [OF h] assms(2) by (rule less_trans)
    then show ?thesis
      using children_visit_forest [OF assms(1)] kids True
      by (simp add: n children_begin_def node_body_tree [OF h] del: length_subspan) (simp add: t)
  next
    case False
    then show ?thesis using kids by (simp add: t children_begin_def n(2) tree_node_def node_of_def children_load_def children_visit.simps)
  qed
qed

end
