(* ===== verification/Codec.thy ===== *)
theory Codec
  imports Reader
begin

text \<open>
  The encoder and the reader against each other. A consumer that reads a validated node through
  its accessors, child by child, sees a tree (\<open>node_reads\<close>). The lemmas show that every tree the
  encoder accepts is read back from its bytes, up to the normal form the wire imposes, and that
  re-encoding what was read from any accepted frame gives that frame back, byte for byte.
\<close>

unbundle bit_operations_syntax

section \<open>Reading a node\<close>

text \<open>
  A consumer of a node: it takes the type, the options, the payload and the trailer, ranges over
  the children, and reads each of them the same way.
\<close>

inductive node_reads :: "target \<Rightarrow> tlv_node_t \<Rightarrow> tlv_t \<Rightarrow> bool" for tgt where
  read: "children_visit tgt (children_begin tgt n) = Some ns \<Longrightarrow> list_all2 (node_reads tgt) ns vs \<Longrightarrow>
    node_reads tgt n (Tlv (nd_type n) (nd_opt n) (node_payload n) vs (node_trailer n))"

primrec tree_tlv :: "tlv_tree \<Rightarrow> tlv_t" where
  "tree_tlv (Tree h b kids) =
     Tlv (h_type h) (h_opt h) (node_payload (node_of h b)) (map tree_tlv kids) (node_trailer (node_of h b))"

text \<open>Every tree of a parsed region is itself the parse of its own bytes.\<close>

lemma parse_forest_Cons:
  assumes "parse_forest policy b = Inr ts" and "b \<noteq> []"
  obtains h kids sibs where "header_of policy b = Inr h" and "parse_forest policy (drop (h_total h) b) = Inr sibs"
    and "(if opt_pl (h_opt h) then parse_forest policy (subspan (h_header h) (h_length h) b) else Inr []) = Inr kids"
    and "ts = Tree h (take (h_total h) b) kids # sibs"
  using assms by (subst (asm) parse_forest.simps) (auto split: sum.splits)

lemma parse_frame_take:
  assumes h: "header_of policy b = Inr h"
    and kids: "(if opt_pl (h_opt h) then parse_forest policy (subspan (h_header h) (h_length h) b) else Inr []) = Inr kids"
  shows "parse_frame policy (take (h_total h) b) = Inr (Tree h (take (h_total h) b) kids)"
proof -
  have "subspan (h_header h) (h_length h) (take (h_total h) b) = subspan (h_header h) (h_length h) b"
    using header_sized_bounds(3) [OF header_of_Inr(8) [OF h]] by (simp add: subspan_def drop_take min_def)
  then show ?thesis
    using header_of_take [OF h order_refl] header_of_Inr(6) [OF h] kids
    by (cases "opt_pl (h_opt h)") (simp_all add: parse_frame_def)
qed

lemma parse_forest_members:
  "parse_forest policy b = Inr ts \<Longrightarrow> t \<in> set ts \<Longrightarrow>
     parse_frame policy (tree_bytes t) = Inr t \<and> length (tree_bytes t) \<le> length b"
proof (induction policy b arbitrary: ts rule: parse_forest.induct)
  case (1 policy b)
  show ?case
  proof (cases "b = []")
    case True
    then show ?thesis using "1.prems" by (simp add: parse_forest.simps [of policy "[]"])
  next
    case False
    obtain h kids sibs where h: "header_of policy b = Inr h" and sibs: "parse_forest policy (drop (h_total h) b) = Inr sibs"
      and kids: "(if opt_pl (h_opt h) then parse_forest policy (subspan (h_header h) (h_length h) b) else Inr []) = Inr kids"
      and ts: "ts = Tree h (take (h_total h) b) kids # sibs"
      by (rule parse_forest_Cons [OF "1.prems"(1) False])
    show ?thesis
    proof (cases "t \<in> set sibs")
      case True
      then have "length (tree_bytes t) \<le> length (drop (h_total h) b)" "parse_frame policy (tree_bytes t) = Inr t"
        using "1.IH"(2) [OF False h kids sibs] by simp_all
      then show ?thesis by simp
    next
      case False
      then have t: "t = Tree h (take (h_total h) b) kids" using "1.prems"(2) ts by simp
      show ?thesis using parse_frame_take [OF h kids] by (simp add: t)
    qed
  qed
qed

lemma parse_frame_total: "parse_frame policy b = Inr t \<Longrightarrow> h_total (tree_header t) = length b"
  by (auto simp: parse_frame_def split: sum.splits if_splits)

lemma parse_frame_kids:
  assumes "parse_frame policy b = Inr t" and "c \<in> set (tree_children t)"
  shows "parse_frame policy (tree_bytes c) = Inr c \<and> length (tree_bytes c) < length b"
proof -
  from assms(1) obtain h kids where h: "header_of policy b = Inr h" and t: "t = Tree h b kids"
    and kids: "(if opt_pl (h_opt h) then parse_forest policy (subspan (h_header h) (h_length h) b) else Inr []) = Inr kids"
    by (auto simp: parse_frame_def split: sum.splits if_splits)
  have "parse_forest policy (subspan (h_header h) (h_length h) b) = Inr kids" using kids assms(2) t by (simp split: if_splits)
  from parse_forest_members [OF this, of c] show ?thesis
    using assms(2) t forest_body_shorter [OF h] by (auto simp del: length_subspan)
qed

lemma node_reads_tree:
  "target_ok tgt \<Longrightarrow> parse_frame VERIFY (tree_bytes t) = Inr t \<Longrightarrow> length (tree_bytes t) < 2 ^ size_bits tgt \<Longrightarrow>
     node_reads tgt (tree_node t) (tree_tlv t)"
proof (induction t)
  case (Tree h b kids)
  let ?t = "Tree h b kids"
  have kids: "list_all2 (node_reads tgt) (map tree_node kids) (map tree_tlv kids)"
    using Tree parse_frame_kids [OF Tree.prems(2)] by (auto simp: list_all2_map1 list_all2_map2 list_all2_same) (meson less_trans)
  have "children_visit tgt (children_begin tgt (tree_node ?t)) = Some (map tree_node kids)"
    using children_visit_tree [OF Tree.prems(1) Tree.prems(3,2)] by simp
  from node_reads.read [OF this kids] show ?case by (simp add: tree_node_def) (simp add: node_of_def)
qed

lemma list_all2_functional:
  "list_all2 (\<lambda>x y. P x y \<and> (\<forall>z. P x z \<longrightarrow> z = y)) xs ys \<Longrightarrow> list_all2 P xs zs \<Longrightarrow> zs = ys"
proof (induction arbitrary: zs rule: list_all2_induct)
  case (Cons x xs y ys)
  from Cons.prems obtain z zs' where zs: "zs = z # zs'" "P x z" "list_all2 P xs zs'" by (auto simp: list_all2_Cons1)
  then show ?case using Cons.IH Cons.hyps by blast
qed simp

text \<open>What is read is determined by the node.\<close>

lemma node_reads_unique: "node_reads tgt n v \<Longrightarrow> node_reads tgt n v' \<Longrightarrow> v' = v"
proof (induction arbitrary: v' rule: node_reads.induct)
  case (read n ns vs)
  from read.prems obtain vs' where v': "v' = Tlv (nd_type n) (nd_opt n) (node_payload n) vs' (node_trailer n)"
    and "list_all2 (node_reads tgt) ns vs'"
    using read.hyps(1) by (auto elim: node_reads.cases)
  then have "vs' = vs" using list_all2_functional [OF read.IH] by blast
  then show ?case by (simp add: v')
qed

section \<open>The wire form of what was read\<close>

lemma widen_sized: "header_sized h \<Longrightarrow> widen (h_opt h) (h_length h) = h_opt h"
  by (auto simp: widen_def header_sized_def length_bytes_def split: if_splits)

lemma ucast_scast_down: "(ucast (scast (x :: 32 word) :: 64 word) :: 32 word) = x"
proof (rule bit_word_eqI)
  fix n assume "n < LENGTH(32)"
  then have "n < 31 \<or> n = 31" by auto
  then show "bit (ucast (scast x :: 64 word) :: 32 word) n = bit x n"
    by (auto simp: bit_unsigned_iff bit_signed_iff min_def)
qed

lemma node_trailer_stamp:
  assumes h: "header_of policy b = Inr h"
  shows "opt_ts (h_opt h) \<Longrightarrow> \<exists>tr ts. node_trailer (node_of h b) = Some tr \<and> tr_ts tr = Some ts \<and>
      ts_relative ts = opt_tf (h_opt h) \<and> ts_image (opt_tf (h_opt h)) (ts_value ts) = subspan (h_header h + h_length h) (h_ts_size h) b"
proof -
  assume ts: "opt_ts (h_opt h)"
  note f = header_of_Inr [OF h]
  have sz: "h_ts_size h = ts_size_of (h_opt h)" using f(8) by (simp add: header_sized_def)
  define s where "s = subspan (h_header h + h_length h) (h_ts_size h) b"
  have len: "length s = h_ts_size h"
    using header_sized_bounds(4) [OF f(8)] f(6) by (simp add: s_def)
  have win: "subspan (h_header h + h_length h) k (take (h_total h) b) = s" if "k = h_ts_size h" for k
    using header_sized_bounds(4) [OF f(8)] that by (simp add: s_def subspan_def drop_take min_def)
  show ?thesis
  proof (cases "opt_tf (h_opt h)")
    case True
    then have k: "h_ts_size h = 4" using sz ts by (simp add: ts_size_of_def)
    have "le_bytes (ucast (scast (load_le s :: 32 word) :: 64 word) :: 32 word) 4 = s"
      using len k by (simp add: le_bytes_load_le ucast_scast_down)
    then show ?thesis
      using True ts win [of 4] k
      by (simp add: node_trailer_def node_of_def read_trailer_def Let_def ts_image_def) (simp add: s_def)
  next
    case False
    then have k: "h_ts_size h = 8" using sz ts by (simp add: ts_size_of_def)
    have "le_bytes (load_le s :: 64 word) 8 = s" using len k by (simp add: le_bytes_load_le)
    then show ?thesis
      using False ts win [of 8] k
      by (simp add: node_trailer_def node_of_def read_trailer_def Let_def ts_image_def) (simp add: s_def)
  qed
qed

lemma crc_image_stored:
  assumes h: "header_of VERIFY b = Inr h"
  shows "crc_image (h_opt h) (subspan (h_header h) (h_length h + h_ts_size h) b) =
    subspan (h_header h + h_length h + h_ts_size h) (h_crc_size h) b"
proof (cases "opt_cr (h_opt h)")
  case False
  then show ?thesis using header_of_Inr(8) [OF h] by (simp add: crc_image_def header_sized_def crc_size_of_def)
next
  case True
  note f = header_of_Inr [OF h]
  define s where "s = subspan (h_header h + h_length h + h_ts_size h) (h_crc_size h) b"
  define c where "c = subspan (h_header h) (h_length h + h_ts_size h) b"
  have sz: "h_crc_size h = crc_size_of (h_opt h)" "length s = h_crc_size h"
    using f(6,8) by (simp_all add: s_def header_sized_def)
  note holds = f(7) [OF True refl, unfolded crc_holds_def Let_def, folded s_def c_def]
  show ?thesis
  proof (cases "opt_cw (h_opt h)")
    case w: True
    have len: "length s = 2" using sz True w by (simp add: crc_size_of_def)
    then have "ucast (crc16_ccitt c) = (load_le s :: 32 word)" using holds w by (simp add: ucast_load_le)
    then show ?thesis using len True w by (simp add: crc_image_def crc_bytes_def le_bytes_load_le s_def [symmetric] c_def [symmetric])
  next
    case w: False
    have len: "length s = 4" using sz True w by (simp add: crc_size_of_def)
    then show ?thesis
      using holds True w by (simp add: crc_image_def crc_bytes_def le_bytes_load_le s_def [symmetric] c_def [symmetric])
  qed
qed

text \<open>A frame is its header, body, stamp and checksum.\<close>

lemma frame_parts:
  assumes h: "header_of VERIFY b = Inr h" and tot: "h_total h = length b"
    and stamp: "stamp = subspan (h_header h + h_length h) (h_ts_size h) b"
  shows "wire_image (h_type h) (h_opt h) (subspan (h_header h) (h_length h) b) stamp = b"
proof -
  note f = header_of_Inr [OF h]
  have sz: "h_total h = h_header h + h_length h + h_ts_size h + h_crc_size h" using f(8) by (simp add: header_sized_def)
  have len: "length (subspan (h_header h) (h_length h) b) = h_length h" using sz tot by simp
  have "wire_image (h_type h) (h_opt h) (subspan (h_header h) (h_length h) b) stamp =
      take (h_header h) b @ subspan (h_header h) (h_length h) b @ subspan (h_header h + h_length h) (h_ts_size h) b @
      subspan (h_header h + h_length h + h_ts_size h) (h_crc_size h) b"
    unfolding wire_image_def len widen_sized [OF f(8)] header_image_of [OF h] stamp subspan_adjacent crc_image_stored [OF h] ..
  also have "\<dots> = take (h_header h) b @ subspan (h_header h) (h_length h + h_ts_size h + h_crc_size h) b"
    using subspan_adjacent [of "h_header h + h_length h" "h_ts_size h" b "h_crc_size h"]
      subspan_adjacent [of "h_header h" "h_length h" b "h_ts_size h + h_crc_size h"] by (simp add: add.assoc)
  also have "\<dots> = b" using sz tot by (simp add: subspan_def)
  finally show ?thesis .
qed

lemma parse_forest_bytes: "parse_forest policy b = Inr ts \<Longrightarrow> concat (map tree_bytes ts) = b"
proof (induction policy b arbitrary: ts rule: parse_forest.induct)
  case (1 policy b)
  show ?case
  proof (cases "b = []")
    case True
    then show ?thesis using "1.prems" by (simp add: parse_forest.simps [of policy "[]"])
  next
    case False
    obtain h kids sibs where h: "header_of policy b = Inr h" and sibs: "parse_forest policy (drop (h_total h) b) = Inr sibs"
      and kids: "(if opt_pl (h_opt h) then parse_forest policy (subspan (h_header h) (h_length h) b) else Inr []) = Inr kids"
      and ts: "ts = Tree h (take (h_total h) b) kids # sibs"
      by (rule parse_forest_Cons [OF "1.prems" False])
    show ?thesis using "1.IH"(2) [OF False h kids sibs] by (simp add: ts)
  qed
qed

lemma children_image_map:
  "(\<And>t. t \<in> set ts \<Longrightarrow> tlv_image (f t) = g t) \<Longrightarrow> children_image (map f ts) = concat (map g ts)"
  by (induction ts) simp_all

lemma children_bytes_map:
  "(\<And>t. t \<in> set ts \<Longrightarrow> tlv_bytes (f t) \<noteq> None) \<Longrightarrow> children_bytes (map f ts) \<noteq> None"
  by (induction ts) (auto split: option.splits)

lemma stamp_image_read:
  assumes "header_of policy b = Inr h"
  shows "stamp_image (h_opt h) (node_trailer (node_of h b)) = subspan (h_header h + h_length h) (h_ts_size h) b"
    and "\<not> ts_incoherent (h_opt h) (node_trailer (node_of h b))"
proof -
  have "h_ts_size h = 0" if "\<not> opt_ts (h_opt h)"
    using header_of_Inr(8) [OF assms] that by (simp add: header_sized_def ts_size_of_def)
  then show "stamp_image (h_opt h) (node_trailer (node_of h b)) = subspan (h_header h + h_length h) (h_ts_size h) b"
    using node_trailer_stamp [OF assms] by (auto simp: stamp_image_def)
  show "\<not> ts_incoherent (h_opt h) (node_trailer (node_of h b))"
    using node_trailer_stamp [OF assms] by (auto simp: ts_incoherent_def)
qed

text \<open>What is read from an accepted frame encodes to that frame.\<close>

lemma tree_tlv_image:
  "parse_frame VERIFY (tree_bytes t) = Inr t \<Longrightarrow>
     tlv_image (tree_tlv t) = tree_bytes t \<and> tlv_bytes (tree_tlv t) \<noteq> None"
proof (induction t)
  case (Tree h b kids)
  from Tree.prems have h: "header_of VERIFY b = Inr h" and tot: "h_total h = length b"
    and kids: "(if opt_pl (h_opt h) then parse_forest VERIFY (subspan (h_header h) (h_length h) b) else Inr []) = Inr kids"
    by (auto simp: parse_frame_def split: sum.splits if_splits)
  have IH: "tlv_image (tree_tlv c) = tree_bytes c" "tlv_bytes (tree_tlv c) \<noteq> None" if "c \<in> set kids" for c
    using Tree.IH [OF that] parse_frame_kids [OF Tree.prems, of c] that by simp_all
  have body: "(if opt_pl (h_opt h) then children_image (map tree_tlv kids) else node_payload (node_of h b)) =
      subspan (h_header h) (h_length h) b"
  proof (cases "opt_pl (h_opt h)")
    case True
    then have "concat (map tree_bytes kids) = subspan (h_header h) (h_length h) b"
      using parse_forest_bytes [of VERIFY "subspan (h_header h) (h_length h) b"] kids by simp
    then show ?thesis using True children_image_map [of kids tree_tlv tree_bytes, OF IH(1)] by simp
  next
    case False
    then show ?thesis using node_body_tree [OF h] by (simp add: node_payload_def) (simp add: node_of_def)
  qed
  have pr: "is_path_ref_type (h_type h) \<Longrightarrow> path_ref_body_valid (opt_pl (h_opt h)) (opt_ll (h_opt h)) (length (node_payload (node_of h b)))"
  proof -
    assume "is_path_ref_type (h_type h)"
    note v = header_of_Inr(5) [OF h this]
    then have "node_payload (node_of h b) = subspan (h_header h) (h_length h) b" using body by (simp add: path_ref_body_valid_def)
    moreover have "length (subspan (h_header h) (h_length h) b) = h_length h"
      using header_sized_bounds(3) [OF header_of_Inr(8) [OF h]] tot by simp
    ultimately show ?thesis using v by simp
  qed
  have "tlv_image (tree_tlv (Tree h b kids)) = b"
    using frame_parts [OF h tot stamp_image_read(1) [OF h]] body by simp
  moreover have "tlv_bytes (tree_tlv (Tree h b kids)) \<noteq> None"
    using pr stamp_image_read(2) [OF h] children_bytes_map [of kids tree_tlv, OF IH(2)]
    by (auto simp: body_bytes_of_def split: option.splits)
  ultimately show ?case by simp
qed

section \<open>The normal form of a tree\<close>

text \<open>
  What the wire keeps of a tree: the length bit is widened when the body needs it, an opaque node
  has no children and a structured one no payload, a relative stamp is truncated to 32 bits and
  the checksum is the one computed.
\<close>

definition norm_trailer :: "opt_t \<Rightarrow> trailer_t option \<Rightarrow> bytes \<Rightarrow> trailer_t option" where
  "norm_trailer opt trailer body =
     (if \<not> opt_ts opt \<and> \<not> opt_cr opt then None
      else
        let v = ts_value (the (tr_ts (the trailer)));
            covered = body @ stamp_image opt trailer
        in Some \<lparr>tr_ts = (if opt_ts opt
                          then Some \<lparr>ts_relative = opt_tf opt, ts_value = (if opt_tf opt then scast (ucast v :: 32 word) else v)\<rparr>
                          else None),
                 tr_crc = (if opt_cr opt
                           then Some (if opt_cw opt then \<lparr>crc_width = CRC16_CCITT, crc_val = ucast (crc16_ccitt covered)\<rparr>
                                      else \<lparr>crc_width = CRC32C, crc_val = crc32c covered\<rparr>)
                           else None)\<rparr>)"

primrec norm_tlv :: "tlv_t \<Rightarrow> tlv_t" where
  "norm_tlv (Tlv t opt payload cs trailer) =
     (let body = (if opt_pl opt then children_image cs else payload)
      in Tlv t (widen opt (length body)) (if opt_pl opt then [] else payload) (if opt_pl opt then map norm_tlv cs else [])
           (norm_trailer opt trailer body))"

text \<open>Type code 0 is not a TLV; the children of an opaque node are never written.\<close>

primrec tlv_typed :: "tlv_t \<Rightarrow> bool" and tlvs_typed :: "tlv_t list \<Rightarrow> bool" where
  "tlv_typed (Tlv t opt payload cs trailer) \<longleftrightarrow> t \<noteq> 0 \<and> (opt_pl opt \<longrightarrow> tlvs_typed cs)"
| "tlvs_typed [] \<longleftrightarrow> True"
| "tlvs_typed (c # cs) \<longleftrightarrow> tlv_typed c \<and> tlvs_typed cs"

primrec tlv_depth :: "tlv_t \<Rightarrow> nat" and tlvs_depth :: "tlv_t list \<Rightarrow> nat" where
  "tlv_depth (Tlv t opt payload cs trailer) = (if opt_pl opt then Suc (tlvs_depth cs) else 0)"
| "tlvs_depth [] = 0"
| "tlvs_depth (c # cs) = max (tlv_depth c) (tlvs_depth cs)"

text \<open>The parse tree of an encoded tree.\<close>

definition image_header :: "type_t \<Rightarrow> opt_t \<Rightarrow> nat \<Rightarrow> header_t" where
  "image_header t opt n =
     \<lparr>h_type = t, h_opt = widen opt n, h_header = header_bytes (widen opt n), h_length = n,
      h_ts_size = ts_size_of opt, h_crc_size = crc_size_of opt,
      h_total = header_bytes (widen opt n) + n + ts_size_of opt + crc_size_of opt\<rparr>"

primrec image_tree :: "tlv_t \<Rightarrow> tlv_tree" where
  "image_tree (Tlv t opt payload cs trailer) =
     (let body = (if opt_pl opt then children_image cs else payload)
      in Tree (image_header t opt (length body)) (wire_image t opt body (stamp_image opt trailer))
           (if opt_pl opt then map image_tree cs else []))"

lemma image_tree_bytes: "tree_bytes (image_tree v) = tlv_image v"
  by (cases v) (simp add: Let_def)

lemma widen_sizes [simp]:
  "opt_pl (widen opt n) = opt_pl opt" "opt_ts (widen opt n) = opt_ts opt" "opt_cr (widen opt n) = opt_cr opt"
  "opt_cw (widen opt n) = opt_cw opt" "opt_tf (widen opt n) = opt_tf opt"
  by (simp_all add: widen_def)

lemma widen_trailer_sizes [simp]: "ts_size_of (widen opt n) = ts_size_of opt" "crc_size_of (widen opt n) = crc_size_of opt"
  by (simp_all add: ts_size_of_def crc_size_of_def)

lemma widen_fits: "n < 2 ^ 32 \<Longrightarrow> n < 2 ^ (8 * length_bytes (widen opt n))"
  by (auto simp: widen_def length_bytes_def)

lemma load_crc_image:
  assumes "opt_cr opt"
  shows "if opt_cw opt then load_le (crc_image opt c) = crc16_ccitt c else load_le (crc_image opt c) = crc32c c"
    and "opt_cw opt \<Longrightarrow> load_le (crc_image opt c) = (ucast (crc16_ccitt c) :: 32 word)"
    and "\<not> opt_cw opt \<Longrightarrow> load_le (crc_image opt c) = crc32c c"
proof -
  have 16: "load_le (le_bytes (ucast (crc16_ccitt c) :: 32 word) 2) = crc16_ccitt c"
    by (simp add: load_le_le_bytes) (intro bit_word_eqI, auto simp: bit_simps)
  have 32: "load_le (le_bytes (ucast (crc16_ccitt c) :: 32 word) 2) = (ucast (crc16_ccitt c) :: 32 word)"
    by (simp add: load_le_le_bytes) (intro bit_word_eqI, auto simp: bit_simps dest: bit_imp_le_length)
  show "if opt_cw opt then load_le (crc_image opt c) = crc16_ccitt c else load_le (crc_image opt c) = crc32c c"
    "opt_cw opt \<Longrightarrow> load_le (crc_image opt c) = (ucast (crc16_ccitt c) :: 32 word)"
    "\<not> opt_cw opt \<Longrightarrow> load_le (crc_image opt c) = crc32c c"
    using assms 16 32 load_le_store_le_same [of 4 "crc32c c"] by (auto simp: crc_image_def crc_bytes_def)
qed

lemma header_of_wire:
  assumes "t \<noteq> 0" and "length body < 2 ^ 32" and "length stamp = ts_size_of opt"
    and "is_path_ref_type t \<Longrightarrow> path_ref_body_valid (opt_pl opt) (opt_ll opt) (length body)"
  shows "header_of policy (wire_image t opt body stamp @ rest) = Inr (image_header t opt (length body))"
proof -
  have "path_ref_body_valid (opt_pl (widen opt (length body))) (opt_ll (widen opt (length body))) (length body)"
    if "is_path_ref_type t"
    using assms(4) [OF that] by (auto simp: path_ref_body_valid_def widen_def)
  note pr = this
  have "header_of policy (header_image t (widen opt (length body)) (length body) @ body @ stamp @ crc_image opt (body @ stamp) @ rest) =
      Inr (image_header t opt (length body))"
    using header_of_assemble [OF assms(1) refl widen_fits [OF assms(2)] pr, of stamp "crc_image opt (body @ stamp)" policy rest]
      assms(3) load_crc_image(1) [of opt "body @ stamp"]
    by (cases "opt_cr opt") (simp_all add: image_header_def crc_bytes_size)
  then show ?thesis by (simp add: wire_image_def)
qed

lemma parse_forest_append:
  assumes "parse_frame policy a = Inr t" and "parse_forest policy r = Inr ts"
  shows "parse_forest policy (a @ r) = Inr (t # ts)"
proof -
  from assms(1) obtain h kids where h: "header_of policy a = Inr h" and t: "t = Tree h a kids" and tot: "h_total h = length a"
    and kids: "(if opt_pl (h_opt h) then parse_forest policy (subspan (h_header h) (h_length h) a) else Inr []) = Inr kids"
    by (auto simp: parse_frame_def split: sum.splits if_splits)
  have "header_of policy (a @ r) = Inr h" using tot by (intro header_of_prefix [OF h]) simp_all
  moreover have "subspan (h_header h) (h_length h) (a @ r) = subspan (h_header h) (h_length h) a"
    using header_sized_bounds(3) [OF header_of_Inr(8) [OF h]] tot by (simp add: span_simps)
  moreover have "a @ r \<noteq> []" using header_of_Inr(2) [OF h] by auto
  ultimately show ?thesis
    using kids assms(2) tot by (cases "opt_pl (h_opt h)") (simp_all add: parse_forest.simps [of policy "a @ r"] t)
qed

lemma parse_images:
  "(\<And>c. c \<in> set cs \<Longrightarrow> parse_frame policy (tlv_image c) = Inr (image_tree c)) \<Longrightarrow>
     parse_forest policy (children_image cs) = Inr (map image_tree cs)"
  by (induction cs) (simp_all add: parse_forest.simps [of policy "[]"] parse_forest_append)

lemma children_members:
  "c \<in> set cs \<Longrightarrow> children_bytes cs \<noteq> None \<Longrightarrow> tlv_bytes c \<noteq> None"
  "c \<in> set cs \<Longrightarrow> tlvs_typed cs \<Longrightarrow> tlv_typed c"
  "c \<in> set cs \<Longrightarrow> length (tlv_image c) \<le> length (children_image cs)"
  by (induction cs) (auto split: option.splits)

text \<open>The parts of a tree the encoder accepts.\<close>

lemma tlv_bytes_parts:
  assumes "tlv_bytes (Tlv t opt payload cs trailer) \<noteq> None" and "body = (if opt_pl opt then children_image cs else payload)"
  shows "opt_pl opt \<Longrightarrow> children_bytes cs \<noteq> None" and "\<not> ts_incoherent opt trailer"
    and "is_path_ref_type t \<Longrightarrow> path_ref_body_valid (opt_pl opt) (opt_ll opt) (length body)"
  using assms by (auto simp: body_bytes_of_def path_ref_body_valid_def split: if_splits option.splits)

lemma length_body_wire: "length body \<le> length (wire_image t opt body stamp)"
  by (simp add: length_wire_image)

lemma parse_image:
  "tlv_bytes v \<noteq> None \<Longrightarrow> tlv_typed v \<Longrightarrow> length (tlv_image v) < 2 ^ 32 \<Longrightarrow>
     parse_frame policy (tlv_image v) = Inr (image_tree v)"
proof (induction v)
  case (Tlv t opt payload cs trailer)
  define body where "body = (if opt_pl opt then children_image cs else payload)"
  define b where "b = wire_image t opt body (stamp_image opt trailer)"
  let ?h = "image_header t opt (length body)"
  note parts = tlv_bytes_parts [OF Tlv.prems(1) body_def]
  have img: "tlv_image (Tlv t opt payload cs trailer) = b" by (simp add: b_def body_def)
  then have small: "length body < 2 ^ 32"
    using Tlv.prems(3) length_body_wire [of body t opt "stamp_image opt trailer"] by (simp add: b_def)
  have h: "header_of policy b = Inr ?h"
  proof -
    have "header_of policy (wire_image t opt body (stamp_image opt trailer) @ []) = Inr ?h"
      using Tlv.prems(2) by (intro header_of_wire small stamp_size parts(3)) simp_all
    then show ?thesis by (simp add: b_def)
  qed
  have tot: "h_total ?h = length b"
    by (simp add: b_def image_header_def length_wire_image stamp_size crc_bytes_size del: length_stamp_image)
  have sub: "subspan (h_header ?h) (h_length ?h) b = body"
    by (simp add: b_def wire_image_def image_header_def)
  have kids: "parse_forest policy body = Inr (map image_tree cs)" if pl: "opt_pl opt"
  proof -
    have "parse_frame policy (tlv_image c) = Inr (image_tree c)" if c: "c \<in> set cs" for c
    proof (rule Tlv.IH [OF c])
      show "tlv_bytes c \<noteq> None" using children_members(1) [OF c] parts(1) [OF pl] by simp
      show "tlv_typed c" using children_members(2) [OF c] Tlv.prems(2) pl by simp
      show "length (tlv_image c) < 2 ^ 32" using children_members(3) [OF c] small pl by (simp add: body_def)
    qed
    then show ?thesis using parse_images [of cs policy] pl by (simp add: body_def)
  qed
  have "opt_pl (h_opt ?h) = opt_pl opt" by (simp add: image_header_def)
  then show ?case
    unfolding img using h tot sub kids
    by (cases "opt_pl opt") (simp_all add: parse_frame_def Let_def, simp_all add: b_def body_def)
qed

lemma node_trailer_image:
  assumes "\<not> ts_incoherent opt trailer"
  shows "node_trailer (node_of (image_header t opt (length body)) (wire_image t opt body (stamp_image opt trailer))) =
    norm_trailer opt trailer body"
proof -
  define st where "st = stamp_image opt trailer"
  define crc where "crc = crc_image opt (body @ st)"
  define b where "b = wire_image t opt body st"
  define at where "at = header_bytes (widen opt (length body)) + length body"
  have b: "b = (header_image t (widen opt (length body)) (length body) @ body) @ st @ crc"
    by (simp add: b_def wire_image_def crc_def)
  have st_len: "length st = ts_size_of opt" by (simp add: st_def stamp_size del: length_stamp_image)
  have crc_len: "length crc = crc_size_of opt" by (simp add: crc_def crc_bytes_size)
  have at: "at = length (header_image t (widen opt (length body)) (length body) @ body)" by (simp add: at_def)
  have tot: "h_total (image_header t opt (length body)) = length b"
    using st_len crc_len by (simp add: b image_header_def)
  have st_sub: "subspan at k b = st" if "k = ts_size_of opt" for k
    unfolding b using at st_len that by (intro subspan_append_at) simp_all
  have crc_sub: "subspan (at + k) j b = crc" if "k = ts_size_of opt" "j = crc_size_of opt" for k j
  proof -
    have "at + k = length ((header_image t (widen opt (length body)) (length body) @ body) @ st)" using at st_len that by simp
    then show ?thesis unfolding b append_assoc [symmetric] using crc_len that by (intro subspan_append_at') simp_all
  qed
  have ts: "ts_size_of opt = (if opt_ts opt then if opt_tf opt then 4 else 8 else 0)" by (simp add: ts_size_of_def)
  have cr: "crc_size_of opt = (if opt_cr opt then if opt_cw opt then 2 else 4 else 0)" by (simp add: crc_size_of_def)
  define v where "v = ts_value (the (tr_ts (the trailer)))"
  have ts_rel: "(load_le st :: 32 word) = ucast v" if "opt_ts opt" "opt_tf opt"
    using that by (simp add: st_def stamp_image_def ts_image_def v_def load_le_store_le_same)
  have ts_abs: "load_le st = v" if "opt_ts opt" "\<not> opt_tf opt"
    using that by (simp add: st_def stamp_image_def ts_image_def v_def load_le_store_le_same)
  note crc_val = load_crc_image(2,3) [of opt "body @ st", folded crc_def]
  show ?thesis
    unfolding st_def [symmetric] b_def [symmetric]
    using st_sub crc_sub ts cr ts_rel ts_abs crc_val tot
    by (cases "opt_ts opt"; cases "opt_tf opt"; cases "opt_cr opt"; cases "opt_cw opt")
       (simp_all add: node_trailer_def node_of_def image_header_def read_trailer_def norm_trailer_def at_def [symmetric]
         Let_def v_def [symmetric] st_def [symmetric])
qed

lemma tree_tlv_image_tree:
  "tlv_bytes v \<noteq> None \<Longrightarrow> tree_tlv (image_tree v) = norm_tlv v"
proof (induction v)
  case (Tlv t opt payload cs trailer)
  define body where "body = (if opt_pl opt then children_image cs else payload)"
  let ?h = "image_header t opt (length body)" and ?b = "wire_image t opt body (stamp_image opt trailer)"
  note parts = tlv_bytes_parts [OF Tlv.prems body_def]
  have kids: "map (tree_tlv \<circ> image_tree) cs = map norm_tlv cs" if "opt_pl opt"
    using Tlv.IH children_members(1) [of _ cs] parts(1) [OF that] by simp
  have pay: "node_payload (node_of ?h ?b) = (if opt_pl opt then [] else payload)"
  proof -
    have "subspan (h_header ?h) (h_length ?h) (take (h_total ?h) ?b) = body"
      by (simp add: image_header_def wire_image_def stamp_size crc_bytes_size del: length_stamp_image)
    then have "node_body (node_of ?h ?b) = body" by (simp add: node_body_def node_of_def)
    moreover have "opt_pl (nd_opt (node_of ?h ?b)) = opt_pl opt" by (simp add: node_of_def image_header_def)
    ultimately show ?thesis by (cases "opt_pl opt") (simp_all add: node_payload_def, simp add: body_def)
  qed
  show ?case
    using kids pay node_trailer_image [OF parts(2), of t body]
    by (simp add: Let_def body_def [symmetric]) (simp add: image_header_def)
qed

lemma forest_depth_image:
  "(\<And>c. c \<in> set cs \<Longrightarrow> tree_depth (image_tree c) = tlv_depth c) \<Longrightarrow> forest_depth (map image_tree cs) = tlvs_depth cs"
  by (induction cs) simp_all

lemma image_tree_depth: "tree_depth (image_tree v) = tlv_depth v"
proof (induction v)
  case (Tlv t opt payload cs trailer)
  then show ?case using forest_depth_image [of cs] by (simp add: Let_def) (simp add: image_header_def)
qed

section \<open>Corruption\<close>

lemma header_fields_take:
  assumes "take n b' = take n b" and "h_header (header_fields b) \<le> n" and "n \<le> length b" and "n \<le> length b'"
  shows "header_fields b' = header_fields b"
proof -
  have h: "2 + length_bytes (opt_decode (b ! 1)) \<le> n"
    using assms(2) by (simp add: header_fields_def Let_def header_bytes_length)
  have nth: "b' ! i = b ! i" if "i < n" for i using assms(1) that by (metis nth_take)
  have "subspan 2 k x = subspan 2 k (take n x)" if "2 + k \<le> n" for k and x :: bytes
    using that by (simp add: subspan_def drop_take min_def)
  then have "subspan 2 (length_bytes (opt_decode (b ! 1))) b' = subspan 2 (length_bytes (opt_decode (b ! 1))) b"
    using assms(1) h by metis
  then show ?thesis using nth [of 0] nth [of 1] h by (simp add: header_fields_def Let_def)
qed

text \<open>A short burst inside what a header's CRC covers is caught by the header parse.\<close>

lemma header_of_burst:
  assumes h: "header_of VERIFY (lead @ p @ x @ q) = Inr h" and cr: "opt_cr (h_opt h)"
    and lead: "h_header h \<le> length lead" and inside: "length lead + length p + length x \<le> h_header h + h_length h + h_ts_size h"
    and burst: "length x \<le> h_crc_size h" "length y = length x" "y \<noteq> x"
  shows "header_of VERIFY (lead @ p @ y @ q) = Inl FRAME_CRC_FAIL"
proof -
  note f = header_of_Inr [OF h]
  let ?b = "lead @ p @ x @ q" and ?b' = "lead @ p @ y @ q"
  have len: "length ?b' = length ?b" using burst by simp
  have hf: "header_fields ?b' = h"
    using header_fields_take [of "length lead" ?b' ?b] f(1) lead by simp
  have b1: "?b' ! 1 = ?b ! 1" using lead header_sized_bounds(1) [OF f(8)] by (simp add: nth_append)
  define k where "k = h_header h + h_length h + h_ts_size h"
  have crc_sz: "h_crc_size h = (if opt_cw (h_opt h) then 2 else 4)"
    using f(8) cr by (simp add: header_sized_def crc_size_of_def)
  have "subspan k (h_crc_size h) ?b' = subspan k (h_crc_size h) ?b"
  proof -
    have "drop k ?b' = drop k ?b" using inside burst(2) by (simp add: k_def)
    then show ?thesis by (simp add: subspan_def)
  qed
  moreover define a where "a = drop (h_header h) lead @ p"
  define z where "z = take (k - (length lead + length p + length x)) q"
  have cov: "subspan (h_header h) (h_length h + h_ts_size h) (lead @ p @ v @ q) = a @ v @ z" if "length v = length x" for v
  proof -
    have "h_length h + h_ts_size h = (length lead - h_header h) + length p + length x + (k - (length lead + length p + length x))"
      using inside lead by (simp add: k_def)
    then show ?thesis using lead that by (simp add: subspan_def a_def z_def take_append)
  qed
  have cov': "subspan (h_header h) (h_length h + h_ts_size h) ?b = a @ x @ z"
    "subspan (h_header h) (h_length h + h_ts_size h) ?b' = a @ y @ z"
    using cov [of x] cov [of y] burst(2) by simp_all
  ultimately have same: "crc_holds h ?b \<and> crc_holds h ?b' \<Longrightarrow>
      (if opt_cw (h_opt h) then crc16_ccitt (a @ x @ z) = crc16_ccitt (a @ y @ z) else crc32c (a @ x @ z) = crc32c (a @ y @ z))"
    unfolding crc_holds_def Let_def cov' k_def by (cases "opt_cw (h_opt h)") simp_all
  have "\<not> crc_holds h ?b'"
  proof
    assume "crc_holds h ?b'"
    with same f(7) [OF cr refl] have
      eq: "if opt_cw (h_opt h) then crc16_ccitt (a @ x @ z) = crc16_ccitt (a @ y @ z) else crc32c (a @ x @ z) = crc32c (a @ y @ z)"
      by blast
    have "x = y"
    proof (cases "opt_cw (h_opt h)")
      case True
      then show ?thesis using eq burst(1,2) crc_sz by (intro crc16_burst [of x y a z]) simp_all
    next
      case False
      then show ?thesis using eq burst(1,2) crc_sz by (intro crc32c_burst [of x y a z]) simp_all
    qed
    with burst(3) show False by simp
  qed
  moreover have "4 \<le> length ?b'" "h_header h \<le> length ?b'" "h_total h \<le> length ?b'"
    unfolding len using f(2,6) header_sized_bounds(3) [OF f(8)] by linarith+
  ultimately show ?thesis
    using f(3-5) cr unfolding header_of_def hf b1 Let_def by (simp only: not_less [symmetric] if_False if_True) simp
qed

lemma over_header_error:
  assumes "target_ok tgt" and "length b < 2 ^ size_bits tgt" and "header_of VERIFY b = Inl e"
  shows "over tgt src b s = Some (Inl e, s)"
  using over_inline [OF assms(1,2), of "[]" "Some e" src s] assms(3) by (simp add: frame_events_def parse_frame_def)

lemma over_ok_tree:
  assumes "target_ok tgt" and "length input < 2 ^ size_bits tgt" and "over tgt src input s = Some (Inr n, s')"
  obtains t where "parse_frame VERIFY input = Inr t" and "tree_bytes t = input" and "n = tree_node t"
proof (cases "parse_frame VERIFY input")
  case (Inl e)
  then show ?thesis using over_rejects [OF assms(1,2), of e src s] assms(3) by auto
next
  case (Inr t)
  then have "tree_bytes t = input" using parse_frame_header by blast
  then show ?thesis using over_accepts [OF assms(1,2) Inr, of src s] assms(3) that [OF Inr] by (auto simp: tree_node_def)
qed

lemma encode_fst: "tlv_bytes v = Some n \<Longrightarrow> fst (encode src v out m) = fst (bytes_reserve src (ba_size out + n) out m)"
  by (auto simp: encode_def split: prod.splits bool.splits)

text \<open>The children of a parsed frame tile its body.\<close>

lemma tree_children_bytes:
  assumes "parse_frame VERIFY b = Inr t"
  shows "concat (map tree_bytes (tree_children t)) = (if opt_pl (nd_opt (tree_node t)) then node_body (tree_node t) else [])"
proof -
  from assms obtain h kids where h: "header_of VERIFY b = Inr h" and t: "t = Tree h b kids"
    and kids: "(if opt_pl (h_opt h) then parse_forest VERIFY (subspan (h_header h) (h_length h) b) else Inr []) = Inr kids"
    by (auto simp: parse_frame_def split: sum.splits if_splits)
  have n: "tree_node t = node_of h b" "nd_opt (node_of h b) = h_opt h" by (simp_all add: t tree_node_def node_of_def)
  have c: "tree_children t = kids" by (simp add: t)
  show ?thesis
    unfolding n c using kids parse_forest_bytes [of VERIFY "subspan (h_header h) (h_length h) b"] node_body_tree [OF h]
    by (cases "opt_pl (h_opt h)") simp_all
qed

section \<open>An example\<close>

text \<open>A POINT that holds one VALUE, an array source that always grants, and the two targets.\<close>

definition example_tlv :: tlv_t where
  "example_tlv = Tlv POINT (opt_zero\<lparr>opt_pl := True\<rparr>) [] [Tlv VALUE opt_zero [0x2A] [] None] None"

definition example_heap :: "unit source_ops" where
  "example_heap = \<lparr>try_alloc = (\<lambda>m bytes align. (Some 16, m)), release = (\<lambda>m p bytes align. m)\<rparr>"

lemma example_heap_grants: "always_grants example_heap"
  by (simp add: always_grants_def example_heap_def)

lemma target_ok_host64: "target_ok host64"
  unfolding target_ok_def request_ok_def host64_def by (intro conjI exI [of _ 3]) simp_all

lemma target_ok_rv32: "target_ok rv32"
  unfolding target_ok_def request_ok_def rv32_def by (intro conjI exI [of _ 2]) simp_all

lemma example_tlv_bytes: "tlv_bytes example_tlv = Some 9"
  by (simp add: example_tlv_def body_bytes_of_def is_path_ref_type_def ts_incoherent_def opt_zero_def widen_def
      header_bytes_def crc_bytes_def)

lemma example_tlv_facts:
  "tlv_typed example_tlv" "tlv_depth example_tlv = 1" "length (tlv_image example_tlv) = 9" "tlv_bytes example_tlv \<noteq> None"
  using tlv_bytes_image [OF example_tlv_bytes] example_tlv_bytes by (simp_all add: example_tlv_def opt_zero_def)

lemma example_parse: "parse_frame VERIFY (tlv_image example_tlv) = Inr (image_tree example_tlv)"
  using example_tlv_facts by (intro parse_image) simp_all

lemma example_encode: "\<exists>out. encode example_heap v ba_empty () = (True, out, ())" if "tlv_bytes v = Some n"
  using that by (simp add: encode_def ba_reserve_def ba_regrow_def example_heap_def Let_def prod_eq_iff)

definition example_checked :: tlv_t where
  "example_checked = Tlv VALUE (opt_zero\<lparr>opt_cr := True\<rparr>) [0x2A, 0x2B] [] None"

lemma example_checked_facts:
  "tlv_bytes example_checked \<noteq> None" "tlv_typed example_checked"
  "tlv_image example_checked = wire_image VALUE (opt_zero\<lparr>opt_cr := True\<rparr>) [0x2A, 0x2B] []"
  "tree_header (image_tree example_checked) = image_header VALUE (opt_zero\<lparr>opt_cr := True\<rparr>) 2"
  by (simp_all add: Let_def example_checked_def body_bytes_of_def is_path_ref_type_def ts_incoherent_def opt_zero_def
      stamp_image_def flip: numeral_2_eq_2)

section \<open>Properties\<close>



text \<open>
  C8. With the source that grants nothing, the depth bound is exact: a frame that opens more
  than eight nodes at once is refused as nested too deep, and every other frame gets the verdict
  of the recursive descent.
\<close>

theorem over_null_source_bound:
  assumes "target_ok tgt" and "length input < 2 ^ size_bits tgt"
  shows "over tgt null_source input s =
    Some (if 8 < event_depth 0 (fst (frame_events VERIFY input)) then Inl TLV_NESTING_TOO_DEEP
          else (case parse_frame VERIFY input of Inl e \<Rightarrow> Inl e | Inr t \<Rightarrow> Inr (node_of (tree_header t) input)), s)"
  using over_null_deep [OF assms, of "fst (frame_events VERIFY input)" "snd (frame_events VERIFY input)" s]
    over_inline [OF assms, of "fst (frame_events VERIFY input)" "snd (frame_events VERIFY input)" null_source s]
  by (auto simp: not_less)

theorem over_null_source_bound_witness:
  "over rv32 null_source [] () = Some (Inl FRAME_TRUNCATED, ())"
  using over_null_source_bound [OF target_ok_rv32, of "[]" "()"]
  by (simp add: rv32_def frame_events_def parse_frame_def header_of_def)



text \<open>
  C6. Ranging over the children of a validated node ends and yields, in order, exactly the
  children the recursive descent found; no child is skipped and none is malformed.
\<close>

theorem children_of_validated:
  assumes "target_ok tgt" and "length input < 2 ^ size_bits tgt" and "over tgt src input s = Some (Inr n, s')"
  shows "\<exists>t. parse_frame VERIFY input = Inr t \<and>
    children_visit tgt (children_begin tgt n) = Some (map tree_node (tree_children t)) \<and>
    concat (map (nd_bytes \<circ> tree_node) (tree_children t)) = (if opt_pl (nd_opt n) then node_body n else [])"
proof -
  obtain t where t: "parse_frame VERIFY input = Inr t" "tree_bytes t = input" "n = tree_node t"
    by (rule over_ok_tree [OF assms])
  have "nd_bytes (tree_node c) = tree_bytes c" if "c \<in> set (tree_children t)" for c
    using parse_frame_total [OF conjunct1 [OF parse_frame_kids [OF t(1) that]]] by (simp add: tree_node_def node_of_def)
  then have "map (nd_bytes \<circ> tree_node) (tree_children t) = map tree_bytes (tree_children t)" by simp
  moreover have "concat (map tree_bytes (tree_children t)) = (if opt_pl (nd_opt n) then node_body n else [])"
    using tree_children_bytes [OF t(1)] by (simp add: t(3))
  ultimately have "concat (map (nd_bytes \<circ> tree_node) (tree_children t)) = (if opt_pl (nd_opt n) then node_body n else [])"
    by (simp only:)
  then show ?thesis
    using children_visit_tree [OF assms(1,2) t(1)] t(1,3) by (intro exI [of _ t]) simp
qed

theorem children_of_validated_witness:
  "\<exists>n s'. over host64 null_source (tlv_image example_tlv) () = Some (Inr n, s') \<and>
     (\<exists>ns. children_visit host64 (children_begin host64 n) = Some ns)"
proof -
  have len: "length (tlv_image example_tlv) < 2 ^ size_bits host64" using example_tlv_facts(3) by (simp add: host64_def)
  have "frame_events VERIFY (tlv_image example_tlv) = (tree_events (image_tree example_tlv), None)"
    using frame_events_parse [of VERIFY "tlv_image example_tlv"] example_parse by simp
  then obtain n where o: "over host64 null_source (tlv_image example_tlv) () = Some (Inr n, ())"
    using over_inline [OF target_ok_host64 len, of "tree_events (image_tree example_tlv)" None null_source "()"]
      example_tlv_facts(2) example_parse by (simp add: event_depth_tree_0 image_tree_depth)
  from children_of_validated [OF target_ok_host64 len o] o show ?thesis by blast
qed



text \<open>
  C3. Re-encoding is the identity on the wire: whatever frame the reader accepts, exactly one
  tree is read from it, the encoder accepts that tree unless its output array cannot be
  reserved, and the bytes it appends are the frame.
\<close>

theorem over_then_encode:
  assumes "target_ok tgt" and "length input < 2 ^ size_bits tgt" and "over tgt src input s = Some (Inr n, s')"
  shows "\<exists>v. node_reads tgt n v \<and> (\<forall>v'. node_reads tgt n v' \<longrightarrow> v' = v) \<and>
    fst (encode heap v out m) = fst (bytes_reserve heap (ba_size out + length input) out m) \<and>
    (\<forall>out' m'. encode heap v out m = (True, out', m') \<longrightarrow> ba_elems out' = ba_elems out @ input)"
proof -
  obtain t where t: "parse_frame VERIFY input = Inr t" "tree_bytes t = input" "n = tree_node t"
    by (rule over_ok_tree [OF assms])
  have reads: "node_reads tgt n (tree_tlv t)" using node_reads_tree [OF assms(1), of t] t assms(2) by simp
  have img: "tlv_image (tree_tlv t) = input" "tlv_bytes (tree_tlv t) = Some (length input)"
    using tree_tlv_image [of t] tlv_bytes_image [of "tree_tlv t"] t by auto
  show ?thesis
  proof (intro exI [of _ "tree_tlv t"] conjI allI impI)
    show "v' = tree_tlv t" if "node_reads tgt n v'" for v' using node_reads_unique [OF reads that] .
    show "ba_elems out' = ba_elems out @ input" if "encode heap (tree_tlv t) out m = (True, out', m')" for out' m'
      using encode_ok [OF that] img by simp
  qed (use reads encode_fst [OF img(2), of heap out m] in simp_all)
qed

theorem over_then_encode_witness:
  "\<exists>n v. over rv32 null_source (tlv_image example_tlv) () = Some (Inr n, ()) \<and> node_reads rv32 n v \<and>
     (\<forall>out m. encode example_heap v ba_empty () = (True, out, m) \<longrightarrow> ba_elems out = tlv_image example_tlv)"
proof -
  have len: "length (tlv_image example_tlv) < 2 ^ size_bits rv32" using example_tlv_facts(3) by (simp add: rv32_def)
  have "frame_events VERIFY (tlv_image example_tlv) = (tree_events (image_tree example_tlv), None)"
    using frame_events_parse [of VERIFY "tlv_image example_tlv"] example_parse by simp
  then obtain n where o: "over rv32 null_source (tlv_image example_tlv) () = Some (Inr n, ())"
    using over_inline [OF target_ok_rv32 len, of "tree_events (image_tree example_tlv)" None null_source "()"]
      example_tlv_facts(2) example_parse by (simp add: event_depth_tree_0 image_tree_depth)
  from over_then_encode [OF target_ok_rv32 len o, of example_heap ba_empty "()"] o show ?thesis
    by (auto simp: ba_empty_def)
qed





end
