(* ===== verification/Segment.thy ===== *)
theory Segment
  imports Byteorder "HOL-Library.Multiset"
begin

text \<open>
  Reference-counted byte segments and the windows into them, from \<^verbatim>\<open>segment.hpp\<close> and \<^verbatim>\<open>view.hpp\<close>.
  The segments live in a store; a handle is the name of one, and the multiset of the live handles
  is the ghost state. The lemmas show that cloning and dropping handles keep every count equal to
  the number of handles, so that a segment is reclaimed exactly when its last handle goes.
\<close>

section \<open>Segments\<close>

datatype mem_space_t = HOST | DEVICE

type_synonym seg_id = nat

record segment_t =
  seg_refcount :: "32 word"
  seg_bytes :: bytes
  seg_space :: mem_space_t
  seg_rx_loan :: bool

type_synonym seg_store = "seg_id \<Rightarrow> segment_t option"

text \<open>
  The count: \<^verbatim>\<open>inc_relaxed\<close> adds one, \<^verbatim>\<open>dec_acq_rel\<close> returns the value before the drop. Each
  binding performs the same update, as one read-modify-write or inside one section of the guard.
\<close>

definition inc_relaxed :: "32 word \<Rightarrow> 32 word" where
  "inc_relaxed n = n + 1"

definition dec_acq_rel :: "32 word \<Rightarrow> 32 word \<times> 32 word" where
  "dec_acq_rel n = (n, n - 1)"

section \<open>Handles\<close>

type_synonym segment_ptr_t = "seg_id option"

definition ptr_retain :: "seg_store \<Rightarrow> segment_ptr_t \<Rightarrow> seg_store" where
  "ptr_retain s p =
     (case p of
        None \<Rightarrow> s
      | Some i \<Rightarrow> (case s i of None \<Rightarrow> s | Some g \<Rightarrow> s(i \<mapsto> g\<lparr>seg_refcount := inc_relaxed (seg_refcount g)\<rparr>)))"

text \<open>Dropping the last reference hands the segment to its backend: it leaves the store.\<close>

definition ptr_reset :: "seg_store \<Rightarrow> segment_ptr_t \<Rightarrow> seg_store" where
  "ptr_reset s p =
     (case p of
        None \<Rightarrow> s
      | Some i \<Rightarrow>
          (case s i of
             None \<Rightarrow> s
           | Some g \<Rightarrow>
               let (before, after) = dec_acq_rel (seg_refcount g)
               in if before = 1 then s(i := None) else s(i \<mapsto> g\<lparr>seg_refcount := after\<rparr>)))"

definition use_count :: "seg_store \<Rightarrow> segment_ptr_t \<Rightarrow> 32 word" where
  "use_count s p = (case p of None \<Rightarrow> 0 | Some i \<Rightarrow> (case s i of None \<Rightarrow> 0 | Some g \<Rightarrow> seg_refcount g))"

text \<open>
  The receive-loan claim: the word in front of the block goes from 0 to 1 once. The word is the
  first four bytes, little-endian.
\<close>

definition claim_rx_loan :: "seg_store \<Rightarrow> segment_ptr_t \<Rightarrow> bool \<times> seg_store" where
  "claim_rx_loan s p =
     (case p of
        None \<Rightarrow> (False, s)
      | Some i \<Rightarrow>
          (case s i of
             None \<Rightarrow> (False, s)
           | Some g \<Rightarrow>
               if \<not> seg_rx_loan g then (False, s)
               else if (load_le (take 4 (seg_bytes g)) :: 32 word) \<noteq> 0 then (False, s)
               else (True, s(i \<mapsto> g\<lparr>seg_bytes := store_le (seg_bytes g) (1 :: 32 word) 4\<rparr>))))"

section \<open>Views\<close>

record view_t =
  v_owner :: segment_ptr_t
  v_offset :: nat
  v_length :: nat

definition view_over :: "seg_store \<Rightarrow> segment_ptr_t \<Rightarrow> view_t" where
  "view_over s p =
     \<lparr>v_owner = p, v_offset = 0,
      v_length = (case p of None \<Rightarrow> 0 | Some i \<Rightarrow> (case s i of None \<Rightarrow> 0 | Some g \<Rightarrow> length (seg_bytes g)))\<rparr>"

definition view_bytes :: "seg_store \<Rightarrow> view_t \<Rightarrow> bytes" where
  "view_bytes s v =
     (case v_owner v of
        None \<Rightarrow> []
      | Some i \<Rightarrow> (case s i of None \<Rightarrow> [] | Some g \<Rightarrow> subspan (v_offset v) (v_length v) (seg_bytes g)))"

definition view_is_host :: "seg_store \<Rightarrow> view_t \<Rightarrow> bool" where
  "view_is_host s v \<longleftrightarrow>
     (case v_owner v of None \<Rightarrow> True | Some i \<Rightarrow> (case s i of None \<Rightarrow> True | Some g \<Rightarrow> seg_space g = HOST))"

definition subview :: "seg_store \<Rightarrow> view_t \<Rightarrow> nat \<Rightarrow> nat \<Rightarrow> view_t \<times> seg_store" where
  "subview s v sub_offset sub_length =
     (\<lparr>v_owner = v_owner v, v_offset = v_offset v + sub_offset, v_length = sub_length\<rparr>, ptr_retain s (v_owner v))"

text \<open>The window lies in a live segment; an unowned view is empty.\<close>

definition view_ok :: "seg_store \<Rightarrow> view_t \<Rightarrow> bool" where
  "view_ok s v \<longleftrightarrow>
     (case v_owner v of
        None \<Rightarrow> v_length v = 0
      | Some i \<Rightarrow> (case s i of None \<Rightarrow> False | Some g \<Rightarrow> v_offset v + v_length v \<le> length (seg_bytes g)))"

section \<open>Counts are the number of handles\<close>

fun seg_counted :: "segment_t option \<Rightarrow> nat \<Rightarrow> bool" where
  "seg_counted None n \<longleftrightarrow> n = 0"
| "seg_counted (Some g) n \<longleftrightarrow> 0 < n \<and> unat (seg_refcount g) = n"

definition seg_inv :: "seg_store \<Rightarrow> seg_id multiset \<Rightarrow> bool" where
  "seg_inv s H \<longleftrightarrow> (\<forall>i. seg_counted (s i) (count H i))"

lemma seg_inv_update:
  assumes "seg_inv s H" and "seg_counted x (count H' i)" and "\<And>j. j \<noteq> i \<Longrightarrow> count H' j = count H j"
  shows "seg_inv (s(i := x)) H'"
  using assms by (simp add: seg_inv_def)

definition ptr_mset :: "segment_ptr_t \<Rightarrow> seg_id multiset" where
  "ptr_mset p = (case p of None \<Rightarrow> {#} | Some i \<Rightarrow> {#i#})"

lemma ptr_mset_simps [simp]: "ptr_mset None = {#}" "ptr_mset (Some i) = {#i#}"
  by (simp_all add: ptr_mset_def)

lemma seg_inv_live:
  assumes "seg_inv s H" and "i \<in># H"
  obtains g where "s i = Some g" and "unat (seg_refcount g) = count H i"
proof -
  have "seg_counted (s i) (count H i)" "0 < count H i" using assms by (simp_all add: seg_inv_def)
  then show ?thesis using that by (cases "s i") simp_all
qed

lemma seg_inv_small: "seg_inv s H \<Longrightarrow> count H i < 2 ^ 32"
proof -
  assume inv: "seg_inv s H"
  show "count H i < 2 ^ 32"
  proof (cases "i \<in># H")
    case True
    obtain g where "s i = Some g" "unat (seg_refcount g) = count H i" by (rule seg_inv_live [OF inv True])
    then show ?thesis using unat_less_pow [of "seg_refcount g"] by simp
  next
    case False
    then have "count H i = 0" by (simp add: count_eq_zero_iff)
    then show ?thesis by simp
  qed
qed

text \<open>A retain keeps the counts while no count is about to wrap; a reset always does.\<close>

lemma ptr_retain_inv:
  assumes inv: "seg_inv s H" and live: "ptr_mset p \<subseteq># H" and room: "\<forall>i. count H i < 2 ^ 32 - 1"
  shows "seg_inv (ptr_retain s p) (H + ptr_mset p)"
proof (cases p)
  case None
  then show ?thesis using inv by (simp add: ptr_retain_def)
next
  case (Some i)
  then have i: "i \<in># H" using live by (simp add: mset_subset_eq_single)
  obtain g where g: "s i = Some g" "unat (seg_refcount g) = count H i" by (rule seg_inv_live [OF inv i])
  have "unat (seg_refcount g + 1) = count H i + 1"
    using g(2) spec [OF room, of i] by (simp add: unat_word_ariths)
  then have "seg_inv (s(i \<mapsto> g\<lparr>seg_refcount := inc_relaxed (seg_refcount g)\<rparr>)) (add_mset i H)"
    by (intro seg_inv_update [OF inv]) (simp_all add: inc_relaxed_def)
  then show ?thesis by (simp add: ptr_retain_def Some g(1))
qed

lemma ptr_reset_inv:
  assumes inv: "seg_inv s H" and live: "ptr_mset p \<subseteq># H"
  shows "seg_inv (ptr_reset s p) (H - ptr_mset p)"
proof (cases p)
  case None
  then show ?thesis using inv by (simp add: ptr_reset_def)
next
  case (Some i)
  then have i: "i \<in># H" using live by (simp add: mset_subset_eq_single)
  obtain g where g: "s i = Some g" "unat (seg_refcount g) = count H i" by (rule seg_inv_live [OF inv i])
  have one: "seg_refcount g = 1 \<longleftrightarrow> count H i = 1" using g(2) by (metis unat_1 word_unat_eq_iff)
  show ?thesis
  proof (cases "count H i = 1")
    case True
    then have "seg_inv (s(i := None)) (H - {#i#})" by (intro seg_inv_update [OF inv]) simp_all
    then show ?thesis using one True by (simp add: ptr_reset_def dec_acq_rel_def Some g(1))
  next
    case False
    then have more: "1 < count H i" using i by (metis One_nat_def Suc_lessI count_greater_zero_iff)
    then have "seg_refcount g \<noteq> 0" using g(2) by auto
    then have "unat (seg_refcount g - 1) = count H i - 1" using g(2) by (simp add: unat_minus_one)
    then have "seg_inv (s(i \<mapsto> g\<lparr>seg_refcount := seg_refcount g - 1\<rparr>)) (H - {#i#})"
      using more by (intro seg_inv_update [OF inv]) simp_all
    then show ?thesis using one False by (simp add: ptr_reset_def dec_acq_rel_def Some g(1))
  qed
qed

text \<open>The last handle and only the last reclaims.\<close>

lemma ptr_reset_reclaims:
  assumes "seg_inv s H" and "i \<in># H"
  shows "ptr_reset s (Some i) i = None \<longleftrightarrow> count H i = 1"
proof -
  obtain g where g: "s i = Some g" "unat (seg_refcount g) = count H i" by (rule seg_inv_live [OF assms])
  then have "seg_refcount g = 1 \<longleftrightarrow> count H i = 1" by (metis unat_1 word_unat_eq_iff)
  then show ?thesis using g by (simp add: ptr_reset_def dec_acq_rel_def)
qed

section \<open>What handles do to contents\<close>

text \<open>Two stores agree on a segment's bytes and space.\<close>

definition same_content :: "seg_store \<Rightarrow> seg_store \<Rightarrow> seg_id \<Rightarrow> bool" where
  "same_content s s' i \<longleftrightarrow>
     map_option (\<lambda>g. (seg_bytes g, seg_space g)) (s' i) = map_option (\<lambda>g. (seg_bytes g, seg_space g)) (s i)"

lemma same_content_refl [simp]: "same_content s s i"
  by (simp add: same_content_def)

lemma same_content_trans: "same_content s s' i \<Longrightarrow> same_content s' s'' i \<Longrightarrow> same_content s s'' i"
  by (simp add: same_content_def)

lemma ptr_retain_content: "same_content s (ptr_retain s p) i"
  by (auto simp: same_content_def ptr_retain_def split: option.splits)

lemma ptr_reset_content: "ptr_reset s p i \<noteq> None \<Longrightarrow> same_content s (ptr_reset s p) i"
  by (auto simp: same_content_def ptr_reset_def dec_acq_rel_def split: option.splits if_splits)

lemma view_content:
  assumes "\<And>i. v_owner v = Some i \<Longrightarrow> same_content s s' i"
  shows "view_bytes s' v = view_bytes s v" and "view_is_host s' v = view_is_host s v" and "view_ok s' v = view_ok s v"
proof -
  have "view_bytes s' v = view_bytes s v \<and> view_is_host s' v = view_is_host s v \<and> view_ok s' v = view_ok s v"
  proof (cases "v_owner v")
    case None
    then show ?thesis by (simp add: view_bytes_def view_is_host_def view_ok_def)
  next
    case (Some i)
    then show ?thesis
      using assms [OF Some]
      by (cases "s i"; cases "s' i") (simp_all add: same_content_def view_bytes_def view_is_host_def view_ok_def)
  qed
  then show "view_bytes s' v = view_bytes s v" "view_is_host s' v = view_is_host s v" "view_ok s' v = view_ok s v"
    by simp_all
qed

lemma view_ok_length: "view_ok s v \<Longrightarrow> length (view_bytes s v) = v_length v"
  by (auto simp: view_ok_def view_bytes_def split: option.splits)

lemma subview_bytes:
  assumes "view_ok s v" and "off + n \<le> v_length v" and "subview s v off n = (v', s')"
  shows "view_bytes s' v' = subspan off n (view_bytes s v)" and "view_ok s' v'"
    and "view_is_host s' v' = view_is_host s v" and "s' = ptr_retain s (v_owner v')" and "v_owner v' = v_owner v"
    and "v_length v' = n"
proof -
  have v': "v' = \<lparr>v_owner = v_owner v, v_offset = v_offset v + off, v_length = n\<rparr>" and s': "s' = ptr_retain s (v_owner v)"
    using assms(3) by (simp_all add: subview_def)
  have c: "same_content s s' i" for i by (simp add: s' ptr_retain_content)
  have "view_bytes s v' = subspan off n (view_bytes s v)"
    using assms(1,2) by (auto simp: v' view_bytes_def view_ok_def subspan_subspan split: option.splits)
  then show "view_bytes s' v' = subspan off n (view_bytes s v)" using view_content(1) [of v' s s', OF c] by simp
  have "view_ok s v'" using assms(1,2) by (auto simp: v' view_ok_def split: option.splits)
  then show "view_ok s' v'" using view_content(3) [of v' s s', OF c] by simp
  have "view_is_host s v' = view_is_host s v" by (simp add: v' view_is_host_def)
  then show "view_is_host s' v' = view_is_host s v" using view_content(2) [of v' s s', OF c] by simp
  show "s' = ptr_retain s (v_owner v')" "v_owner v' = v_owner v" "v_length v' = n" by (simp_all add: s' v')
qed

text \<open>The loan is granted once.\<close>

lemma claim_rx_loan_once:
  assumes "claim_rx_loan s p = (True, s')" and "\<And>i g. p = Some i \<Longrightarrow> s i = Some g \<Longrightarrow> 4 \<le> length (seg_bytes g)"
  shows "claim_rx_loan s' p = (False, s')"
proof -
  obtain i g where p: "p = Some i" and g: "s i = Some g" "seg_rx_loan g"
    and s': "s' = s(i \<mapsto> g\<lparr>seg_bytes := store_le (seg_bytes g) (1 :: 32 word) 4\<rparr>)"
    using assms(1) by (auto simp: claim_rx_loan_def split: option.splits if_splits)
  have "take 4 (store_le (seg_bytes g) (1 :: 32 word) 4) = le_bytes (1 :: 32 word) 4" by (simp add: store_le_def)
  then have "load_le (take 4 (store_le (seg_bytes g) (1 :: 32 word) 4)) = (1 :: 32 word)"
    by (simp add: load_le_store_le_same)
  then show ?thesis using g by (simp add: claim_rx_loan_def p s')
qed

end
