(* ===== verification/Rope.thy ===== *)
theory Rope
  imports Segment Block_Array
begin

text \<open>
  The scatter-gather rope of \<^verbatim>\<open>rope.hpp\<close> and \<^verbatim>\<open>rope.cpp\<close>: an ordered chain of views, two of them
  inline and the rest in a block drawn from a source. The operations thread the segment store
  (cloning a link bumps a count) and the source; \<open>None\<close> is the growth refusal for which the code
  has no failure channel (\<^verbatim>\<open>failed_growth\<close>). The lemmas give the bytes each operation shows, the
  handles it holds and that the spill block is returned.
\<close>

section \<open>The chain\<close>

record rope_t =
  rp_links :: "view_t list"
  rp_spill :: addr
  rp_cap :: nat

record 'm rope_env =
  re_width :: nat
  re_view_size :: nat
  re_view_align :: nat
  re_src :: "'m source_ops"

abbreviation kInline :: nat where "kInline \<equiv> 2"

definition kMaxLinks :: "'m rope_env \<Rightarrow> nat" where
  "kMaxLinks env =
     (if 2 ^ 32 - 1 < (2 ^ re_width env - 1) div re_view_size env then 2 ^ 32 - 1
      else (2 ^ re_width env - 1) div re_view_size env)"

definition rope_empty :: rope_t where
  "rope_empty = \<lparr>rp_links = [], rp_spill = 0, rp_cap = kInline\<rparr>"

definition rope_of_view :: "view_t \<Rightarrow> rope_t" where
  "rope_of_view v = \<lparr>rp_links = [v], rp_spill = 0, rp_cap = kInline\<rparr>"

definition rope_grow :: "'m rope_env \<Rightarrow> nat \<Rightarrow> rope_t \<Rightarrow> 'm \<Rightarrow> bool \<times> rope_t \<times> 'm" where
  "rope_grow env want r m =
     (if want > kMaxLinks env then (False, r, m)
      else
        let cap = (if rp_spill r \<noteq> 0 then rp_cap r * 2 else kInline + 1);
            cap = (if cap < want then want else cap);
            cap = (if cap > kMaxLinks env then kMaxLinks env else cap)
        in case try_alloc (re_src env) m (cap * re_view_size env) (re_view_align env) of
             (None, m') \<Rightarrow> (False, r, m')
           | (Some fresh, m') \<Rightarrow>
               let m'' = (if rp_spill r \<noteq> 0
                          then release (re_src env) m' (rp_spill r) (rp_cap r * re_view_size env) (re_view_align env)
                          else m')
               in (True, r\<lparr>rp_spill := fresh, rp_cap := cap\<rparr>, m''))"

definition rope_append :: "'m rope_env \<Rightarrow> view_t \<Rightarrow> rope_t \<Rightarrow> 'm \<Rightarrow> (rope_t \<times> 'm) option" where
  "rope_append env v r m =
     (let n = length (rp_links r);
          (ok, r', m') = (if n = rp_cap r then rope_grow env (n + 1) r m else (True, r, m))
      in if \<not> ok then None else Some (r'\<lparr>rp_links := rp_links r' @ [v]\<rparr>, m'))"

definition rope_try_reserve :: "'m rope_env \<Rightarrow> nat \<Rightarrow> rope_t \<Rightarrow> 'm \<Rightarrow> bool \<times> rope_t \<times> 'm" where
  "rope_try_reserve env links r m =
     (let n = length (rp_links r) in
      if links \<le> rp_cap r - n then (True, r, m)
      else if links > kMaxLinks env - n then (False, r, m)
      else if n + links \<le> rp_cap r then (True, r, m)
      else rope_grow env (n + links) r m)"

text \<open>Appending copies of links: each copy is a clone of its handle.\<close>

fun append_links :: "'m rope_env \<Rightarrow> view_t list \<Rightarrow> rope_t \<Rightarrow> seg_store \<times> 'm \<Rightarrow> (rope_t \<times> seg_store \<times> 'm) option" where
  "append_links env [] r (s, m) = Some (r, s, m)"
| "append_links env (l # ls) r (s, m) =
     (case rope_append env l r m of
        None \<Rightarrow> None
      | Some (r', m') \<Rightarrow> append_links env ls r' (ptr_retain s (v_owner l), m'))"

definition rope_concat :: "'m rope_env \<Rightarrow> rope_t \<Rightarrow> rope_t \<Rightarrow> seg_store \<times> 'm \<Rightarrow> (rope_t \<times> seg_store \<times> 'm) option" where
  "rope_concat env r other sm = append_links env (rp_links other) r sm"

text \<open>\<^verbatim>\<open>r.concat(r)\<close>: the links are read by index from the growing chain, up to the count on entry.\<close>

fun append_own :: "'m rope_env \<Rightarrow> nat \<Rightarrow> nat \<Rightarrow> rope_t \<Rightarrow> seg_store \<times> 'm \<Rightarrow> (rope_t \<times> seg_store \<times> 'm) option" where
  "append_own env i 0 r (s, m) = Some (r, s, m)"
| "append_own env i (Suc k) r (s, m) =
     (let l = rp_links r ! i in
      case rope_append env l r m of
        None \<Rightarrow> None
      | Some (r', m') \<Rightarrow> append_own env (Suc i) k r' (ptr_retain s (v_owner l), m'))"

definition rope_concat_self :: "'m rope_env \<Rightarrow> rope_t \<Rightarrow> seg_store \<times> 'm \<Rightarrow> (rope_t \<times> seg_store \<times> 'm) option" where
  "rope_concat_self env r sm =
     (let add = length (rp_links r);
          (_, r', m') = rope_try_reserve env add r (snd sm)
      in append_own env 0 add r' (fst sm, m'))"

definition rope_copy :: "'m rope_env \<Rightarrow> rope_t \<Rightarrow> seg_store \<times> 'm \<Rightarrow> (rope_t \<times> seg_store \<times> 'm) option" where
  "rope_copy env r sm =
     (let (ok, fresh, m') = (if length (rp_links r) > kInline then rope_grow env (length (rp_links r)) rope_empty (snd sm)
                             else (True, rope_empty, snd sm))
      in if \<not> ok then None
         else Some (fresh\<lparr>rp_links := rp_links r\<rparr>, foldl ptr_retain (fst sm) (map v_owner (rp_links r)), m'))"

text \<open>Moving hands the chain over and leaves the source rope empty and inline.\<close>

definition rope_take :: "rope_t \<Rightarrow> rope_t \<times> rope_t" where
  "rope_take r =
     (if rp_spill r \<noteq> 0 then (\<lparr>rp_links = rp_links r, rp_spill = rp_spill r, rp_cap = rp_cap r\<rparr>, rope_empty)
      else (\<lparr>rp_links = rp_links r, rp_spill = 0, rp_cap = kInline\<rparr>, rope_empty))"

definition rope_clear :: "'m rope_env \<Rightarrow> rope_t \<Rightarrow> seg_store \<times> 'm \<Rightarrow> rope_t \<times> seg_store \<times> 'm" where
  "rope_clear env r sm =
     (rope_empty, foldl ptr_reset (fst sm) (map v_owner (rp_links r)),
      (if rp_spill r \<noteq> 0
       then release (re_src env) (snd sm) (rp_spill r) (rp_cap r * re_view_size env) (re_view_align env)
       else snd sm))"

definition total_length :: "rope_t \<Rightarrow> nat" where
  "total_length r = foldl (\<lambda>n l. n + v_length l) 0 (rp_links r)"

definition all_host :: "seg_store \<Rightarrow> rope_t \<Rightarrow> bool" where
  "all_host s r \<longleftrightarrow> list_all (view_is_host s) (rp_links r)"

fun subrope_loop ::
  "'m rope_env \<Rightarrow> view_t list \<Rightarrow> nat \<Rightarrow> nat \<Rightarrow> rope_t \<Rightarrow> seg_store \<times> 'm \<Rightarrow> (rope_t \<times> seg_store \<times> 'm) option" where
  "subrope_loop env [] skip remaining out (s, m) = Some (out, s, m)"
| "subrope_loop env (l # ls) skip remaining out (s, m) =
     (if remaining = 0 then Some (out, s, m)
      else if skip \<ge> v_length l then subrope_loop env ls (skip - v_length l) remaining out (s, m)
      else
        let k = min remaining (v_length l - skip) in
        if k > 0 then
          (let (v, s') = subview s l skip k in
           case rope_append env v out m of
             None \<Rightarrow> None
           | Some (out', m') \<Rightarrow> subrope_loop env ls 0 (remaining - k) out' (s', m'))
        else subrope_loop env ls 0 (remaining - k) out (s, m))"

definition subrope :: "'m rope_env \<Rightarrow> nat \<Rightarrow> nat \<Rightarrow> rope_t \<Rightarrow> seg_store \<times> 'm \<Rightarrow> (rope_t \<times> seg_store \<times> 'm) option" where
  "subrope env off len r sm = subrope_loop env (rp_links r) off len rope_empty sm"

text \<open>The gather table, growable and fixed: the fixed form fills what fits and reports the count.\<close>

definition to_iovec :: "seg_store \<Rightarrow> rope_t \<Rightarrow> bytes list" where
  "to_iovec s r = map (view_bytes s) (rp_links r)"

definition to_iovec_fixed :: "seg_store \<Rightarrow> rope_t \<Rightarrow> bytes list \<Rightarrow> nat \<times> bytes list" where
  "to_iovec_fixed s r out =
     (let n = (if length (rp_links r) < length out then length (rp_links r) else length out)
      in (length (rp_links r), map (view_bytes s) (take n (rp_links r)) @ drop n out))"

section \<open>Flattening\<close>

datatype flatten_err_t = NOT_HOST | NO_MEMORY

text \<open>
  The backend is a parameter: it answers a request with a fresh segment of one reference, or
  refuses. The copy writes the links one after the other into the segment's bytes.
\<close>

type_synonym seg_alloc = "seg_store \<Rightarrow> nat \<Rightarrow> seg_id option \<times> seg_store"

fun flatten_copy :: "seg_store \<Rightarrow> view_t list \<Rightarrow> nat \<Rightarrow> bytes \<Rightarrow> bytes" where
  "flatten_copy s [] pos buf = buf"
| "flatten_copy s (l # ls) pos buf =
     (let b = view_bytes s l
      in flatten_copy s ls (pos + length b)
           (if b \<noteq> [] then take pos buf @ b @ drop (pos + length b) buf else buf))"

definition view_null :: view_t where
  "view_null = \<lparr>v_owner = None, v_offset = 0, v_length = 0\<rparr>"

definition flatten_core :: "seg_alloc \<Rightarrow> rope_t \<Rightarrow> seg_store \<Rightarrow> (flatten_err_t + view_t) \<times> seg_store" where
  "flatten_core backend r s =
     (if \<not> all_host s r then (Inl NOT_HOST, s)
      else
        let n = total_length r in
        if n = 0 then (Inr view_null, s)
        else
          (case backend s n of
             (None, s') \<Rightarrow> (Inl NO_MEMORY, s')
           | (Some i, s') \<Rightarrow>
               (case s' i of
                  None \<Rightarrow> (Inl NO_MEMORY, s')
                | Some g \<Rightarrow>
                    (Inr \<lparr>v_owner = Some i, v_offset = 0, v_length = n\<rparr>,
                     s'(i \<mapsto> g\<lparr>seg_bytes := flatten_copy s' (rp_links r) 0 (seg_bytes g)\<rparr>)))))"

definition rope_flatten :: "seg_alloc \<Rightarrow> rope_t \<Rightarrow> seg_store \<Rightarrow> view_t \<times> seg_store" where
  "rope_flatten backend r s =
     (case flatten_core backend r s of (Inl e, s') \<Rightarrow> (view_null, s') | (Inr v, s') \<Rightarrow> (v, s'))"

definition try_flatten :: "seg_alloc \<Rightarrow> rope_t \<Rightarrow> seg_store \<Rightarrow> (flatten_err_t + view_t) \<times> seg_store" where
  "try_flatten backend r s = flatten_core backend r s"

definition try_materialize :: "seg_alloc \<Rightarrow> rope_t \<Rightarrow> seg_store \<Rightarrow> (flatten_err_t + view_t) \<times> seg_store" where
  "try_materialize backend r s =
     (case rp_links r of
        [v] \<Rightarrow> (Inr v, ptr_retain s (v_owner v))
      | _ \<Rightarrow> try_flatten backend r s)"

section \<open>What a rope shows and holds\<close>

definition rope_bytes :: "seg_store \<Rightarrow> rope_t \<Rightarrow> bytes" where
  "rope_bytes s r = concat (map (view_bytes s) (rp_links r))"

definition owners :: "view_t list \<Rightarrow> seg_id multiset" where
  "owners ls = sum_list (map (\<lambda>l. ptr_mset (v_owner l)) ls)"

definition rope_ok :: "seg_store \<Rightarrow> rope_t \<Rightarrow> bool" where
  "rope_ok s r \<longleftrightarrow> list_all (view_ok s) (rp_links r) \<and> length (rp_links r) \<le> rp_cap r \<and> (rp_spill r = 0 \<longrightarrow> rp_cap r = kInline)"

lemma owners_simps [simp]:
  "owners [] = {#}" "owners (l # ls) = ptr_mset (v_owner l) + owners ls" "owners (xs @ ys) = owners xs + owners ys"
  by (simp_all add: owners_def)

lemma foldl_add_lengths: "foldl (\<lambda>n l. n + v_length l) k ls = k + sum_list (map v_length ls)"
  by (induction ls arbitrary: k) simp_all

lemma total_length_bytes: "rope_ok s r \<Longrightarrow> total_length r = length (rope_bytes s r)"
proof -
  have "list_all (view_ok s) ls \<Longrightarrow> sum_list (map v_length ls) = length (concat (map (view_bytes s) ls))" for ls
    by (induction ls) (simp_all add: view_ok_length)
  then show "rope_ok s r \<Longrightarrow> total_length r = length (rope_bytes s r)"
    by (simp add: total_length_def foldl_add_lengths rope_ok_def rope_bytes_def)
qed

lemma rope_grow_links: "rope_grow env want r m = (ok, r', m') \<Longrightarrow> rp_links r' = rp_links r"
  by (auto simp: rope_grow_def Let_def split: if_splits prod.splits option.splits)

lemma rope_append_links: "rope_append env v r m = Some (r', m') \<Longrightarrow> rp_links r' = rp_links r @ [v]"
  by (auto simp: rope_append_def Let_def split: if_splits prod.splits dest: rope_grow_links)

lemma foldl_retain_content: "same_content s (foldl ptr_retain s ps) i"
  by (induction ps arbitrary: s) (auto intro: same_content_trans ptr_retain_content)

lemma append_links_spec:
  "append_links env ls r (s, m) = Some (r', s', m') \<Longrightarrow>
     rp_links r' = rp_links r @ ls \<and> s' = foldl ptr_retain s (map v_owner ls)"
proof (induction env ls r "(s, m)" arbitrary: s m rule: append_links.induct)
  case (2 env l ls r s m)
  from "2.prems" obtain r1 m1 where a: "rope_append env l r m = Some (r1, m1)"
    and rest: "append_links env ls r1 (ptr_retain s (v_owner l), m1) = Some (r', s', m')"
    by (auto split: option.splits)
  from "2.hyps" [OF a refl rest] rope_append_links [OF a] show ?case by simp
qed simp

lemma append_own_spec:
  "append_own env i k r (s, m) = Some (r', s', m') \<Longrightarrow> i + k \<le> length (rp_links r) \<Longrightarrow>
     rp_links r' = rp_links r @ subspan i k (rp_links r) \<and> s' = foldl ptr_retain s (map v_owner (subspan i k (rp_links r)))"
proof (induction env i k r "(s, m)" arbitrary: s m rule: append_own.induct)
  case (2 env i k r s m)
  let ?l = "rp_links r ! i"
  from "2.prems" obtain r1 m1 where a: "rope_append env ?l r m = Some (r1, m1)"
    and rest: "append_own env (Suc i) k r1 (ptr_retain s (v_owner ?l), m1) = Some (r', s', m')"
    by (auto simp: Let_def split: option.splits)
  have links: "rp_links r1 = rp_links r @ [?l]" by (rule rope_append_links [OF a])
  have win: "subspan (Suc i) k (rp_links r1) = subspan (Suc i) k (rp_links r)"
    using "2.prems"(2) by (simp add: links span_simps)
  have one: "subspan i (Suc k) (rp_links r) = ?l # subspan (Suc i) k (rp_links r)"
    using "2.prems"(2) by (simp add: subspan_def Cons_nth_drop_Suc [symmetric])
  have "Suc i + k \<le> length (rp_links r1)" using "2.prems"(2) by (simp add: links)
  from "2.hyps" [OF refl a refl rest this] show ?case by (simp add: win [unfolded links] links one)
qed simp

text \<open>Handles of a run of clones, and of a run of drops.\<close>

lemma retain_all_inv:
  "seg_inv s H \<Longrightarrow> \<forall>l \<in> set ls. ptr_mset (v_owner l) \<subseteq># H \<Longrightarrow> \<forall>i. count H i + length ls < 2 ^ 32 \<Longrightarrow>
     seg_inv (foldl ptr_retain s (map v_owner ls)) (H + owners ls)"
proof (induction ls arbitrary: s H)
  case (Cons l ls)
  have "\<forall>i. count H i < 2 ^ 32 - 1"
  proof
    fix i show "count H i < 2 ^ 32 - 1" using Cons.prems(3) [THEN spec, of i] by simp
  qed
  then have one: "seg_inv (ptr_retain s (v_owner l)) (H + ptr_mset (v_owner l))"
    using Cons.prems by (intro ptr_retain_inv) simp_all
  have "\<forall>i. count (H + ptr_mset (v_owner l)) i + length ls < 2 ^ 32"
  proof
    fix i
    have "count (ptr_mset (v_owner l)) i \<le> 1" by (cases "v_owner l") simp_all
    then show "count (H + ptr_mset (v_owner l)) i + length ls < 2 ^ 32"
      using Cons.prems(3) [THEN spec, of i] by simp
  qed
  moreover have "\<forall>l' \<in> set ls. ptr_mset (v_owner l') \<subseteq># H + ptr_mset (v_owner l)"
    using Cons.prems(2) by (auto intro: subset_mset.order_trans mset_subset_eq_add_left)
  ultimately show ?case using Cons.IH [OF one] by (simp add: add.assoc)
qed simp

lemma reset_all_inv:
  "seg_inv s H \<Longrightarrow> owners ls \<subseteq># H \<Longrightarrow> seg_inv (foldl ptr_reset s (map v_owner ls)) (H - owners ls)"
proof (induction ls arbitrary: s H)
  case (Cons l ls)
  have le: "ptr_mset (v_owner l) \<subseteq># H" using Cons.prems(2) by (auto intro: subset_mset.order_trans [OF mset_subset_eq_add_left])
  then have one: "seg_inv (ptr_reset s (v_owner l)) (H - ptr_mset (v_owner l))" by (rule ptr_reset_inv [OF Cons.prems(1)])
  have "owners ls \<subseteq># H - ptr_mset (v_owner l)"
    using Cons.prems(2) by (simp add: subset_mset.le_diff_conv2 [OF le] add.commute)
  with Cons.IH [OF one] show ?case by (simp add: diff_diff_add)
qed simp

text \<open>A window of a rope: no byte is copied, each kept link is a clone of one of the chain.\<close>

lemma subrope_loop_spec:
  "list_all (view_ok s) ls \<Longrightarrow> subrope_loop env ls skip remaining out (s, m) = Some (out', s', m') \<Longrightarrow>
     \<exists>vs. rp_links out' = rp_links out @ vs \<and> s' = foldl ptr_retain s (map v_owner vs) \<and>
       concat (map (view_bytes s) vs) = take remaining (drop skip (concat (map (view_bytes s) ls))) \<and>
       list_all (view_ok s) vs \<and> set (map v_owner vs) \<subseteq> set (map v_owner ls)"
proof (induction env ls skip remaining out "(s, m)" arbitrary: s m rule: subrope_loop.induct)
  case (2 env l ls skip remaining out s m)
  have ok: "view_ok s l" "list_all (view_ok s) ls" using "2.prems"(1) by simp_all
  have len: "length (view_bytes s l) = v_length l" by (rule view_ok_length [OF ok(1)])
  consider (stop) "remaining = 0" | (skips) "remaining \<noteq> 0" "skip \<ge> v_length l" | (takes) "remaining \<noteq> 0" "skip < v_length l"
    by linarith
  then show ?case
  proof cases
    case stop
    then show ?thesis using "2.prems" by (intro exI [of _ "[]"]) simp
  next
    case skips
    from "2.hyps"(1) [OF skips(1) skips(2) ok(2)] "2.prems"(2) skips
    obtain vs where "rp_links out' = rp_links out @ vs" "s' = foldl ptr_retain s (map v_owner vs)"
      "concat (map (view_bytes s) vs) = take remaining (drop (skip - v_length l) (concat (map (view_bytes s) ls)))"
      "list_all (view_ok s) vs" "set (map v_owner vs) \<subseteq> set (map v_owner ls)"
      by auto
    then show ?thesis using skips(2) len by (intro exI [of _ vs]) auto
  next
    case takes
    define k where "k = min remaining (v_length l - skip)"
    obtain v s1 where sv: "subview s l skip k = (v, s1)" by fastforce
    have "skip + k \<le> v_length l" using takes by (simp add: k_def)
    note v = subview_bytes [OF ok(1) this sv]
    have same: "same_content s s1 i" for i by (simp add: v(4) ptr_retain_content)
    note keep = view_content [where s = s and s' = s1, OF same]
    have fb: "view_bytes s1 = view_bytes s" by (rule ext) (rule keep(1))
    have kpos: "0 < k" using takes by (simp add: k_def)
    from "2.prems"(2) takes sv kpos obtain out1 m1 where ap: "rope_append env v out m = Some (out1, m1)"
      and rest: "subrope_loop env ls 0 (remaining - k) out1 (s1, m1) = Some (out', s', m')"
      by (auto simp: k_def [symmetric] split: option.splits)
    have ok1: "list_all (view_ok s1) ls" using ok(2) by (simp add: keep(3) cong: list.pred_cong)
    from "2.hyps"(2) [OF takes(1) _ k_def kpos sv [symmetric] _ ap _ ok1 rest] takes(2)
    obtain vs where vs: "rp_links out' = rp_links out1 @ vs" "s' = foldl ptr_retain s1 (map v_owner vs)"
      "concat (map (view_bytes s1) vs) = take (remaining - k) (drop 0 (concat (map (view_bytes s1) ls)))"
      "list_all (view_ok s1) vs" "set (map v_owner vs) \<subseteq> set (map v_owner ls)"
      by auto
    have "concat (map (view_bytes s) (v # vs)) = take remaining (drop skip (concat (map (view_bytes s) (l # ls))))"
    proof -
      have "view_bytes s v = take k (drop skip (view_bytes s l))" using v(1) keep(1) by (simp add: subspan_def)
      moreover have "concat (map (view_bytes s) vs) = take (remaining - k) (concat (map (view_bytes s) ls))"
        using vs(3) fb by simp
      ultimately show ?thesis using takes len by (simp add: k_def min_def)
    qed
    moreover have "list_all (view_ok s) (v # vs)" using vs(4) v(2) keep(3) by (simp cong: list.pred_cong)
    moreover have "rp_links out' = rp_links out @ v # vs" using rope_append_links [OF ap] vs(1) by simp
    moreover have "s' = foldl ptr_retain s (map v_owner (v # vs))" using vs(2) v(4) by simp
    ultimately show ?thesis using vs(5) v(5) by (intro exI [of _ "v # vs"]) auto
  qed
qed (simp add: exI [of _ "[]"])

lemma subrope_spec:
  assumes "rope_ok s r" and "subrope env off len r (s, m) = Some (out, s', m')"
  shows "rope_bytes s' out = take len (drop off (rope_bytes s r))" and "s' = foldl ptr_retain s (map v_owner (rp_links out))"
    and "list_all (view_ok s') (rp_links out)" and "set (map v_owner (rp_links out)) \<subseteq> set (map v_owner (rp_links r))"
proof -
  from assms obtain vs where vs: "rp_links out = vs" "s' = foldl ptr_retain s (map v_owner vs)"
    "concat (map (view_bytes s) vs) = take len (drop off (concat (map (view_bytes s) (rp_links r))))"
    "list_all (view_ok s) vs" "set (map v_owner vs) \<subseteq> set (map v_owner (rp_links r))"
    using subrope_loop_spec [of s "rp_links r" env off len rope_empty m out s' m']
    by (auto simp: subrope_def rope_ok_def rope_empty_def)
  have same: "same_content s s' i" for i by (simp add: vs(2) foldl_retain_content)
  note keep = view_content [where s = s and s' = s', OF same]
  have fb: "view_bytes s' = view_bytes s" by (rule ext) (rule keep(1))
  show "rope_bytes s' out = take len (drop off (rope_bytes s r))" using vs(1,3) fb by (simp add: rope_bytes_def)
  show "list_all (view_ok s') (rp_links out)" using vs(1,4) keep(3) by (simp cong: list.pred_cong)
  show "s' = foldl ptr_retain s (map v_owner (rp_links out))" "set (map v_owner (rp_links out)) \<subseteq> set (map v_owner (rp_links r))"
    using vs by simp_all
qed

text \<open>Chaining shows both byte strings, one after the other.\<close>

lemma clones_show_same: "view_bytes (foldl ptr_retain s ps) = view_bytes s"
  by (rule ext) (rule view_content(1), rule foldl_retain_content)

lemma rope_concat_bytes:
  "rope_concat env r other (s, m) = Some (r', s', m') \<Longrightarrow> rope_bytes s' r' = rope_bytes s r @ rope_bytes s other"
  using append_links_spec [of env "rp_links other" r s m r' s' m']
  by (auto simp: rope_concat_def rope_bytes_def clones_show_same)

lemma rope_concat_self_bytes:
  assumes "rope_concat_self env r (s, m) = Some (r', s', m')"
  shows "rope_bytes s' r' = rope_bytes s r @ rope_bytes s r"
proof -
  obtain ok r1 m1 where g: "rope_try_reserve env (length (rp_links r)) r m = (ok, r1, m1)" by (metis prod_cases3)
  then have l: "rp_links r1 = rp_links r"
    by (auto simp: rope_try_reserve_def Let_def split: if_splits dest: rope_grow_links)
  have "append_own env 0 (length (rp_links r)) r1 (s, m1) = Some (r', s', m')"
    using assms g by (simp add: rope_concat_self_def)
  from append_own_spec [OF this] show ?thesis
    by (auto simp: l rope_bytes_def clones_show_same span_simps)
qed

section \<open>Flattening keeps the bytes\<close>

lemma flatten_copy_spec:
  "pos + length (concat (map (view_bytes s) ls)) \<le> length buf \<Longrightarrow>
     flatten_copy s ls pos buf =
       take pos buf @ concat (map (view_bytes s) ls) @ drop (pos + length (concat (map (view_bytes s) ls))) buf"
proof (induction ls arbitrary: pos buf)
  case (Cons l ls)
  define b where "b = view_bytes s l"
  define buf' where "buf' = (if b \<noteq> [] then take pos buf @ b @ drop (pos + length b) buf else buf)"
  have fits: "pos + length b + length (concat (map (view_bytes s) ls)) \<le> length buf" using Cons.prems by (simp add: b_def)
  have len: "length buf' = length buf" using fits by (simp add: buf'_def)
  have "take (pos + length b) buf' = take pos buf @ b" using fits by (cases b) (simp_all add: buf'_def)
  moreover have "drop (pos + length b + k) buf' = drop (pos + length b + k) buf" for k
    using fits by (cases b) (simp_all add: buf'_def add.commute add.left_commute)
  ultimately show ?case
    using Cons.IH [of "pos + length b" buf'] fits len
    by (simp add: Let_def b_def [symmetric] buf'_def [symmetric] add.assoc)
qed simp

text \<open>What is documented of a backend: a granted segment is new, host memory, of the size asked.\<close>

definition alloc_fresh :: "seg_alloc \<Rightarrow> bool" where
  "alloc_fresh backend \<longleftrightarrow>
     (\<forall>s n. case backend s n of
        (None, s') \<Rightarrow> s' = s
      | (Some i, s') \<Rightarrow> s i = None \<and>
          (\<exists>g. s' = s(i \<mapsto> g) \<and> seg_refcount g = 1 \<and> length (seg_bytes g) = n \<and> seg_space g = HOST))"

lemma alloc_freshD:
  assumes "alloc_fresh backend" and "backend s n = (Some i, s')"
  obtains g where "s i = None" and "s' = s(i \<mapsto> g)" and "seg_refcount g = 1" and "length (seg_bytes g) = n" and "seg_space g = HOST"
  using assms(1) [unfolded alloc_fresh_def, THEN spec, THEN spec, of s n] assms(2) that by auto

lemma alloc_fresh_refused: "alloc_fresh backend \<Longrightarrow> backend s n = (None, s') \<Longrightarrow> s' = s"
  unfolding alloc_fresh_def by (drule spec [of _ s], drule spec [of _ n]) simp

lemma view_bytes_fresh:
  assumes "view_ok s v" and "s i = None"
  shows "view_bytes (s(i \<mapsto> g)) v = view_bytes s v"
proof (rule view_content(1))
  fix j assume "v_owner v = Some j"
  then have "j \<noteq> i" using assms by (auto simp: view_ok_def)
  then show "same_content s (s(i \<mapsto> g)) j" by (simp add: same_content_def)
qed

lemma try_flatten_spec:
  assumes ok: "rope_ok s r" and fresh: "alloc_fresh backend" and r: "try_flatten backend r s = (res, s')"
  shows "case res of
      Inl NOT_HOST \<Rightarrow> \<not> all_host s r \<and> s' = s
    | Inl NO_MEMORY \<Rightarrow> all_host s r \<and> rope_bytes s r \<noteq> [] \<and> fst (backend s (length (rope_bytes s r))) = None \<and> s' = s
    | Inr v \<Rightarrow> all_host s r \<and> view_bytes s' v = rope_bytes s r \<and> view_ok s' v \<and> view_is_host s' v"
proof (cases "all_host s r \<and> total_length r \<noteq> 0")
  case False
  then show ?thesis
    using r total_length_bytes [OF ok]
    by (auto simp: try_flatten_def flatten_core_def view_null_def view_bytes_def view_ok_def view_is_host_def split: if_splits)
next
  case True
  define n where "n = total_length r"
  have n: "n = length (rope_bytes s r)" using total_length_bytes [OF ok] by (simp add: n_def)
  obtain p s1 where b: "backend s n = (p, s1)" by fastforce
  show ?thesis
  proof (cases p)
    case None
    then have "s1 = s" using alloc_fresh_refused [OF fresh] b by simp
    then show ?thesis
      using r True b None n by (auto simp: try_flatten_def flatten_core_def n_def [symmetric])
  next
    case (Some i)
    obtain g where g: "s i = None" "s1 = s(i \<mapsto> g)" "seg_refcount g = 1" "length (seg_bytes g) = n" "seg_space g = HOST"
      by (rule alloc_freshD [OF fresh b [unfolded Some]])
    have "map (view_bytes s1) (rp_links r) = map (view_bytes s) (rp_links r)"
      using ok view_bytes_fresh [of s _ i g] g(1,2) by (auto simp: rope_ok_def list_all_iff)
    then have all: "concat (map (view_bytes s1) (rp_links r)) = rope_bytes s r" by (simp only: rope_bytes_def)
    have "flatten_copy s1 (rp_links r) 0 (seg_bytes g) = rope_bytes s r"
      using flatten_copy_spec [of 0 s1 "rp_links r" "seg_bytes g"] g(4) by (simp only: all) (simp add: n)
    then have "res = Inr \<lparr>v_owner = Some i, v_offset = 0, v_length = n\<rparr>" "s' = s1(i \<mapsto> g\<lparr>seg_bytes := rope_bytes s r\<rparr>)"
      using r True b Some g(2) by (auto simp: try_flatten_def flatten_core_def n_def [symmetric])
    then show ?thesis using True g(5) n by (simp add: view_bytes_def view_ok_def view_is_host_def span_simps)
  qed
qed

section \<open>The spill block is owned by the rope\<close>

definition rope_block :: "'m rope_env \<Rightarrow> rope_t \<Rightarrow> block set" where
  "rope_block env r =
     (if rp_spill r \<noteq> 0 then {(rp_spill r, rp_cap r * re_view_size env, re_view_align env)} else {})"

context block_source
begin

lemma rope_grow_owned:
  assumes src: "re_src env = ops" and inv: "inv m L" and own: "rope_block env r \<subseteq> L"
    and req: "request_ok w (re_view_size env) (re_view_align env)" and want: "0 < want"
    and r: "rope_grow env want r m = (ok, r', m')"
  shows "inv m' (L - rope_block env r \<union> rope_block env r') \<and> (L - rope_block env r) \<inter> rope_block env r' = {}"
proof (cases "want > kMaxLinks env")
  case True
  then show ?thesis using r inv own by (auto simp: rope_grow_def Un_absorb2)
next
  case False
  define c0 where "c0 = (if rp_spill r \<noteq> 0 then rp_cap r * 2 else kInline + 1)"
  define c1 where "c1 = (if c0 < want then want else c0)"
  define cap where "cap = (if c1 > kMaxLinks env then kMaxLinks env else c1)"
  have "0 < cap" using False want by (auto simp: cap_def c1_def)
  with req have "request_ok w (cap * re_view_size env) (re_view_align env)" by (intro request_ok_scale)
  note grant = alloc_grant [OF inv this] and refuse = alloc_refuse [OF inv this]
  obtain p m1 where alloc: "try_alloc ops m (cap * re_view_size env) (re_view_align env) = (p, m1)" by fastforce
  note g = r [unfolded rope_grow_def Let_def, folded c0_def, folded c1_def, folded cap_def]
  show ?thesis
  proof (cases p)
    case None
    then have "r' = r" "inv m' L" using g alloc refuse src False by simp_all
    then show ?thesis using own by (auto simp: Un_absorb2)
  next
    case (Some fresh)
    let ?new = "(fresh, cap * re_view_size env, re_view_align env)"
    have f: "inv m1 (insert ?new L)" "?new \<notin> L" "fresh \<noteq> 0" using grant alloc Some by auto
    have r': "r' = r\<lparr>rp_spill := fresh, rp_cap := cap\<rparr>" and m': "m' = (if rp_spill r \<noteq> 0
        then release ops m1 (rp_spill r) (rp_cap r * re_view_size env) (re_view_align env) else m1)"
      using g alloc Some src False by auto
    have b': "rope_block env r' = {?new}" using f(3) by (simp add: rope_block_def r')
    have "inv m' (insert ?new L - rope_block env r)"
      using release_live [OF f(1)] f(1) own by (auto simp: m' rope_block_def)
    moreover have "insert ?new L - rope_block env r = L - rope_block env r \<union> rope_block env r'" using f(2) own b' by auto
    ultimately show ?thesis using f(2) b' by simp
  qed
qed

lemma rope_append_owned:
  assumes "re_src env = ops" and "inv m L" and "rope_block env r \<subseteq> L"
    and "request_ok w (re_view_size env) (re_view_align env)" and "rope_append env v r m = Some (r', m')"
  shows "inv m' (L - rope_block env r \<union> rope_block env r') \<and> (L - rope_block env r) \<inter> rope_block env r' = {}"
proof (cases "length (rp_links r) = rp_cap r")
  case False
  then have "m' = m" "rope_block env r' = rope_block env r" using assms(5) by (auto simp: rope_append_def rope_block_def)
  then show ?thesis using assms(2,3) by (auto simp: Un_absorb2)
next
  case True
  obtain ok r1 m1 where g: "rope_grow env (length (rp_links r) + 1) r m = (ok, r1, m1)" by (metis prod_cases3)
  then have "m' = m1" "rope_block env r' = rope_block env r1"
    using assms(5) True by (auto simp: rope_append_def Let_def rope_block_def split: if_splits)
  then show ?thesis using rope_grow_owned [OF assms(1-4) _ g] by simp
qed

lemma rope_clear_owned:
  assumes "re_src env = ops" and "inv m (L \<union> rope_block env r)" and "L \<inter> rope_block env r = {}"
    and "rope_clear env r (s, m) = (r', s', m')"
  shows "inv m' L" and "rope_block env r' = {}"
proof -
  show "rope_block env r' = {}" using assms(4) by (auto simp: rope_clear_def rope_block_def rope_empty_def)
  show "inv m' L"
  proof (cases "rp_spill r = 0")
    case True
    then show ?thesis using assms by (auto simp: rope_clear_def rope_block_def)
  next
    case False
    let ?b = "(rp_spill r, rp_cap r * re_view_size env, re_view_align env)"
    have b: "rope_block env r = {?b}" using False by (simp add: rope_block_def)
    have "inv (release ops m (rp_spill r) (rp_cap r * re_view_size env) (re_view_align env)) (L \<union> rope_block env r - {?b})"
      by (rule release_live [OF assms(2)]) (simp add: b)
    moreover have "L \<union> rope_block env r - {?b} = L" using assms(3) b by auto
    ultimately show ?thesis using False assms(1,4) by (auto simp: rope_clear_def)
  qed
qed

end

section \<open>Properties\<close>

text \<open>
  C12. A sub-rope is a window and not a copy: it shows exactly the bytes asked for, its links
  point into segments the rope already holds, and after it is dropped every count is back where
  it was, so nothing it names can be reclaimed early and nothing leaks.
\<close>

theorem subrope_window:
  assumes "rope_ok s r" and "seg_inv s H" and "owners (rp_links r) \<subseteq># H"
    and "subrope env off len r (s, m) = Some (out, s', m')" and "\<forall>i. count H i + length (rp_links out) < 2 ^ 32"
  shows "rope_bytes s' out = take len (drop off (rope_bytes s r)) \<and> rope_bytes s' r = rope_bytes s r \<and>
    seg_inv s' (H + owners (rp_links out)) \<and>
    (\<forall>r2 s2 m2. rope_clear env out (s', m') = (r2, s2, m2) \<longrightarrow> seg_inv s2 H)"
proof -
  note sub = subrope_spec [OF assms(1,4)]
  have held: "ptr_mset (v_owner l) \<subseteq># owners ls" if "l \<in> set ls" for l ls
    using that by (induction ls) (auto intro: subset_mset.order_trans [OF _ mset_subset_eq_add_right])
  have "ptr_mset (v_owner l) \<subseteq># H" if "l \<in> set (rp_links out)" for l
  proof -
    have "v_owner l \<in> v_owner ` set (rp_links r)" using sub(4) that by auto
    then obtain l' where "l' \<in> set (rp_links r)" "v_owner l = v_owner l'" by auto
    then show ?thesis using held [of l' "rp_links r"] assms(3) by (auto intro: subset_mset.order_trans)
  qed
  then have inv: "seg_inv s' (H + owners (rp_links out))" unfolding sub(2) using assms(2,5) by (intro retain_all_inv) auto
  have "rope_bytes s' r = rope_bytes s r" unfolding sub(2) by (simp add: rope_bytes_def clones_show_same)
  moreover have "seg_inv s2 H" if "rope_clear env out (s', m') = (r2, s2, m2)" for r2 s2 m2
    using reset_all_inv [OF inv, of "rp_links out"] that by (auto simp: rope_clear_def)
  ultimately show ?thesis using inv sub(1) by blast
qed

theorem subrope_window_witness:
  "let s = [0 \<mapsto> \<lparr>seg_refcount = 1, seg_bytes = [1, 2, 3], seg_space = HOST, seg_rx_loan = False\<rparr>];
       r = rope_of_view \<lparr>v_owner = Some 0, v_offset = 0, v_length = 3\<rparr>;
       env = \<lparr>re_width = 64, re_view_size = 24, re_view_align = 8, re_src = null_source\<rparr>
   in \<exists>out s'. subrope env 1 1 r (s, ()) = Some (out, s', ()) \<and> rope_bytes s' out = [2] \<and> seg_inv s' {#0, 0#}"
proof -
  let ?g = "\<lparr>seg_refcount = 1, seg_bytes = [1, 2, 3], seg_space = HOST, seg_rx_loan = False\<rparr>"
  let ?s = "[0 \<mapsto> ?g]" and ?r = "rope_of_view \<lparr>v_owner = Some 0, v_offset = 0, v_length = 3\<rparr>"
  let ?env = "\<lparr>re_width = 64, re_view_size = 24, re_view_align = 8, re_src = null_source\<rparr>"
  let ?out = "\<lparr>rp_links = [\<lparr>v_owner = Some 0, v_offset = 1, v_length = 1\<rparr>], rp_spill = 0, rp_cap = 2\<rparr>"
  have ok: "rope_ok ?s ?r" by (simp add: rope_ok_def rope_of_view_def view_ok_def)
  have inv: "seg_inv ?s {#0#}" by (simp add: seg_inv_def)
  have own: "owners (rp_links ?r) \<subseteq># {#0#}" by (simp add: rope_of_view_def)
  obtain s' where sub: "subrope ?env 1 1 ?r (?s, ()) = Some (?out, s', ())"
    by (simp add: subrope_def rope_of_view_def subview_def rope_append_def rope_empty_def)
  have "rope_bytes ?s ?r = [1, 2, 3]" by (simp add: rope_bytes_def rope_of_view_def view_bytes_def span_simps)
  then have "rope_bytes s' ?out = [2] \<and> seg_inv s' {#0, 0#}"
    using subrope_window [OF ok inv own sub] by simp
  with sub show ?thesis unfolding Let_def by blast
qed



end
