(* ===== verification/Rope_Decode.thy ===== *)
theory Rope_Decode
  imports Rope Codec
begin

text \<open>
  Decoding a frame that arrives as a rope, from \<^verbatim>\<open>rope_decode.hpp\<close> and \<^verbatim>\<open>rope_decode.cpp\<close>: the
  link-walking cursor, the ingress check \<^verbatim>\<open>check_frame\<close> and the strict \<^verbatim>\<open>validate_rope\<close>. The
  cursor meets the grammar's cursor contract over the bytes its window shows, so every result
  about the grammar holds for a frame cut into links anywhere; the two entry points give the
  verdict that the contiguous reader gives on the flattened bytes.
\<close>

unbundle bit_operations_syntax

section \<open>The cursor\<close>

record rope_cursor_t =
  rc_links :: "view_t list"
  rc_li :: nat
  rc_intra :: nat
  rc_size :: nat
  rc_poisoned :: bool

definition rope_cursor_of :: "rope_t \<Rightarrow> rope_cursor_t" where
  "rope_cursor_of r = \<lparr>rc_links = rp_links r, rc_li = 0, rc_intra = 0, rc_size = total_length r, rc_poisoned = False\<rparr>"

definition rope_cursor_at :: "view_t list \<Rightarrow> nat \<Rightarrow> nat \<Rightarrow> nat \<Rightarrow> rope_cursor_t" where
  "rope_cursor_at links li intra len =
     \<lparr>rc_links = links, rc_li = li, rc_intra = intra, rc_size = len, rc_poisoned = False\<rparr>"

text \<open>The forward walk shared by \<^verbatim>\<open>region\<close> and \<^verbatim>\<open>seek\<close>.\<close>

function rc_advance :: "view_t list \<Rightarrow> nat \<Rightarrow> nat \<Rightarrow> nat \<times> nat" where
  "rc_advance links li intra =
     (if li < length links \<and> intra \<ge> v_length (links ! li)
      then rc_advance links (li + 1) (intra - v_length (links ! li))
      else (li, intra))"
  by pat_completeness auto
termination by (relation "measure (\<lambda>(links, li, intra). length links - li)") auto

declare rc_advance.simps [simp del]

definition rc_region :: "rope_cursor_t \<Rightarrow> nat \<Rightarrow> nat \<Rightarrow> rope_cursor_t" where
  "rc_region c off len =
     (let c = c\<lparr>rc_size := len\<rparr> in
      if rc_li c < length (rc_links c) \<and> off < v_length (rc_links c ! rc_li c) - rc_intra c
      then c\<lparr>rc_intra := rc_intra c + off\<rparr>
      else let (li, intra) = rc_advance (rc_links c) (rc_li c) (rc_intra c + off)
           in c\<lparr>rc_li := li, rc_intra := intra\<rparr>)"

definition rc_seek :: "rope_cursor_t \<Rightarrow> nat \<Rightarrow> nat \<times> nat" where
  "rc_seek c off = rc_advance (rc_links c) (rc_li c) (rc_intra c + off)"

definition rc_byte_at :: "seg_store \<Rightarrow> rope_cursor_t \<Rightarrow> nat \<Rightarrow> byte" where
  "rc_byte_at s c off = (let (li, intra) = rc_seek c off in view_bytes s (rc_links c ! li) ! intra)"

text \<open>The inner loop of \<^verbatim>\<open>load_le\<close> over the bytes taken from one link, and the loop over the links.\<close>

fun rc_or_bytes :: "bytes \<Rightarrow> nat \<Rightarrow> 64 word \<Rightarrow> nat \<times> 64 word" where
  "rc_or_bytes [] shift v = (shift, v)"
| "rc_or_bytes (b # bs) shift v = rc_or_bytes bs (shift + 8) (v OR push_bit shift (ucast b))"

fun rc_load_links :: "seg_store \<Rightarrow> view_t list \<Rightarrow> nat \<Rightarrow> nat \<Rightarrow> nat \<Rightarrow> 64 word \<Rightarrow> 64 word" where
  "rc_load_links s [] intra remaining shift v = v"
| "rc_load_links s (l # ls) intra remaining shift v =
     (if remaining = 0 then v
      else
        let lb = view_bytes s l;
            k = min remaining (length lb - intra);
            (shift', v') = rc_or_bytes (subspan intra k lb) shift v
        in rc_load_links s ls 0 (remaining - k) shift' v')"

definition rc_load_le :: "seg_store \<Rightarrow> rope_cursor_t \<Rightarrow> nat \<Rightarrow> nat \<Rightarrow> 64 word" where
  "rc_load_le s c off n =
     (if n = 0 then 0
      else let (li, intra) = rc_seek c off in rc_load_links s (drop li (rc_links c)) intra n 0 0)"

fun rc_feed_links :: "seg_store \<Rightarrow> view_t list \<Rightarrow> nat \<Rightarrow> nat \<Rightarrow> bytes list" where
  "rc_feed_links s [] intra remaining = []"
| "rc_feed_links s (l # ls) intra remaining =
     (if remaining = 0 then []
      else
        let lb = view_bytes s l;
            k = min remaining (length lb - intra)
        in if k > 0 then subspan intra k lb # rc_feed_links s ls 0 (remaining - k)
           else rc_feed_links s ls 0 remaining)"

definition rc_for_each_span :: "seg_store \<Rightarrow> rope_cursor_t \<Rightarrow> nat \<Rightarrow> nat \<Rightarrow> bytes list \<times> rope_cursor_t" where
  "rc_for_each_span s c off n =
     (let avail = rc_size c - (if off < rc_size c then off else rc_size c);
          c' = (if n > avail then c\<lparr>rc_poisoned := True\<rparr> else c);
          n = (if n > avail then avail else n)
      in if n = 0 then ([], c')
         else let (li, intra) = rc_seek c off in (rc_feed_links s (drop li (rc_links c)) intra n, c'))"

definition rope_cursor :: "seg_store \<Rightarrow> rope_cursor_t cursor_ops" where
  "rope_cursor s =
     \<lparr>cur_size = rc_size, cur_byte_at = rc_byte_at s, cur_load_le = rc_load_le s, cur_region = rc_region,
      cur_for_each_span = rc_for_each_span s, cur_poisoned = rc_poisoned\<rparr>"

section \<open>The entry points\<close>

definition check_frame :: "target \<Rightarrow> seg_store \<Rightarrow> rope_t \<Rightarrow> err_t option" where
  "check_frame tgt s r =
     (if \<not> all_host s r then Some FRAME_INVALID
      else
        let rc = rope_cursor_of r in
        case parse_header (size_bits tgt) (rope_cursor s) rc VERIFY of
          Inl e \<Rightarrow> Some e
        | Inr root \<Rightarrow> if h_total root \<noteq> rc_size rc then Some FRAME_INVALID else None)"

definition null_sink :: "('c, unit, 'm) sink_ops" where
  "null_sink = \<lparr>on_open = (\<lambda>h c sm. sm), on_leaf = (\<lambda>h c sm. sm), on_close = (\<lambda>sm. sm)\<rparr>"

definition rope_walk_env :: "target \<Rightarrow> seg_store \<Rightarrow> 'm source_ops \<Rightarrow> (rope_cursor_t, 'm) walk_env" where
  "rope_walk_env tgt s src = \<lparr>we_width = size_bits tgt, we_ops = rope_cursor s, we_spill = Some src,
     we_frame_size = rope_frame_size tgt, we_frame_align = rope_frame_align tgt, we_policy = VERIFY\<rparr>"

text \<open>The inner option is the error; the outer \<open>None\<close> would be a walk that does not return.\<close>

definition validate_rope :: "target \<Rightarrow> seg_store \<Rightarrow> 'm source_ops \<Rightarrow> rope_t \<Rightarrow> 'm \<Rightarrow> (err_t option \<times> 'm) option" where
  "validate_rope tgt s spill r m =
     (if \<not> all_host s r then Some (Some FRAME_INVALID, m)
      else
        case walk (rope_walk_env tgt s spill) null_sink (rope_cursor_of r) (walk_stack 8) ((), m) of
          None \<Rightarrow> None
        | Some (e, st, (u, m')) \<Rightarrow> Some (e, ws_destroy (rope_walk_env tgt s spill) st m'))"

section \<open>What a cursor shows\<close>

definition chain_bytes :: "seg_store \<Rightarrow> view_t list \<Rightarrow> bytes" where
  "chain_bytes s ls = concat (map (view_bytes s) ls)"

definition rc_shows :: "seg_store \<Rightarrow> rope_cursor_t \<Rightarrow> bytes" where
  "rc_shows s c = take (rc_size c) (drop (rc_intra c) (chain_bytes s (drop (rc_li c) (rc_links c))))"

definition rc_ok :: "seg_store \<Rightarrow> rope_cursor_t \<Rightarrow> bool" where
  "rc_ok s c \<longleftrightarrow> \<not> rc_poisoned c \<and> list_all (view_ok s) (rc_links c) \<and>
     rc_intra c + rc_size c \<le> length (chain_bytes s (drop (rc_li c) (rc_links c)))"

lemma chain_bytes_simps [simp]:
  "chain_bytes s [] = []" "chain_bytes s (l # ls) = view_bytes s l @ chain_bytes s ls"
  by (simp_all add: chain_bytes_def)

lemma rc_shows_length: "rc_ok s c \<Longrightarrow> length (rc_shows s c) = rc_size c"
  by (auto simp: rc_ok_def rc_shows_def min_def)

lemma rc_ok_of: "rope_ok s r \<Longrightarrow> rc_ok s (rope_cursor_of r) \<and> rc_shows s (rope_cursor_of r) = rope_bytes s r"
  using total_length_bytes [of s r]
  by (simp add: rc_ok_def rc_shows_def rope_cursor_of_def rope_ok_def chain_bytes_def rope_bytes_def)

text \<open>The walk keeps the bytes ahead of it and stops inside a link, or at the end of the chain.\<close>

lemma rc_advance_spec:
  assumes "list_all (view_ok s) links" and "intra \<le> length (chain_bytes s (drop li links))"
    and "rc_advance links li intra = (li', intra')"
  shows "drop intra' (chain_bytes s (drop li' links)) = drop intra (chain_bytes s (drop li links)) \<and>
    (li' < length links \<longrightarrow> intra' < v_length (links ! li')) \<and> (length links \<le> li' \<longrightarrow> intra' = 0) \<and>
    intra' \<le> length (chain_bytes s (drop li' links))"
  using assms
proof (induction links li intra rule: rc_advance.induct)
  case (1 links li intra)
  show ?case
  proof (cases "li < length links \<and> intra \<ge> v_length (links ! li)")
    case False
    then have "li' = li" "intra' = intra" using "1.prems"(3) by (auto simp: rc_advance.simps [of links li intra] split: if_splits)
    then show ?thesis using False "1.prems"(2) by auto
  next
    case True
    have d: "drop li links = links ! li # drop (li + 1) links" using True by (simp add: Cons_nth_drop_Suc)
    have len: "length (view_bytes s (links ! li)) = v_length (links ! li)"
      using "1.prems"(1) True by (intro view_ok_length) (auto simp: list_all_length)
    have "rc_advance links (li + 1) (intra - v_length (links ! li)) = (li', intra')"
      using True "1.prems"(3) by (simp add: rc_advance.simps [of links li])
    from "1.IH" [OF True "1.prems"(1) _ this] True "1.prems"(2) show ?thesis by (simp add: d len)
  qed
qed

lemma rc_seek_spec:
  assumes "rc_ok s c" and "off \<le> rc_size c" and "rc_seek c off = (li', intra')"
  shows "drop intra' (chain_bytes s (drop li' (rc_links c))) =
      drop (rc_intra c + off) (chain_bytes s (drop (rc_li c) (rc_links c)))"
    and "li' < length (rc_links c) \<Longrightarrow> intra' < length (view_bytes s (rc_links c ! li'))"
    and "intra' \<le> length (chain_bytes s (drop li' (rc_links c)))"
    and "drop li' (rc_links c) \<noteq> [] \<Longrightarrow> intra' \<le> length (view_bytes s (hd (drop li' (rc_links c))))"
proof -
  have ok: "list_all (view_ok s) (rc_links c)" "rc_intra c + off \<le> length (chain_bytes s (drop (rc_li c) (rc_links c)))"
    using assms(1,2) by (simp_all add: rc_ok_def)
  note adv = rc_advance_spec [OF ok assms(3) [unfolded rc_seek_def]]
  show "drop intra' (chain_bytes s (drop li' (rc_links c))) =
      drop (rc_intra c + off) (chain_bytes s (drop (rc_li c) (rc_links c)))"
    "intra' \<le> length (chain_bytes s (drop li' (rc_links c)))" using adv by simp_all
  have inside: "intra' < length (view_bytes s (rc_links c ! li'))" if "li' < length (rc_links c)"
    using adv that ok(1) view_ok_length [of s "rc_links c ! li'"] by (simp add: list_all_length)
  then show "li' < length (rc_links c) \<Longrightarrow> intra' < length (view_bytes s (rc_links c ! li'))" .
  show "drop li' (rc_links c) \<noteq> [] \<Longrightarrow> intra' \<le> length (view_bytes s (hd (drop li' (rc_links c))))"
    using inside by (auto simp: hd_drop_conv_nth)
qed

text \<open>Reads.\<close>

lemma rc_byte_at_spec:
  assumes "rc_ok s c" and "off < rc_size c"
  shows "rc_byte_at s c off = rc_shows s c ! off"
proof -
  obtain li intra where k: "rc_seek c off = (li, intra)" by fastforce
  note seek = rc_seek_spec [OF assms(1) less_imp_le [OF assms(2)] k]
  let ?all = "chain_bytes s (drop (rc_li c) (rc_links c))"
  have more: "rc_intra c + off < length ?all" using assms by (simp add: rc_ok_def)
  then have "drop intra (chain_bytes s (drop li (rc_links c))) \<noteq> []" using seek(1) by simp
  then have li: "li < length (rc_links c)" by (cases "li < length (rc_links c)") simp_all
  then have d: "drop li (rc_links c) = rc_links c ! li # drop (Suc li) (rc_links c)" by (simp add: Cons_nth_drop_Suc)
  have "view_bytes s (rc_links c ! li) ! intra = drop intra (chain_bytes s (drop li (rc_links c))) ! 0"
    using seek(2) [OF li] by (simp add: d nth_append)
  also have "\<dots> = ?all ! (rc_intra c + off)" using seek(1) more by simp
  also have "\<dots> = rc_shows s c ! off" using assms(2) more by (simp add: rc_shows_def)
  finally show ?thesis by (simp add: rc_byte_at_def k)
qed

lemma load_le_loop_append: "load_le_loop (a @ b) i v = load_le_loop b (i + length a) (load_le_loop a i v)"
  by (induction a arbitrary: i v) simp_all

lemma rc_or_bytes_loop: "rc_or_bytes bs (8 * i) v = (8 * (i + length bs), load_le_loop bs i v)"
proof (induction bs arbitrary: i v)
  case (Cons b bs)
  have "8 * i + 8 = 8 * Suc i" by simp
  then show ?case unfolding rc_or_bytes.simps by (simp only: Cons.IH) simp
qed simp

lemma rc_load_links_loop:
  "(ls \<noteq> [] \<Longrightarrow> intra \<le> length (view_bytes s (hd ls))) \<Longrightarrow>
     rc_load_links s ls intra remaining (8 * i) v = load_le_loop (take remaining (drop intra (chain_bytes s ls))) i v"
proof (induction ls arbitrary: intra remaining i v)
  case (Cons l ls)
  show ?case
  proof (cases "remaining = 0")
    case False
    define b where "b = drop intra (view_bytes s l)"
    define k where "k = min remaining (length (view_bytes s l) - intra)"
    have k: "k = min remaining (length b)" by (simp add: k_def b_def)
    have sub: "subspan intra k (view_bytes s l) = take k b" by (simp add: subspan_def b_def)
    have lk: "length (take k b) = k" by (simp add: k)
    have step: "rc_load_links s (l # ls) intra remaining (8 * i) v =
        rc_load_links s ls 0 (remaining - k) (8 * (i + k)) (load_le_loop (take k b) i v)"
      using False by (simp only: rc_load_links.simps Let_def k_def [symmetric] sub rc_or_bytes_loop lk prod.case if_False)
    have "take remaining (drop intra (chain_bytes s (l # ls))) = take k b @ take (remaining - k) (chain_bytes s ls)"
      using Cons.prems by (simp add: k b_def min_def)
    then show ?thesis using step Cons.IH [of 0 "remaining - k" "i + k"] by (simp only: load_le_loop_append lk drop_0 le0)
  qed simp
qed simp

lemma rc_load_spec:
  assumes "rc_ok s c" and "off + n \<le> rc_size c" and "n \<le> 8"
  shows "rc_load_le s c off n = load_le (subspan off n (rc_shows s c))"
proof -
  obtain li intra where k: "rc_seek c off = (li, intra)" by fastforce
  have "off \<le> rc_size c" using assms(2) by simp
  note seek = rc_seek_spec [OF assms(1) this k]
  let ?w = "subspan off n (rc_shows s c)"
  have w: "take n (drop intra (chain_bytes s (drop li (rc_links c)))) = ?w"
    using assms(2) by (simp add: seek(1) rc_shows_def subspan_def drop_take add.commute min_def)
  have "length ?w = n" using rc_shows_length [OF assms(1)] assms(2) by simp
  then have "load_le ?w = load_le_loop ?w 0 (0 :: 64 word)" using assms(3) by (simp add: load_le_def)
  moreover have "rc_load_links s (drop li (rc_links c)) intra n (8 * 0) 0 = load_le_loop ?w 0 0"
    using rc_load_links_loop [of "drop li (rc_links c)" intra s n 0 0] seek(4) by (simp add: w)
  ultimately show ?thesis by (cases "n = 0") (simp_all add: rc_load_le_def k load_le_def)
qed

lemma rc_feed_links_concat:
  "(ls \<noteq> [] \<Longrightarrow> intra \<le> length (view_bytes s (hd ls))) \<Longrightarrow>
     concat (rc_feed_links s ls intra remaining) = take remaining (drop intra (chain_bytes s ls))"
proof (induction ls arbitrary: intra remaining)
  case (Cons l ls)
  define k where "k = min remaining (length (view_bytes s l) - intra)"
  have "take remaining (drop intra (chain_bytes s (l # ls))) =
      subspan intra k (view_bytes s l) @ take (remaining - k) (chain_bytes s ls)"
    using Cons.prems by (simp add: k_def subspan_def min_def)
  moreover have "rc_feed_links s (l # ls) intra remaining =
      (if remaining = 0 then []
       else if k > 0 then subspan intra k (view_bytes s l) # rc_feed_links s ls 0 (remaining - k)
       else rc_feed_links s ls 0 remaining)"
    by (simp add: Let_def k_def)
  moreover have "k = 0" if "remaining = 0" using that by (simp add: k_def)
  ultimately show ?case using Cons.IH [of 0 "remaining - k"] by (cases "remaining = 0"; cases "k = 0") simp_all
qed simp

lemma rc_feed_spec:
  assumes "rc_ok s c" and "off + n \<le> rc_size c"
  shows "concat (fst (rc_for_each_span s c off n)) = subspan off n (rc_shows s c)" and "snd (rc_for_each_span s c off n) = c"
proof -
  obtain li intra where k: "rc_seek c off = (li, intra)" by fastforce
  have "off \<le> rc_size c" using assms(2) by simp
  note seek = rc_seek_spec [OF assms(1) this k]
  have avail: "rc_size c - (if off < rc_size c then off else rc_size c) = rc_size c - off" using assms(2) by simp
  have fits: "\<not> n > rc_size c - off" using assms(2) by simp
  show "snd (rc_for_each_span s c off n) = c"
    using fits by (simp add: rc_for_each_span_def Let_def avail k split: prod.splits)
  have "concat (rc_feed_links s (drop li (rc_links c)) intra n) = subspan off n (rc_shows s c)"
    using rc_feed_links_concat [of "drop li (rc_links c)" intra s n] seek(4) assms(2)
    by (simp add: seek(1) rc_shows_def subspan_def drop_take add.commute min_def)
  then show "concat (fst (rc_for_each_span s c off n)) = subspan off n (rc_shows s c)"
    using fits by (cases "n = 0") (simp_all add: rc_for_each_span_def Let_def avail k)
qed

lemma rc_region_spec:
  assumes "rc_ok s c" and "off + n \<le> rc_size c"
  shows "rc_ok s (rc_region c off n)" and "rc_shows s (rc_region c off n) = subspan off n (rc_shows s c)"
proof -
  let ?all = "chain_bytes s (drop (rc_li c) (rc_links c))"
  obtain li intra where r: "rc_region c off n = c\<lparr>rc_size := n, rc_li := li, rc_intra := intra\<rparr>"
    and d: "drop intra (chain_bytes s (drop li (rc_links c))) = drop (rc_intra c + off) ?all"
    and b: "intra \<le> length (chain_bytes s (drop li (rc_links c)))"
  proof (cases "rc_li c < length (rc_links c) \<and> off < v_length (rc_links c ! rc_li c) - rc_intra c")
    case True
    have "rc_intra c + off \<le> length ?all" using assms by (simp add: rc_ok_def)
    with True show ?thesis by (intro that [where li = "rc_li c" and intra = "rc_intra c + off"]) (simp_all add: rc_region_def Let_def)
  next
    case False
    obtain li intra where k: "rc_seek c off = (li, intra)" by fastforce
    have "off \<le> rc_size c" using assms(2) by simp
    note seek = rc_seek_spec [OF assms(1) this k]
    show ?thesis
      using False k seek(1,3) by (intro that [where li = li and intra = intra]) (auto simp: rc_region_def Let_def rc_seek_def)
  qed
  have "n \<le> length (drop (rc_intra c + off) ?all)" using assms by (simp add: rc_ok_def) arith
  then show "rc_ok s (rc_region c off n)"
    using assms(1) d b by (simp add: rc_ok_def r) (metis length_drop le_diff_conv2 add.commute)
  show "rc_shows s (rc_region c off n) = subspan off n (rc_shows s c)"
    using assms(2) by (simp add: rc_shows_def r d subspan_def drop_take add.commute min_def)
qed

interpretation rope_cur: byte_cursor "rope_cursor s" "rc_ok s" "rc_shows s"
proof unfold_locales
  fix c off n
  assume c: "rc_ok s c"
  show "cur_size (rope_cursor s) c = length (rc_shows s c)" using rc_shows_length [OF c] by (simp add: rope_cursor_def)
  show "\<not> cur_poisoned (rope_cursor s) c" using c by (simp add: rope_cursor_def rc_ok_def)
  note len = rc_shows_length [OF c]
  show "off < length (rc_shows s c) \<Longrightarrow> cur_byte_at (rope_cursor s) c off = rc_shows s c ! off"
    using rc_byte_at_spec [OF c] len by (simp add: rope_cursor_def)
  assume fits: "off + n \<le> length (rc_shows s c)"
  show "n \<le> 8 \<Longrightarrow> cur_load_le (rope_cursor s) c off n = load_le (subspan off n (rc_shows s c))"
    using rc_load_spec [OF c] fits len by (simp add: rope_cursor_def)
  show "rc_ok s (cur_region (rope_cursor s) c off n)"
    "rc_shows s (cur_region (rope_cursor s) c off n) = subspan off n (rc_shows s c)"
    using rc_region_spec [OF c] fits len by (simp_all add: rope_cursor_def)
  show "concat (fst (cur_for_each_span (rope_cursor s) c off n)) = subspan off n (rc_shows s c) \<and>
      snd (cur_for_each_span (rope_cursor s) c off n) = c"
    using rc_feed_spec [OF c] fits len by (simp add: rope_cursor_def)
qed

interpretation rope_walk: walk_client "rope_cursor s" "rc_ok s" "rc_shows s" null_sink null_sink
  by unfold_locales (simp_all add: null_sink_def)

section \<open>The verdict is the contiguous reader's\<close>

lemma check_frame_spec:
  assumes "target_ok tgt" and "rope_ok s r" and "length (rope_bytes s r) < 2 ^ size_bits tgt"
  shows "check_frame tgt s r =
    (if \<not> all_host s r then Some FRAME_INVALID
     else case header_of VERIFY (rope_bytes s r) of
       Inl e \<Rightarrow> Some e
     | Inr h \<Rightarrow> if h_total h \<noteq> length (rope_bytes s r) then Some FRAME_INVALID else None)"
proof -
  have c: "rc_ok s (rope_cursor_of r)" "rc_shows s (rope_cursor_of r) = rope_bytes s r" using rc_ok_of [OF assms(2)] by simp_all
  have "rc_size (rope_cursor_of r) = length (rope_bytes s r)" using rc_shows_length [OF c(1)] c(2) by simp
  moreover have "parse_header (size_bits tgt) (rope_cursor s) (rope_cursor_of r) VERIFY = header_of VERIFY (rope_bytes s r)"
    using rope_cur.parse_header_spec [OF _ c(1), of "size_bits tgt" VERIFY] assms(1,3) c(2) by (simp add: target_ok_def)
  ultimately show ?thesis by (simp add: check_frame_def Let_def split: sum.split)
qed

lemma play_null: "play null_sink es sm = sm"
proof (induction es arbitrary: sm)
  case (Cons ev es)
  then show ?case by (cases ev) (simp_all add: null_sink_def)
qed simp

lemma validate_rope_runs:
  assumes "target_ok tgt" and "rope_ok s r" and "all_host s r" and "length (rope_bytes s r) < 2 ^ size_bits tgt"
    and "frame_events VERIFY (rope_bytes s r) = (es, e)"
    and "run_events (rope_walk_env tgt s src) null_sink es e (walk_stack 8) ((), m) = (v, st, (u, m'))"
  shows "validate_rope tgt s src r m = Some (v, ws_destroy (rope_walk_env tgt s src) st m')"
proof -
  let ?env = "rope_walk_env tgt s src"
  have env: "we_ops ?env = rope_cursor s" "32 \<le> we_width ?env" "we_policy ?env = VERIFY"
    using assms(1) by (simp_all add: rope_walk_env_def target_ok_def)
  have c: "rc_ok s (rope_cursor_of r)" "length (rc_shows s (rope_cursor_of r)) < 2 ^ we_width ?env"
    "frame_events (we_policy ?env) (rc_shows s (rope_cursor_of r)) = (es, e)"
    using rc_ok_of [OF assms(2)] assms(4,5) env(3) by (simp_all add: rope_walk_env_def)
  obtain v1 st1 sm1 where w: "walk ?env null_sink (rope_cursor_of r) (walk_stack 8) ((), m) = Some (v1, st1, sm1)"
    and run: "run_events ?env null_sink es e (ws_shape (walk_stack 8 :: rope_cursor_t walk_stack_t)) ((), m) = (v1, ws_shape st1, sm1)"
    using rope_walk.walk_spec [OF env(1,2) c(1,2) walk_stack_empty c(3), of 8 "((), m)"] by blast
  have "v1 = v" "ws_shape st1 = st" "sm1 = (u, m')" using run assms(6) by (simp_all add: ws_shape_empty)
  then show ?thesis using w assms(3) ws_destroy_shape [of ?env st1 m'] by (simp add: validate_rope_def)
qed

lemma validate_rope_inline:
  assumes "target_ok tgt" and "rope_ok s r" and "all_host s r" and "length (rope_bytes s r) < 2 ^ size_bits tgt"
    and "event_depth 0 (fst (frame_events VERIFY (rope_bytes s r))) \<le> 8"
  shows "validate_rope tgt s src r m =
    Some (case parse_frame VERIFY (rope_bytes s r) of Inl e \<Rightarrow> Some e | Inr t \<Rightarrow> None, m)"
proof -
  let ?env = "rope_walk_env tgt s src"
  obtain es e where ev: "frame_events VERIFY (rope_bytes s r) = (es, e)" by fastforce
  obtain fs where run: "run_events ?env null_sink es e (walk_stack 8) ((), m) = (e, (walk_stack 8)\<lparr>ws_frames := fs\<rparr>, ((), m))"
    using run_events_room [of "walk_stack 8" es ?env null_sink e "((), m)"] assms(5) ev
    by (auto simp: play_null walk_stack_def)
  have "ws_destroy ?env ((walk_stack 8)\<lparr>ws_frames := fs\<rparr> :: unit walk_stack_t) m = m"
    by (simp add: ws_destroy_def walk_stack_def split: option.split)
  moreover have "e = (case parse_frame VERIFY (rope_bytes s r) of Inl e \<Rightarrow> Some e | Inr t \<Rightarrow> None)"
    using frame_events_parse [of VERIFY "rope_bytes s r"] ev by (auto split: sum.splits)
  ultimately show ?thesis using validate_rope_runs [OF assms(1-4) ev run] by simp
qed

lemma validate_rope_outcome:
  assumes "target_ok tgt" and "rope_ok s r" and "all_host s r" and "length (rope_bytes s r) < 2 ^ size_bits tgt"
  shows "\<exists>v m'. validate_rope tgt s src r m = Some (v, m') \<and>
    (v = Some TLV_NESTING_TOO_DEEP \<or> v = (case parse_frame VERIFY (rope_bytes s r) of Inl e \<Rightarrow> Some e | Inr t \<Rightarrow> None))"
proof -
  let ?env = "rope_walk_env tgt s src"
  obtain es e where ev: "frame_events VERIFY (rope_bytes s r) = (es, e)" by fastforce
  obtain v st u m' where run: "run_events ?env null_sink es e (walk_stack 8) ((), m) = (v, st, (u, m'))" by (metis prod_cases3)
  have "v = e \<or> v = Some TLV_NESTING_TOO_DEEP"
    using run_events_outcome [of ?env null_sink es e "walk_stack 8" "((), m)"] run by simp
  moreover have "e = (case parse_frame VERIFY (rope_bytes s r) of Inl e \<Rightarrow> Some e | Inr t \<Rightarrow> None)"
    using frame_events_parse [of VERIFY "rope_bytes s r"] ev by (auto split: sum.splits)
  ultimately show ?thesis using validate_rope_runs [OF assms ev run] by auto
qed

lemma null_no_grow_rope: "\<not> fst (ws_grow (rope_walk_env tgt s null_source) st m)"
  by (simp add: ws_grow_def rope_walk_env_def null_source_def Let_def)

lemma validate_rope_null_deep:
  assumes "target_ok tgt" and "rope_ok s r" and "all_host s r" and "length (rope_bytes s r) < 2 ^ size_bits tgt"
    and "8 < event_depth 0 (fst (frame_events VERIFY (rope_bytes s r)))"
  shows "validate_rope tgt s null_source r m = Some (Some TLV_NESTING_TOO_DEEP, m)"
proof -
  let ?env = "rope_walk_env tgt s null_source"
  obtain es e where ev: "frame_events VERIFY (rope_bytes s r) = (es, e)" by fastforce
  obtain v st u m' where run: "run_events ?env null_sink es e (walk_stack 8) ((), m) = (v, st, (u, m'))" by (metis prod_cases3)
  have "fst (run_events ?env null_sink es e (walk_stack 8) ((), m)) = Some TLV_NESTING_TOO_DEEP"
    using assms(5) ev by (intro run_events_too_deep [OF null_no_grow_rope]) (simp_all add: walk_stack_def)
  then show ?thesis using validate_rope_runs [OF assms(1-4) ev run] run by simp
qed

section \<open>An example\<close>

text \<open>One segment and a rope of two links that cut it after \<open>k\<close> of its \<open>n\<close> bytes.\<close>

definition example_store :: "bytes \<Rightarrow> seg_store" where
  "example_store b = [0 \<mapsto> \<lparr>seg_refcount = 2, seg_bytes = b, seg_space = HOST, seg_rx_loan = False\<rparr>]"

definition example_rope :: "nat \<Rightarrow> nat \<Rightarrow> rope_t" where
  "example_rope k n = \<lparr>rp_links = [\<lparr>v_owner = Some 0, v_offset = 0, v_length = k\<rparr>,
     \<lparr>v_owner = Some 0, v_offset = k, v_length = n - k\<rparr>], rp_spill = 0, rp_cap = kInline\<rparr>"

lemma example_rope_facts:
  assumes "k \<le> length b"
  shows "rope_ok (example_store b) (example_rope k (length b))" and "all_host (example_store b) (example_rope k (length b))"
    and "rope_bytes (example_store b) (example_rope k (length b)) = b"
  using assms
  by (simp_all add: rope_ok_def all_host_def rope_bytes_def example_store_def example_rope_def view_ok_def view_is_host_def
      view_bytes_def subspan_def)

section \<open>Properties\<close>



text \<open>
  The ingress check is the first step of the strict one: whatever it rejects, the strict
  validation rejects with the same error, for every source and at every depth; so a frame the
  strict validation accepts has passed the ingress check.
\<close>

theorem check_frame_first:
  assumes "target_ok tgt" and "rope_ok s r" and "length (rope_bytes s r) < 2 ^ size_bits tgt"
    and "check_frame tgt s r = Some e"
  shows "validate_rope tgt s src r m = Some (Some e, m)"
proof (cases "all_host s r")
  case False
  then show ?thesis using assms(4) by (simp add: check_frame_def validate_rope_def)
next
  case True
  let ?b = "rope_bytes s r"
  have ev: "fst (frame_events VERIFY ?b) = []" and p: "parse_frame VERIFY ?b = Inl e"
    using assms(4) check_frame_spec [OF assms(1-3)] True
    by (auto simp: frame_events_def parse_frame_def split: sum.splits if_splits)
  show ?thesis using validate_rope_inline [OF assms(1,2) True assms(3), of src m] ev p by simp
qed

theorem check_frame_first_witness:
  "let s = example_store [0x01, 0x00, 0x01, 0x00]; r = example_rope 1 4
   in check_frame rv32 s r = Some FRAME_TRUNCATED \<and> validate_rope rv32 s null_source r () = Some (Some FRAME_TRUNCATED, ())"
proof -
  let ?b = "[0x01, 0x00, 0x01, 0x00] :: bytes"
  let ?s = "example_store ?b" and ?r = "example_rope 1 4"
  have ex: "rope_ok ?s ?r" "all_host ?s ?r" "rope_bytes ?s ?r = ?b" using example_rope_facts [of 1 ?b] by (simp_all add: numeral_eq_Suc)
  have len: "length (rope_bytes ?s ?r) < 2 ^ size_bits rv32" unfolding ex(3) by (simp add: rv32_def)
  have "header_of VERIFY ?b = Inl FRAME_TRUNCATED" by code_simp
  then have c: "check_frame rv32 ?s ?r = Some FRAME_TRUNCATED" using check_frame_spec [OF target_ok_rv32 ex(1) len] ex by simp
  with check_frame_first [OF target_ok_rv32 ex(1) len c, of null_source "()"] show ?thesis by simp
qed

end
