(* ===== verification/Arena.thy ===== *)
theory Arena
  imports Codec
begin

text \<open>
  The terminus decode of \<^verbatim>\<open>tlv_arena.hpp\<close> and \<^verbatim>\<open>tlv_arena.cpp\<close>: the walk with a sink that appends one
  node per TLV to an array, in pre-order, with the open-node stack threaded through the nodes'
  own extents. The lemmas show that a decode that succeeds leaves the pre-order flattening of
  the parsed tree, with every extent right, that the only failures are the grammar's and
  exhaustion, and that all blocks but the returned array's are given back.
\<close>

section \<open>The sink\<close>

record arena_tlv_t =
  at_type :: type_t
  at_opt :: opt_t
  at_wire :: bytes
  at_body :: bytes
  at_end :: "32 word"

record tlv_arena_t =
  ar_nodes :: "arena_tlv_t block_array_t"
  ar_root_ts :: "timestamp_t option"

record arena_sink =
  as_nodes :: "arena_tlv_t block_array_t"
  as_open :: "32 word"
  as_exhausted :: bool
  as_root_ts :: "timestamp_t option"

abbreviation kNone :: "32 word" where "kNone \<equiv> - 1"

definition first_child :: "32 word \<Rightarrow> 32 word" where
  "first_child i = i + 1"

definition next_sibling :: "tlv_arena_t \<Rightarrow> 32 word \<Rightarrow> 32 word" where
  "next_sibling ar i = at_end (ba_elems (ar_nodes ar) ! unat i)"

definition header_ts :: "header_t \<Rightarrow> bytes \<Rightarrow> timestamp_t" where
  "header_ts h b =
     (let off = h_header h + h_length h in
      if opt_tf (h_opt h)
      then \<lparr>ts_relative = opt_tf (h_opt h), ts_value = scast (load_le (subspan off 4 b) :: 32 word)\<rparr>
      else \<lparr>ts_relative = opt_tf (h_opt h), ts_value = load_le (subspan off 8 b)\<rparr>)"

definition arena_push :: "target \<Rightarrow> 'm source_ops \<Rightarrow> header_t \<Rightarrow> bytes \<Rightarrow> arena_sink \<times> 'm \<Rightarrow> arena_sink \<times> 'm" where
  "arena_push tgt src h b sm =
     (let (k, m) = sm;
          k1 = (if ba_elems (as_nodes k) = [] \<and> opt_ts (h_opt h) then k\<lparr>as_root_ts := Some (header_ts h b)\<rparr> else k);
          node = \<lparr>at_type = h_type h, at_opt = h_opt h, at_wire = take (h_header h + h_length h) b,
                  at_body = subspan (h_header h) (h_length h) b,
                  at_end = of_nat (ba_size (as_nodes k) + 1)\<rparr>;
          (ok, nodes', m') = ba_push_back src (arena_node_size tgt) (arena_node_align tgt) node (as_nodes k1) m
      in if \<not> ok then (k1\<lparr>as_nodes := nodes', as_exhausted := True\<rparr>, m')
         else (k1\<lparr>as_nodes := nodes'\<rparr>, m'))"

definition set_end :: "nat \<Rightarrow> 32 word \<Rightarrow> arena_tlv_t block_array_t \<Rightarrow> arena_tlv_t block_array_t" where
  "set_end i e a = a\<lparr>ba_elems := (ba_elems a)[i := (ba_elems a ! i)\<lparr>at_end := e\<rparr>]\<rparr>"

definition arena_open :: "target \<Rightarrow> 'm source_ops \<Rightarrow> header_t \<Rightarrow> bytes \<Rightarrow> arena_sink \<times> 'm \<Rightarrow> arena_sink \<times> 'm" where
  "arena_open tgt src h b sm =
     (let index = (of_nat (ba_size (as_nodes (fst sm))) :: 32 word);
          (k, m) = arena_push tgt src h b sm
      in if as_exhausted k then (k, m)
         else (k\<lparr>as_nodes := set_end (unat index) (as_open k) (as_nodes k), as_open := index\<rparr>, m))"

definition arena_close :: "arena_sink \<times> 'm \<Rightarrow> arena_sink \<times> 'm" where
  "arena_close sm =
     (let (k, m) = sm in
      if as_exhausted k then (k, m)
      else
        let i = unat (as_open k)
        in (k\<lparr>as_open := at_end (ba_elems (as_nodes k) ! i),
              as_nodes := set_end i (of_nat (ba_size (as_nodes k))) (as_nodes k)\<rparr>, m))"

definition arena_ops :: "target \<Rightarrow> 'm source_ops \<Rightarrow> (bytes, arena_sink, 'm) sink_ops" where
  "arena_ops tgt src = \<lparr>on_open = arena_open tgt src, on_leaf = arena_push tgt src, on_close = arena_close\<rparr>"

definition arena_init :: "arena_tlv_t block_array_t \<Rightarrow> arena_sink" where
  "arena_init nodes = \<lparr>as_nodes = nodes, as_open = kNone, as_exhausted = False, as_root_ts = None\<rparr>"

text \<open>
  The call: a failure destroys the stack and then the arena, a success destroys the stack and
  hands the arena out. \<open>None\<close> would be a walk that does not return.
\<close>

definition decode_into :: "target \<Rightarrow> 'm source_ops \<Rightarrow> bytes \<Rightarrow> 'm \<Rightarrow> ((err_t + tlv_arena_t) \<times> 'm) option" where
  "decode_into tgt src input m =
     (case ba_reserve src (arena_node_size tgt) (arena_node_align tgt) 8 ba_empty m of
        (reserved, nodes, m0) \<Rightarrow>
          if \<not> reserved then Some (Inl TLV_NESTING_TOO_DEEP, ba_destroy src (arena_node_size tgt) (arena_node_align tgt) nodes m0)
          else
            (case walk (span_env tgt src) (arena_ops tgt src) input (walk_stack 8) (arena_init nodes, m0) of
               None \<Rightarrow> None
             | Some (r, st, (k, m1)) \<Rightarrow>
                 let m2 = ws_destroy (span_env tgt src) st m1;
                     dropped = ba_destroy src (arena_node_size tgt) (arena_node_align tgt) (as_nodes k) m2
                 in Some (case r of
                      Some e \<Rightarrow> (Inl e, dropped)
                    | None \<Rightarrow>
                        if as_exhausted k then (Inl TLV_NESTING_TOO_DEEP, dropped)
                        else (Inr \<lparr>ar_nodes = as_nodes k, ar_root_ts = as_root_ts k\<rparr>, m2))))"

section \<open>The flattening\<close>

primrec tree_nodes :: "tlv_tree \<Rightarrow> nat" and forest_nodes :: "tlv_tree list \<Rightarrow> nat" where
  "tree_nodes (Tree h b kids) = Suc (if opt_pl (h_opt h) then forest_nodes kids else 0)"
| "forest_nodes [] = 0"
| "forest_nodes (t # ts) = tree_nodes t + forest_nodes ts"

definition flat_node :: "header_t \<Rightarrow> bytes \<Rightarrow> nat \<Rightarrow> arena_tlv_t" where
  "flat_node h b e = \<lparr>at_type = h_type h, at_opt = h_opt h, at_wire = take (h_header h + h_length h) b,
     at_body = subspan (h_header h) (h_length h) b, at_end = of_nat e\<rparr>"

text \<open>The nodes of a tree whose root has index \<open>i\<close>, in pre-order.\<close>

primrec flat_tree :: "tlv_tree \<Rightarrow> nat \<Rightarrow> arena_tlv_t list" and flat_forest :: "tlv_tree list \<Rightarrow> nat \<Rightarrow> arena_tlv_t list" where
  "flat_tree (Tree h b kids) i =
     flat_node h b (i + tree_nodes (Tree h b kids)) # (if opt_pl (h_opt h) then flat_forest kids (i + 1) else [])"
| "flat_forest [] i = []"
| "flat_forest (t # ts) i = flat_tree t i @ flat_forest ts (i + tree_nodes t)"

lemma length_flat_forest:
  "(\<And>t i. t \<in> set ts \<Longrightarrow> length (flat_tree t i) = tree_nodes t) \<Longrightarrow> length (flat_forest ts i) = forest_nodes ts"
  by (induction ts arbitrary: i) simp_all

lemma length_flat_tree [simp]: "length (flat_tree t i) = tree_nodes t"
proof (induction t arbitrary: i)
  case (Tree h b kids)
  then show ?case using length_flat_forest [of kids] by simp
qed

section \<open>One hook\<close>

lemma arena_push_cases:
  assumes "arena_push tgt src h b (k, m) = (k', m')" and "\<not> as_exhausted k"
  shows "as_exhausted k' \<or>
    (\<not> as_exhausted k' \<and> as_open k' = as_open k \<and>
     ba_elems (as_nodes k') = ba_elems (as_nodes k) @ [flat_node h b (ba_size (as_nodes k) + 1)] \<and>
     as_root_ts k' = (if ba_elems (as_nodes k) = [] \<and> opt_ts (h_opt h) then Some (header_ts h b) else as_root_ts k))"
  using assms
  by (auto simp: arena_push_def Let_def flat_node_def split: prod.splits if_splits dest!: ba_push_back_spec)

lemma arena_push_exhausted: "arena_push tgt src h b (k, m) = (k', m') \<Longrightarrow> as_exhausted k \<Longrightarrow> as_exhausted k'"
  by (auto simp: arena_push_def Let_def split: prod.splits if_splits)

lemma arena_open_exhausted: "arena_open tgt src h b (k, m) = (k', m') \<Longrightarrow> as_exhausted k \<Longrightarrow> as_exhausted k'"
  by (auto simp: arena_open_def Let_def split: prod.splits if_splits dest: arena_push_exhausted)

lemma arena_open_cases:
  assumes o: "arena_open tgt src h b (k, m) = (k', m')" and k: "\<not> as_exhausted k" and small: "ba_size (as_nodes k) < 2 ^ 32"
  shows "as_exhausted k' \<or>
    (\<not> as_exhausted k' \<and> as_open k' = of_nat (ba_size (as_nodes k)) \<and>
     ba_elems (as_nodes k') = ba_elems (as_nodes k) @ [(flat_node h b 0)\<lparr>at_end := as_open k\<rparr>] \<and>
     as_root_ts k' = (if ba_elems (as_nodes k) = [] \<and> opt_ts (h_opt h) then Some (header_ts h b) else as_root_ts k))"
proof -
  obtain k1 m1 where p: "arena_push tgt src h b (k, m) = (k1, m1)" by fastforce
  have i: "unat (of_nat (ba_size (as_nodes k)) :: 32 word) = ba_size (as_nodes k)" using small by (intro unat_of_nat_word) simp
  from arena_push_cases [OF p k] show ?thesis
    using o by (auto simp: arena_open_def p Let_def set_end_def i flat_node_def split: if_splits)
qed

lemma arena_close_at:
  assumes "\<not> as_exhausted k" and "as_open k = of_nat (length pre)" and "length pre < 2 ^ 32"
    and "ba_elems (as_nodes k) = pre @ node # rest"
  shows "arena_close (k, m) = (k\<lparr>as_open := at_end node, as_nodes := (as_nodes k)\<lparr>ba_elems :=
    pre @ node\<lparr>at_end := of_nat (length pre + 1 + length rest)\<rparr> # rest\<rparr>\<rparr>, m)"
proof -
  have "unat (as_open k) = length pre" using assms(2,3) by (simp add: unat_of_nat_word)
  then show ?thesis using assms(1,4) by (simp add: arena_close_def set_end_def Let_def)
qed

section \<open>A whole tree\<close>

text \<open>
  What a run of hooks has done to the sink: run out, or appended these nodes. The stamp is taken
  from the first node of all.
\<close>

definition arena_did :: "arena_sink \<Rightarrow> arena_tlv_t list \<Rightarrow> timestamp_t option \<Rightarrow> arena_sink \<Rightarrow> bool" where
  "arena_did k nodes ts k' \<longleftrightarrow>
     as_exhausted k' \<or>
     (\<not> as_exhausted k' \<and> as_open k' = as_open k \<and> ba_elems (as_nodes k') = ba_elems (as_nodes k) @ nodes \<and>
      as_root_ts k' = (if ba_elems (as_nodes k) = [] \<and> ts \<noteq> None then ts else as_root_ts k))"

definition tree_ts :: "tlv_tree \<Rightarrow> timestamp_t option" where
  "tree_ts t = (if opt_ts (h_opt (tree_header t)) then Some (header_ts (tree_header t) (tree_bytes t)) else None)"

text \<open>
  Performing a tree's hooks and then others: the run ends in a refused push on the stack, or it
  is the run of the others from a sink that did the tree.
\<close>

definition runs_through ::
  "(bytes, 'm) walk_env \<Rightarrow> target \<Rightarrow> 'm source_ops \<Rightarrow> event list \<Rightarrow> (arena_sink \<Rightarrow> arena_sink \<Rightarrow> bool) \<Rightarrow> bool" where
  "runs_through env tgt src es did \<longleftrightarrow>
     (\<forall>es' r st k m.
        fst (run_events env (arena_ops tgt src) (es @ es') r st (k, m)) = Some TLV_NESTING_TOO_DEEP \<or>
        (\<exists>st1 k1 m1. run_events env (arena_ops tgt src) (es @ es') r st (k, m) =
           run_events env (arena_ops tgt src) es' r st1 (k1, m1) \<and> (as_exhausted k \<longrightarrow> as_exhausted k1) \<and> (\<not> as_exhausted k \<longrightarrow> did k k1)))"

lemma runs_throughE:
  assumes "runs_through env tgt src es did"
  obtains "fst (run_events env (arena_ops tgt src) (es @ es') r st (k, m)) = Some TLV_NESTING_TOO_DEEP"
  | st1 k1 m1 where "run_events env (arena_ops tgt src) (es @ es') r st (k, m) =
       run_events env (arena_ops tgt src) es' r st1 (k1, m1)" "as_exhausted k \<Longrightarrow> as_exhausted k1"
       "\<not> as_exhausted k \<Longrightarrow> did k k1"
  using assms unfolding runs_through_def by meson

lemma runs_throughI:
  assumes "\<And>es' r st k m.
    fst (run_events env (arena_ops tgt src) (es @ es') r st (k, m)) = Some TLV_NESTING_TOO_DEEP \<or>
    (\<exists>st1 k1 m1. run_events env (arena_ops tgt src) (es @ es') r st (k, m) =
       run_events env (arena_ops tgt src) es' r st1 (k1, m1) \<and> (as_exhausted k \<longrightarrow> as_exhausted k1) \<and> (\<not> as_exhausted k \<longrightarrow> did k k1))"
  shows "runs_through env tgt src es did"
  unfolding runs_through_def by (intro allI assms)

lemma runs_through_append:
  assumes a: "runs_through env tgt src es1 did1" and b: "runs_through env tgt src es2 did2"
    and c: "\<And>k k1 k2. \<not> as_exhausted k \<Longrightarrow> did1 k k1 \<Longrightarrow> (as_exhausted k1 \<longrightarrow> as_exhausted k2) \<Longrightarrow>
      (\<not> as_exhausted k1 \<longrightarrow> did2 k1 k2) \<Longrightarrow> did k k2"
  shows "runs_through env tgt src (es1 @ es2) did"
proof (rule runs_throughI)
  fix es' r st k m
  let ?run = "\<lambda>es st km. run_events env (arena_ops tgt src) es r st km"
  show "fst (?run ((es1 @ es2) @ es') st (k, m)) = Some TLV_NESTING_TOO_DEEP \<or>
    (\<exists>st1 k1 m1. ?run ((es1 @ es2) @ es') st (k, m) = ?run es' st1 (k1, m1) \<and>
       (as_exhausted k \<longrightarrow> as_exhausted k1) \<and> (\<not> as_exhausted k \<longrightarrow> did k k1))"
  proof (rule runs_throughE [OF a, of "es2 @ es'" r st k m])
    fix st1 k1 m1
    assume r1: "?run (es1 @ es2 @ es') st (k, m) = ?run (es2 @ es') st1 (k1, m1)"
      and e1: "as_exhausted k \<Longrightarrow> as_exhausted k1" and d1: "\<not> as_exhausted k \<Longrightarrow> did1 k k1"
    show ?thesis
    proof (rule runs_throughE [OF b, of es' r st1 k1 m1])
      fix st2 k2 m2
      assume r2: "?run (es2 @ es') st1 (k1, m1) = ?run es' st2 (k2, m2)"
        and e2: "as_exhausted k1 \<Longrightarrow> as_exhausted k2" and d2: "\<not> as_exhausted k1 \<Longrightarrow> did2 k1 k2"
      have "did k k2" if "\<not> as_exhausted k" using c [OF that d1 [OF that]] e2 d2 by blast
      then show ?thesis using r1 r2 e1 e2 by (metis append_assoc)
    qed (simp add: r1)
  qed simp
qed

definition tree_did :: "tlv_tree \<Rightarrow> arena_sink \<Rightarrow> arena_sink \<Rightarrow> bool" where
  "tree_did t k k' \<longleftrightarrow>
     (ba_size (as_nodes k) + tree_nodes t < 2 ^ 32 \<longrightarrow> arena_did k (flat_tree t (ba_size (as_nodes k))) (tree_ts t) k')"

definition forest_did :: "tlv_tree list \<Rightarrow> arena_sink \<Rightarrow> arena_sink \<Rightarrow> bool" where
  "forest_did ts k k' \<longleftrightarrow>
     (ba_elems (as_nodes k) \<noteq> [] \<longrightarrow> ba_size (as_nodes k) + forest_nodes ts < 2 ^ 32 \<longrightarrow>
        arena_did k (flat_forest ts (ba_size (as_nodes k))) None k')"

lemma forest_did_Cons:
  assumes "\<not> as_exhausted k" and "tree_did t k k1" and "as_exhausted k1 \<longrightarrow> as_exhausted k2"
    and "\<not> as_exhausted k1 \<longrightarrow> forest_did ts k1 k2"
  shows "forest_did (t # ts) k k2"
  using assms by (auto simp: tree_did_def forest_did_def arena_did_def)

lemma runs_through_forest:
  "(\<And>t. t \<in> set ts \<Longrightarrow> runs_through env tgt src (tree_events t) (tree_did t)) \<Longrightarrow>
     runs_through env tgt src (forest_event_list ts) (forest_did ts)"
proof (induction ts)
  case Nil
  show ?case by (rule runs_throughI) (auto simp: forest_did_def arena_did_def intro!: exI)
next
  case (Cons t ts)
  have "runs_through env tgt src (tree_events t @ forest_event_list ts) (forest_did (t # ts))"
    using Cons by (intro runs_through_append [OF _ _ forest_did_Cons]) auto
  then show ?case by simp
qed

lemma runs_through_leaf:
  assumes "\<not> opt_pl (h_opt h)"
  shows "runs_through env tgt src (tree_events (Tree h b kids)) (tree_did (Tree h b kids))"
proof (rule runs_throughI)
  fix es' r st k m
  obtain k1 m1 where p: "arena_push tgt src h b (k, m) = (k1, m1)" by fastforce
  have "tree_did (Tree h b kids) k k1" if "\<not> as_exhausted k"
    using arena_push_cases [OF p that] assms by (auto simp: tree_did_def arena_did_def tree_ts_def flat_node_def)
  moreover have "run_events env (arena_ops tgt src) (tree_events (Tree h b kids) @ es') r st (k, m) =
      run_events env (arena_ops tgt src) es' r st (k1, m1)"
    using assms by (simp add: arena_ops_def p)
  ultimately show "fst (run_events env (arena_ops tgt src) (tree_events (Tree h b kids) @ es') r st (k, m)) = Some TLV_NESTING_TOO_DEEP \<or>
    (\<exists>st1 k1 m1. run_events env (arena_ops tgt src) (tree_events (Tree h b kids) @ es') r st (k, m) =
       run_events env (arena_ops tgt src) es' r st1 (k1, m1) \<and> (as_exhausted k \<longrightarrow> as_exhausted k1) \<and>
       (\<not> as_exhausted k \<longrightarrow> tree_did (Tree h b kids) k k1))"
    using arena_push_exhausted [OF p] by blast
qed

text \<open>The hooks around the children of a structured node.\<close>

definition open_did :: "header_t \<Rightarrow> bytes \<Rightarrow> arena_sink \<Rightarrow> arena_sink \<Rightarrow> bool" where
  "open_did h b k k' \<longleftrightarrow>
     (ba_size (as_nodes k) < 2 ^ 32 \<longrightarrow>
      as_exhausted k' \<or>
      (\<not> as_exhausted k' \<and> as_open k' = of_nat (ba_size (as_nodes k)) \<and>
       ba_elems (as_nodes k') = ba_elems (as_nodes k) @ [(flat_node h b 0)\<lparr>at_end := as_open k\<rparr>] \<and>
       as_root_ts k' = (if ba_elems (as_nodes k) = [] \<and> opt_ts (h_opt h) then Some (header_ts h b) else as_root_ts k)))"

lemma runs_through_open: "runs_through env tgt src [Ev_open h b] (open_did h b)"
proof (rule runs_throughI)
  fix es' r st k m
  obtain k1 m1 where o: "arena_open tgt src h b (k, m) = (k1, m1)" by fastforce
  obtain pushed st2 m2 where push: "ws_push env \<lparr>wf_body = (), wf_pos = 0\<rparr> st m1 = (pushed, st2, m2)" by (metis prod_cases3)
  have did: "open_did h b k k1" if "\<not> as_exhausted k" using arena_open_cases [OF o that] by (auto simp: open_did_def)
  show "fst (run_events env (arena_ops tgt src) ([Ev_open h b] @ es') r st (k, m)) = Some TLV_NESTING_TOO_DEEP \<or>
    (\<exists>st1 k1 m1. run_events env (arena_ops tgt src) ([Ev_open h b] @ es') r st (k, m) =
       run_events env (arena_ops tgt src) es' r st1 (k1, m1) \<and> (as_exhausted k \<longrightarrow> as_exhausted k1) \<and> (\<not> as_exhausted k \<longrightarrow> open_did h b k k1))"
  proof (cases pushed)
    case False
    then show ?thesis using push by (simp add: arena_ops_def o)
  next
    case True
    then have "run_events env (arena_ops tgt src) ([Ev_open h b] @ es') r st (k, m) =
        run_events env (arena_ops tgt src) es' r st2 (k1, m2)"
      using push by (simp add: arena_ops_def o)
    then show ?thesis using did arena_open_exhausted [OF o] by blast
  qed
qed

definition close_did :: "arena_sink \<Rightarrow> arena_sink \<Rightarrow> bool" where
  "close_did k k' \<longleftrightarrow> k' = fst (arena_close (k, ()))"

lemma arena_close_fst: "arena_close (k, m) = (fst (arena_close (k, ())), m)"
  by (simp add: arena_close_def Let_def)

lemma runs_through_close: "runs_through env tgt src [Ev_close] close_did"
proof (rule runs_throughI, intro disjI2 exI conjI)
  fix es' r st k m
  show "run_events env (arena_ops tgt src) ([Ev_close] @ es') r st (k, m) =
      run_events env (arena_ops tgt src) es' r (ws_pop st) (fst (arena_close (k, ())), m)"
    by (simp add: arena_ops_def) (subst arena_close_fst, rule refl)
qed (auto simp: close_did_def arena_close_def Let_def)

lemma node_did:
  assumes k: "\<not> as_exhausted k" and pl: "opt_pl (h_opt h)" and o: "open_did h b k k1"
    and f: "\<not> as_exhausted k1 \<Longrightarrow> forest_did kids k1 k2" "as_exhausted k1 \<Longrightarrow> as_exhausted k2"
    and c: "\<not> as_exhausted k2 \<Longrightarrow> close_did k2 k3" "as_exhausted k2 \<Longrightarrow> as_exhausted k3"
  shows "tree_did (Tree h b kids) k k3"
  unfolding tree_did_def
proof (intro impI)
  let ?n = "ba_size (as_nodes k)"
  assume small: "?n + tree_nodes (Tree h b kids) < 2 ^ 32"
  show "arena_did k (flat_tree (Tree h b kids) ?n) (tree_ts (Tree h b kids)) k3"
  proof (cases "as_exhausted k2")
    case True
    then show ?thesis using c(2) by (simp add: arena_did_def)
  next
    case False
    then have k1: "\<not> as_exhausted k1" using f(2) by blast
    have o1: "as_open k1 = of_nat ?n" "ba_elems (as_nodes k1) = ba_elems (as_nodes k) @ [(flat_node h b 0)\<lparr>at_end := as_open k\<rparr>]"
      "as_root_ts k1 = (if ba_elems (as_nodes k) = [] \<and> opt_ts (h_opt h) then Some (header_ts h b) else as_root_ts k)"
      using o k1 small by (auto simp: open_did_def)
    have "arena_did k1 (flat_forest kids (?n + 1)) None k2"
      using f(1) [OF k1] small pl by (simp add: forest_did_def o1(2))
    then have o2: "as_open k2 = of_nat ?n"
      "ba_elems (as_nodes k2) = ba_elems (as_nodes k) @ (flat_node h b 0)\<lparr>at_end := as_open k\<rparr> # flat_forest kids (?n + 1)"
      "as_root_ts k2 = as_root_ts k1"
      using False o1(1,2) by (auto simp: arena_did_def)
    have len: "length (flat_forest kids (?n + 1)) = forest_nodes kids" by (rule length_flat_forest) simp
    have k3: "k3 = fst (arena_close (k2, ()))" using c(1) [OF False] by (simp add: close_did_def)
    have "arena_close (k2, ()) = (k2\<lparr>as_open := as_open k, as_nodes := (as_nodes k2)\<lparr>ba_elems :=
        ba_elems (as_nodes k) @ (flat_node h b 0)\<lparr>at_end := of_nat (?n + 1 + forest_nodes kids)\<rparr> # flat_forest kids (?n + 1)\<rparr>\<rparr>, ())"
      using arena_close_at [OF False o2(1) _ o2(2), of "()"] small by (simp add: len [simplified])
    then show ?thesis
      using False pl o1(3) o2(3) by (auto simp: k3 arena_did_def tree_ts_def flat_node_def)
  qed
qed

lemma runs_through_tree: "runs_through env tgt src (tree_events t) (tree_did t)"
proof (induction t)
  case (Tree h b kids)
  show ?case
  proof (cases "opt_pl (h_opt h)")
    case False
    then show ?thesis by (rule runs_through_leaf)
  next
    case True
    have kids: "runs_through env tgt src (forest_event_list kids) (forest_did kids)"
      by (rule runs_through_forest) (rule Tree)
    have tail: "runs_through env tgt src (forest_event_list kids @ [Ev_close])
        (\<lambda>k1 k3. \<exists>k2. forest_did kids k1 k2 \<and> (as_exhausted k2 \<longrightarrow> as_exhausted k3) \<and> (\<not> as_exhausted k2 \<longrightarrow> close_did k2 k3))"
      by (rule runs_through_append [OF kids runs_through_close]) blast
    have "runs_through env tgt src ([Ev_open h b] @ forest_event_list kids @ [Ev_close]) (tree_did (Tree h b kids))"
    proof (rule runs_through_append [OF runs_through_open tail])
      fix k k1 k3
      assume a: "\<not> as_exhausted k" "open_did h b k k1" "as_exhausted k1 \<longrightarrow> as_exhausted k3"
        "\<not> as_exhausted k1 \<longrightarrow> (\<exists>k2. forest_did kids k1 k2 \<and> (as_exhausted k2 \<longrightarrow> as_exhausted k3) \<and> (\<not> as_exhausted k2 \<longrightarrow> close_did k2 k3))"
      show "tree_did (Tree h b kids) k k3"
      proof (cases "as_exhausted k1")
        case e: True
        then show ?thesis using a(3) by (simp add: tree_did_def arena_did_def)
      next
        case e: False
        then obtain k2 where "forest_did kids k1 k2" "as_exhausted k2 \<longrightarrow> as_exhausted k3" "\<not> as_exhausted k2 \<longrightarrow> close_did k2 k3"
          using a(4) by blast
        then show ?thesis using node_did [OF a(1) True a(2), of kids k2 k3] e by blast
      qed
    qed
    then show ?thesis using True by simp
  qed
qed

section \<open>The whole decode\<close>

interpretation arena_walk: walk_client span_cursor "\<lambda>_. True" "\<lambda>buf. buf" "arena_ops tgt src" "arena_ops tgt src"
  by unfold_locales simp_all

text \<open>The call is a run of the reference's hooks between the reservation and the clean-up.\<close>

lemma decode_into_runs:
  assumes "target_ok tgt" and "length input < 2 ^ size_bits tgt" and "frame_events VERIFY input = (es, e)"
    and "ba_reserve src (arena_node_size tgt) (arena_node_align tgt) 8 ba_empty m = (True, nodes, m0)"
    and "run_events (span_env tgt src) (arena_ops tgt src) es e (walk_stack 8) (arena_init nodes, m0) = (r, st, (k, m1))"
  shows "decode_into tgt src input m =
    Some (let m2 = ws_destroy (span_env tgt src) st m1;
              dropped = ba_destroy src (arena_node_size tgt) (arena_node_align tgt) (as_nodes k) m2
          in case r of
               Some x \<Rightarrow> (Inl x, dropped)
             | None \<Rightarrow> if as_exhausted k then (Inl TLV_NESTING_TOO_DEEP, dropped)
                       else (Inr \<lparr>ar_nodes = as_nodes k, ar_root_ts = as_root_ts k\<rparr>, m2))"
proof -
  let ?env = "span_env tgt src"
  have env: "we_ops ?env = span_cursor" "32 \<le> we_width ?env" "length input < 2 ^ we_width ?env" "we_policy ?env = VERIFY"
    using assms(1,2) by (simp_all add: span_env_def target_ok_def)
  have ev: "frame_events (we_policy ?env) input = (es, e)" using assms(3) env(4) by simp
  obtain r1 st1 sm1 where w: "walk ?env (arena_ops tgt src) input (walk_stack 8) (arena_init nodes, m0) = Some (r1, st1, sm1)"
    and run: "run_events ?env (arena_ops tgt src) es e (ws_shape (walk_stack 8 :: bytes walk_stack_t)) (arena_init nodes, m0) = (r1, ws_shape st1, sm1)"
    using arena_walk.walk_spec [OF env(1,2) TrueI env(3) walk_stack_empty ev] by blast
  have "r1 = r" "ws_shape st1 = st" "sm1 = (k, m1)" using run assms(5) by (simp_all add: ws_shape_empty)
  then show ?thesis using w assms(4) ws_destroy_shape [of ?env st1 m1] by (simp add: decode_into_def Let_def)
qed

lemma ba_reserve_empty: "ba_reserve src es ea 8 ba_empty m = (True, nodes, m0) \<Longrightarrow> ba_elems nodes = []"
  using ba_reserve_spec [of src es ea 8 ba_empty m True nodes m0] by (simp add: ba_empty_def)

text \<open>On an accepted frame: the flattening, or out of room.\<close>

lemma decode_into_accepts:
  assumes "target_ok tgt" and "length input < 2 ^ size_bits tgt" and t: "parse_frame VERIFY input = Inr t" and small: "tree_nodes t < 2 ^ 32"
  shows "\<exists>res m'. decode_into tgt src input m = Some (res, m') \<and>
    (case res of Inl x \<Rightarrow> x = TLV_NESTING_TOO_DEEP
     | Inr ar \<Rightarrow> ba_elems (ar_nodes ar) = flat_tree t 0 \<and> ar_root_ts ar = tree_ts t)"
proof -
  let ?reserve = "ba_reserve src (arena_node_size tgt) (arena_node_align tgt) 8 (ba_empty :: arena_tlv_t block_array_t) m"
  obtain ok nodes m0 where res: "?reserve = (ok, nodes, m0)" by (metis prod_cases3)
  show ?thesis
  proof (cases ok)
    case False
    then show ?thesis using res by (simp add: decode_into_def)
  next
    case True
    note res = res [unfolded eq_True [THEN iffD2, OF True]]
    have ev: "frame_events VERIFY input = (tree_events t, None)" using frame_events_parse [of VERIFY input] t by simp
    let ?run = "run_events (span_env tgt src) (arena_ops tgt src) (tree_events t) None (walk_stack 8) (arena_init nodes, m0)"
    obtain r st k m1 where run: "?run = (r, st, (k, m1))" by (metis prod_cases3)
    have "r = Some TLV_NESTING_TOO_DEEP \<or> r = None \<and> tree_did t (arena_init nodes) k"
      by (rule runs_throughE [OF runs_through_tree [of "span_env tgt src" tgt src t], of "[]" None "walk_stack 8" "arena_init nodes" m0])
         (use run in \<open>auto simp: arena_init_def\<close>)
    moreover have "as_exhausted k \<or> ba_elems (as_nodes k) = flat_tree t 0 \<and> as_root_ts k = tree_ts t" if "tree_did t (arena_init nodes) k"
      using that small ba_reserve_empty [OF res] by (auto simp: tree_did_def arena_did_def arena_init_def)
    ultimately show ?thesis using decode_into_runs [OF assms(1,2) ev res run] by (auto simp: Let_def)
  qed
qed

lemma decode_into_rejects:
  assumes "target_ok tgt" and "length input < 2 ^ size_bits tgt" and p: "parse_frame VERIFY input = Inl e"
  shows "\<exists>m'. decode_into tgt src input m = Some (Inl e, m') \<or> decode_into tgt src input m = Some (Inl TLV_NESTING_TOO_DEEP, m')"
proof -
  let ?reserve = "ba_reserve src (arena_node_size tgt) (arena_node_align tgt) 8 (ba_empty :: arena_tlv_t block_array_t) m"
  obtain ok nodes m0 where res: "?reserve = (ok, nodes, m0)" by (metis prod_cases3)
  obtain es where ev: "frame_events VERIFY input = (es, Some e)" using frame_events_parse [of VERIFY input] p by auto
  show ?thesis
  proof (cases ok)
    case False
    then show ?thesis using res by (auto simp: decode_into_def)
  next
    case True
    note res = res [unfolded eq_True [THEN iffD2, OF True]]
    let ?run = "run_events (span_env tgt src) (arena_ops tgt src) es (Some e) (walk_stack 8) (arena_init nodes, m0)"
    obtain r st k m1 where run: "?run = (r, st, (k, m1))" by (metis prod_cases3)
    have "r = Some e \<or> r = Some TLV_NESTING_TOO_DEEP"
      using run_events_outcome [of "span_env tgt src" "arena_ops tgt src" es "Some e" "walk_stack 8" "(arena_init nodes, m0)"] run by simp
    then show ?thesis using decode_into_runs [OF assms(1,2) ev res run] by (auto simp: Let_def)
  qed
qed

text \<open>With a source that refuses nothing the sink never runs out and the verdict is the grammar's.\<close>

lemma arena_push_grants:
  assumes "always_grants src" and "\<not> as_exhausted (fst sm)"
  shows "\<not> as_exhausted (fst (arena_push tgt src h b sm))"
proof -
  have g: "fst (try_alloc src m n a) \<noteq> None" for m n a using assms(1) by (simp add: always_grants_def)
  have "fst (ba_regrow src es ea want a m)" for es ea want and a :: "arena_tlv_t block_array_t" and m
    using g [of m "want * es" ea] by (auto simp: ba_regrow_def split: prod.splits option.splits)
  then have "fst (ba_push_back src es ea v a m)" for es ea v and a :: "arena_tlv_t block_array_t" and m
    by (auto simp: ba_push_back_def Let_def split: prod.splits) (metis fst_conv)
  then have "ok" if "ba_push_back src es ea v a m = (ok, a', m')" for es ea v and a a' :: "arena_tlv_t block_array_t" and m m' ok
    using that by (metis fst_conv)
  then show ?thesis
    using assms(2) by (auto simp: arena_push_def Let_def split: prod.splits)
qed

lemma arena_hooks_grant:
  assumes "always_grants src" and "\<not> as_exhausted (fst sm)"
  shows "\<not> as_exhausted (fst (on_open (arena_ops tgt src) h b sm))" "\<not> as_exhausted (fst (on_leaf (arena_ops tgt src) h b sm))"
    "\<not> as_exhausted (fst (on_close (arena_ops tgt src) sm))"
  using arena_push_grants [OF assms, of tgt h b] assms(2)
  by (auto simp: arena_ops_def arena_open_def arena_close_def Let_def split: prod.splits)

lemma run_events_not_exhausted:
  assumes "we_spill env = Some src" and g: "always_grants src"
  shows "\<not> as_exhausted (fst sm) \<Longrightarrow> \<not> as_exhausted (fst (snd (snd (run_events env (arena_ops tgt src) es r st sm))))"
proof (induction es arbitrary: st sm)
  case (Cons ev es)
  show ?case
  proof (cases ev)
    case (Ev_open h b)
    define sm1 where "sm1 = on_open (arena_ops tgt src) h b sm"
    obtain k st2 m2 where push: "ws_push env \<lparr>wf_body = (), wf_pos = 0\<rparr> st (snd sm1) = (k, st2, m2)" by (metis prod_cases3)
    have "\<not> as_exhausted (fst (fst sm1, m2))" using arena_hooks_grant(1) [OF g Cons.prems] by (simp add: sm1_def)
    from Cons.IH [OF this, of st2] this show ?thesis using push by (simp add: Ev_open sm1_def [symmetric])
  qed (use Cons arena_hooks_grant(2,3) [OF g Cons.prems] in simp_all)
qed simp

lemma decode_into_grants:
  assumes "target_ok tgt" and "length input < 2 ^ size_bits tgt" and g: "always_grants src"
  shows "\<exists>res m'. decode_into tgt src input m = Some (res, m') \<and>
    (case parse_frame VERIFY input of Inl e \<Rightarrow> res = Inl e | Inr t \<Rightarrow> \<exists>ar. res = Inr ar)"
proof -
  let ?env = "span_env tgt src"
  obtain nodes m0 where res: "ba_reserve src (arena_node_size tgt) (arena_node_align tgt) 8 (ba_empty :: arena_tlv_t block_array_t) m = (True, nodes, m0)"
  proof -
    obtain ok nodes m0 where r: "ba_reserve src (arena_node_size tgt) (arena_node_align tgt) 8 (ba_empty :: arena_tlv_t block_array_t) m = (ok, nodes, m0)"
      by (metis prod_cases3)
    then have ok using g [unfolded always_grants_def, rule_format, of m "8 * arena_node_size tgt" "arena_node_align tgt"]
      by (auto simp: ba_reserve_def ba_regrow_def ba_empty_def split: prod.splits option.splits)
    with r show ?thesis using that by simp
  qed
  obtain es e where ev: "frame_events VERIFY input = (es, e)" by fastforce
  obtain r st k m1 where run: "run_events ?env (arena_ops tgt src) es e (walk_stack 8) (arena_init nodes, m0) = (r, st, (k, m1))"
    by (metis prod_cases3)
  have spill: "we_spill ?env = Some src" by (simp add: span_env_def)
  have "r = e" using run_events_grants [OF spill g, of "arena_ops tgt src" es e "walk_stack 8" "(arena_init nodes, m0)"] run by simp
  moreover have "\<not> as_exhausted k"
    using run_events_not_exhausted [OF spill g, of "(arena_init nodes, m0)" tgt es e "walk_stack 8"] run by (simp add: arena_init_def)
  ultimately show ?thesis
    using decode_into_runs [OF assms(1,2) ev res run] frame_events_parse [of VERIFY input] ev
    by (cases "parse_frame VERIFY input") (auto simp: Let_def)
qed

section \<open>Blocks\<close>

abbreviation sink_block :: "target \<Rightarrow> arena_sink \<Rightarrow> block set" where
  "sink_block tgt k \<equiv> ba_block (arena_node_size tgt) (arena_node_align tgt) (as_nodes k)"

lemma set_end_block [simp]: "ba_block es ea (set_end i e a) = ba_block es ea a"
  by (simp add: ba_block_def set_end_def)

lemma arena_open_block:
  "arena_open tgt src h b (k, m) = (k', m') \<Longrightarrow>
     \<exists>k1. arena_push tgt src h b (k, m) = (k1, m') \<and> sink_block tgt k' = sink_block tgt k1"
  by (auto simp: arena_open_def Let_def split: prod.splits if_splits)

lemma arena_close_block: "arena_close (k, m) = (k', m') \<Longrightarrow> m' = m \<and> sink_block tgt k' = sink_block tgt k"
  by (auto simp: arena_close_def Let_def split: if_splits)

context block_source
begin

lemma arena_push_owned:
  assumes req: "request_ok w (arena_node_size tgt) (arena_node_align tgt)"
    and p: "arena_push tgt ops h b (k, m) = (k', m')" and inv: "inv m (K \<union> sink_block tgt k)" and apart: "K \<inter> sink_block tgt k = {}"
  shows "inv m' (K \<union> sink_block tgt k') \<and> K \<inter> sink_block tgt k' = {}"
proof -
  obtain v ok nodes' where push: "ba_push_back ops (arena_node_size tgt) (arena_node_align tgt) v (as_nodes k) m = (ok, nodes', m')"
    and k': "as_nodes k' = nodes'"
    using p by (auto simp: arena_push_def Let_def split: prod.splits if_splits)
  have "K \<union> sink_block tgt k - sink_block tgt k = K" using apart by blast
  then show ?thesis using push_back_owned [OF inv _ req push] k' by simp
qed

lemma arena_owns:
  assumes "request_ok w (arena_node_size tgt) (arena_node_align tgt)"
  shows "sink_owns inv (sink_block tgt) (arena_ops tgt ops)"
  unfolding sink_owns_def keeps_own_def
proof (intro conjI allI impI)
  fix h b K k m k' m'
  assume i: "inv m (K \<union> sink_block tgt k)" "K \<inter> sink_block tgt k = {}"
  {
    assume "on_open (arena_ops tgt ops) h b (k, m) = (k', m')"
    then obtain k1 where k1: "arena_push tgt ops h b (k, m) = (k1, m')" "sink_block tgt k' = sink_block tgt k1"
      using arena_open_block [of tgt ops h b k m k' m'] by (auto simp: arena_ops_def)
    from arena_push_owned [OF assms k1(1) i] k1(2)
    show "inv m' (K \<union> sink_block tgt k')" "K \<inter> sink_block tgt k' = {}" by simp_all
  }
  {
    assume "on_leaf (arena_ops tgt ops) h b (k, m) = (k', m')"
    then show "inv m' (K \<union> sink_block tgt k')" "K \<inter> sink_block tgt k' = {}"
      using arena_push_owned [OF assms _ i, of h b k' m'] by (simp_all add: arena_ops_def)
  }
  {
    assume "on_close (arena_ops tgt ops) (k, m) = (k', m')"
    then show "inv m' (K \<union> sink_block tgt k')" "K \<inter> sink_block tgt k' = {}"
      using arena_close_block [of k m k' m'] i by (auto simp: arena_ops_def)
  }
qed

lemma decode_into_owned:
  assumes "target_ok tgt" and "size_bits tgt = w" and "length input < 2 ^ w" and "inv m L"
    and "decode_into tgt ops input m = Some (res, m')"
  shows "case res of Inl e \<Rightarrow> inv m' L
    | Inr ar \<Rightarrow> inv m' (L \<union> ba_block (arena_node_size tgt) (arena_node_align tgt) (ar_nodes ar)) \<and>
        L \<inter> ba_block (arena_node_size tgt) (arena_node_align tgt) (ar_nodes ar) = {}"
proof -
  let ?es = "arena_node_size tgt" and ?ea = "arena_node_align tgt" and ?env = "span_env tgt ops"
  have req: "request_ok w ?es ?ea" and env: "we_spill ?env = Some ops" "request_ok w (we_frame_size ?env) (we_frame_align ?env)"
    using assms(1,2) by (simp_all add: span_env_def target_ok_def)
  obtain ok nodes m0 where reserve: "ba_reserve ops ?es ?ea 8 (ba_empty :: arena_tlv_t block_array_t) m = (ok, nodes, m0)"
    by (metis prod_cases3)
  have "ba_block ?es ?ea (ba_empty :: arena_tlv_t block_array_t) = {}" by (simp add: ba_block_def ba_empty_def)
  then have own0: "inv m0 (L \<union> ba_block ?es ?ea nodes) \<and> L \<inter> ba_block ?es ?ea nodes = {}"
    using reserve_owned [OF assms(4) _ req reserve] by simp
  have drop: "inv (ba_destroy ops ?es ?ea a x) L" if "inv x (L \<union> ba_block ?es ?ea a)" "L \<inter> ba_block ?es ?ea a = {}"
    for x and a :: "arena_tlv_t block_array_t"
  proof -
    have "L \<union> ba_block ?es ?ea a - ba_block ?es ?ea a = L" using that(2) by blast
    then show ?thesis using destroy_owned [OF that(1), of ?es ?ea a] by simp
  qed
  show ?thesis
  proof (cases ok)
    case False
    then show ?thesis using assms(5) reserve drop own0 by (auto simp: decode_into_def)
  next
    case True
    note reserve = reserve [unfolded eq_True [THEN iffD2, OF True]]
    obtain es e where ev: "frame_events VERIFY input = (es, e)" by fastforce
    obtain r st k m1 where run: "run_events ?env (arena_ops tgt ops) es e (walk_stack 8) (arena_init nodes, m0) = (r, st, (k, m1))"
      by (metis prod_cases3)
    have "ws_block ?env (walk_stack 8 :: unit walk_stack_t) = {}" by (simp add: ws_block_def walk_stack_def)
    then have own1: "inv m1 (L \<union> sink_block tgt k \<union> ws_block ?env st)" "L \<inter> sink_block tgt k = {}"
      "(L \<union> sink_block tgt k) \<inter> ws_block ?env st = {}"
      using run_events_owned [OF env arena_owns [OF req] _ _ _ run, of L] own0 by (simp_all add: arena_init_def)
    then have own2: "inv (ws_destroy ?env st m1) (L \<union> sink_block tgt k)" by (intro ws_destroy_owned [OF env(1)])
    have len: "length input < 2 ^ size_bits tgt" using assms(2,3) by simp
    show ?thesis
      using decode_into_runs [OF assms(1) len ev reserve run] assms(5) own2 own1(2) drop [OF own2 own1(2)]
      by (auto simp: Let_def split: option.splits if_splits)
  qed
qed

end

section \<open>Ranging over siblings\<close>

text \<open>The loop of the class comment: from the first child to the parent's extent.\<close>

partial_function (option) arena_siblings :: "tlv_arena_t \<Rightarrow> 32 word \<Rightarrow> 32 word \<Rightarrow> 32 word list option" where
  "arena_siblings ar j stop =
     (if j < stop then Option.bind (arena_siblings ar (next_sibling ar j) stop) (\<lambda>js. Some (j # js)) else Some [])"

primrec forest_roots :: "tlv_tree list \<Rightarrow> nat \<Rightarrow> 32 word list" where
  "forest_roots [] i = []"
| "forest_roots (t # ts) i = of_nat i # forest_roots ts (i + tree_nodes t)"

lemma flat_tree_hd: "\<exists>rest. flat_tree t i = flat_node (tree_header t) (tree_bytes t) (i + tree_nodes t) # rest"
  by (cases t) auto

lemma tree_nodes_pos: "0 < tree_nodes t"
  by (cases t) simp

lemma of_nat_less_32: "a < b \<Longrightarrow> b < 2 ^ 32 \<Longrightarrow> (of_nat a :: 32 word) < of_nat b"
  by (simp add: word_less_nat_alt unat_of_nat_word)

lemma arena_siblings_forest:
  "ba_elems (ar_nodes ar) = pre @ flat_forest ts (length pre) @ post \<Longrightarrow> length pre + forest_nodes ts < 2 ^ 32 \<Longrightarrow>
     arena_siblings ar (of_nat (length pre)) (of_nat (length pre + forest_nodes ts)) = Some (forest_roots ts (length pre))"
proof (induction ts arbitrary: pre)
  case Nil
  then show ?case by (subst arena_siblings.simps) simp
next
  case (Cons t ts)
  let ?i = "length pre"
  obtain rest where r: "flat_tree t ?i = flat_node (tree_header t) (tree_bytes t) (?i + tree_nodes t) # rest"
    using flat_tree_hd by blast
  have small: "?i + tree_nodes t < 2 ^ 32" using Cons.prems(2) by simp
  have "unat (of_nat ?i :: 32 word) = ?i" using Cons.prems(2) by (intro unat_of_nat_word) simp
  then have next_i: "next_sibling ar (of_nat ?i) = of_nat (?i + tree_nodes t)"
    by (simp add: next_sibling_def Cons.prems(1) r flat_node_def nth_append)
  have "(of_nat ?i :: 32 word) < of_nat (?i + forest_nodes (t # ts))"
    using Cons.prems(2) tree_nodes_pos [of t] by (intro of_nat_less_32) simp_all
  moreover have "arena_siblings ar (of_nat (length (pre @ flat_tree t ?i))) (of_nat (length (pre @ flat_tree t ?i) + forest_nodes ts)) =
      Some (forest_roots ts (length (pre @ flat_tree t ?i)))"
    using Cons.prems by (intro Cons.IH) simp_all
  ultimately show ?case by (subst arena_siblings.simps) (simp add: next_i add.assoc)
qed

text \<open>Every node takes at least four bytes.\<close>

lemma forest_nodes_bytes:
  "(\<And>t. t \<in> set ts \<Longrightarrow> 4 * tree_nodes t \<le> length (tree_bytes t)) \<Longrightarrow> 4 * forest_nodes ts \<le> length (concat (map tree_bytes ts))"
  by (induction ts) fastforce+

lemma tree_nodes_bytes: "parse_frame VERIFY (tree_bytes t) = Inr t \<Longrightarrow> 4 * tree_nodes t \<le> length (tree_bytes t)"
proof (induction t)
  case (Tree h b kids)
  from Tree.prems have h: "header_of VERIFY b = Inr h" and tot: "h_total h = length b"
    and kids: "(if opt_pl (h_opt h) then parse_forest VERIFY (subspan (h_header h) (h_length h) b) else Inr []) = Inr kids"
    by (auto simp: parse_frame_def split: sum.splits if_splits)
  note sz = header_sized_bounds [OF header_of_Inr(8) [OF h]]
  show ?case
  proof (cases "opt_pl (h_opt h)")
    case False
    then show ?thesis using sz(5) tot by simp
  next
    case True
    have "4 * forest_nodes kids \<le> length (concat (map tree_bytes kids))"
      using Tree.IH parse_frame_kids [OF Tree.prems] by (intro forest_nodes_bytes) simp
    also have "concat (map tree_bytes kids) = subspan (h_header h) (h_length h) b"
      using kids True parse_forest_bytes by simp
    finally have "4 * forest_nodes kids \<le> h_length h" by simp
    then show ?thesis using True sz(1,3) tot by simp
  qed
qed

section \<open>Properties\<close>

text \<open>
  C5. The terminus decode returns on every frame with the verdict of the recursive descent, or
  with the one refusal the format has for missing resources, which does not happen when the
  source refuses nothing; and when it succeeds the arena
  holds the tree's nodes in pre-order, each with its trailer-less bytes and the index one past
  its last descendant, together with the root's time stamp, and stepping from extent to extent
  visits exactly the root's children and ends.
\<close>

theorem decode_into_flattens:
  assumes "target_ok tgt" and "length input < 2 ^ 32"
  shows "\<exists>res m'. decode_into tgt src input m = Some (res, m') \<and>
    (case parse_frame VERIFY input of
       Inl e \<Rightarrow> res = Inl e \<or> res = Inl TLV_NESTING_TOO_DEEP
     | Inr t \<Rightarrow> res = Inl TLV_NESTING_TOO_DEEP \<or>
         (\<exists>ar. res = Inr ar \<and> ba_elems (ar_nodes ar) = flat_tree t 0 \<and> ar_root_ts ar = tree_ts t \<and>
            (opt_pl (h_opt (tree_header t)) \<longrightarrow>
             arena_siblings ar (first_child 0) (at_end (ba_elems (ar_nodes ar) ! 0)) = Some (forest_roots (tree_children t) 1)))) \<and>
    (always_grants src \<longrightarrow> (case parse_frame VERIFY input of Inl e \<Rightarrow> res = Inl e | Inr t \<Rightarrow> \<exists>ar. res = Inr ar))"
proof -
  have "(2 :: nat) ^ 32 \<le> 2 ^ size_bits tgt" using assms(1) by (intro power_increasing) (simp_all add: target_ok_def)
  then have len: "length input < 2 ^ size_bits tgt" using assms(2) by simp
  show ?thesis
  proof (cases "parse_frame VERIFY input")
    case (Inl e)
    show ?thesis
      using decode_into_rejects [OF assms(1) len Inl, of src m] decode_into_grants [OF assms(1) len, of src m] by (auto simp: Inl)
  next
    case (Inr t)
    then have b: "tree_bytes t = input" using parse_frame_header by blast
    then have small: "tree_nodes t < 2 ^ 32" using tree_nodes_bytes [of t] Inr assms(2) by simp
    obtain res m' where d: "decode_into tgt src input m = Some (res, m')"
      and r: "case res of Inl x \<Rightarrow> x = TLV_NESTING_TOO_DEEP
        | Inr ar \<Rightarrow> ba_elems (ar_nodes ar) = flat_tree t 0 \<and> ar_root_ts ar = tree_ts t"
      using decode_into_accepts [OF assms(1) len Inr small, of src m] by blast
    have "arena_siblings ar (first_child 0) (at_end (ba_elems (ar_nodes ar) ! 0)) = Some (forest_roots (tree_children t) 1)"
      if e: "ba_elems (ar_nodes ar) = flat_tree t 0" and pl: "opt_pl (h_opt (tree_header t))" for ar
    proof -
      obtain h y kids where t: "t = Tree h y kids" by (cases t)
      have n: "tree_nodes t = 1 + forest_nodes kids" using pl by (simp add: t)
      have "ba_elems (ar_nodes ar) = [flat_node h y (tree_nodes t)] @ flat_forest kids (length [flat_node h y (tree_nodes t)]) @ []"
        using pl by (simp add: e t)
      note sib = arena_siblings_forest [OF this]
      have "at_end (ba_elems (ar_nodes ar) ! 0) = of_nat (1 + forest_nodes kids)" using n by (simp add: e t flat_node_def)
      then show ?thesis using sib small n by (simp add: first_child_def t)
    qed
    with d r show ?thesis using decode_into_grants [OF assms(1) len, of src m] by (cases res) (auto simp: Inr)
  qed
qed

theorem decode_into_flattens_witness:
  "\<exists>ar m'. decode_into host64 example_heap (tlv_image example_tlv) () = Some (Inr ar, m') \<and>
     ba_elems (ar_nodes ar) = flat_tree (image_tree example_tlv) 0"
  using decode_into_flattens [OF target_ok_host64, of "tlv_image example_tlv" example_heap "()"] example_tlv_facts(3) example_parse
    example_heap_grants by auto



end
