(* ===== verification/Packed_Path.thy ===== *)
theory Packed_Path
  imports Tlv Block_Array
begin

text \<open>
  The packed \<^verbatim>\<open>PATH\<close> body: the record framing of \<^verbatim>\<open>packed_path.hpp\<close>, the PAIR element of
  \<^verbatim>\<open>path_pair.hpp\<close>, the mixed-element walk, census and emitter of \<^verbatim>\<open>path_element.hpp\<close> and the
  session-name reading of \<^verbatim>\<open>pair.hpp\<close>. The lemmas describe a body as the list of the records it
  tiles into: the walk recovers that list, the emitter writes it, and the key rule is the
  census with no escape in it.
\<close>

section \<open>Record framing\<close>

abbreviation kPackedSegMaxBytes :: nat where "kPackedSegMaxBytes \<equiv> 255"
abbreviation kPackedEscapeOverhead :: nat where "kPackedEscapeOverhead \<equiv> 3"
abbreviation kPackedEscapeLen :: byte where "kPackedEscapeLen \<equiv> 0"
abbreviation kPackedEscapeKindPair :: byte where "kPackedEscapeKindPair \<equiv> 0x16"

definition packed_record_span :: "bytes \<Rightarrow> nat \<Rightarrow> nat" where
  "packed_record_span body at =
     (if at \<ge> length body then 0
      else let len = body ! at in
        if len \<noteq> kPackedEscapeLen then
          (if at + 1 + unat len > length body then 0 else 1 + unat len)
        else if at + kPackedEscapeOverhead > length body then 0
        else let esc = unat (body ! (at + 2)) in
          if at + kPackedEscapeOverhead + esc > length body then 0 else kPackedEscapeOverhead + esc)"

definition packed_record_is_escape :: "bytes \<Rightarrow> nat \<Rightarrow> bool" where
  "packed_record_is_escape body at \<longleftrightarrow> at < length body \<and> body ! at = kPackedEscapeLen"

definition packed_escape_kind :: "bytes \<Rightarrow> nat \<Rightarrow> byte option" where
  "packed_escape_kind body at =
     (if \<not> packed_record_is_escape body at \<or> packed_record_span body at = 0 then None
      else Some (body ! (at + 1)))"

definition packed_escape_payload :: "bytes \<Rightarrow> nat \<Rightarrow> bytes option" where
  "packed_escape_payload body at =
     (if \<not> packed_record_is_escape body at then None
      else let span = packed_record_span body at in
        if span = 0 then None
        else Some (subspan (at + kPackedEscapeOverhead) (span - kPackedEscapeOverhead) body))"

definition emit_path_escape_vec :: "bytes \<Rightarrow> byte \<Rightarrow> bytes \<Rightarrow> bool \<times> bytes" where
  "emit_path_escape_vec out kind payload =
     (if length payload > kPackedSegMaxBytes then (False, out)
      else (True, out @ [kPackedEscapeLen] @ [kind] @ [of_nat (length payload)] @ payload))"

function packed_path_valid_key_from :: "bytes \<Rightarrow> nat \<Rightarrow> bool" where
  "packed_path_valid_key_from body at =
     (if at < length body then
        let len = body ! at in
        if len = kPackedEscapeLen then False
        else if at + 1 + unat len > length body then False
        else packed_path_valid_key_from body (at + (1 + unat len))
      else True)"
  by pat_completeness auto
termination by (relation "measure (\<lambda>(body, at). length body - at)") auto

definition packed_path_valid_key :: "bytes \<Rightarrow> bool" where
  "packed_path_valid_key body = packed_path_valid_key_from body 0"

definition emit_path_segment_vec :: "bytes \<Rightarrow> bytes \<Rightarrow> bool \<times> bytes" where
  "emit_path_segment_vec out seg =
     (if seg = [] \<or> length seg > kPackedSegMaxBytes then (False, out)
      else (True, out @ [of_nat (length seg)] @ seg))"

text \<open>The span form: the count it answers and the bytes of \<open>out\<close> after it.\<close>

definition store_path_segment :: "bytes \<Rightarrow> bytes \<Rightarrow> nat \<times> bytes" where
  "store_path_segment out seg =
     (if seg = [] \<or> length seg > kPackedSegMaxBytes then (0, out)
      else if out = [] then (1 + length seg, out)
      else if length out < 1 + length seg then (0, out)
      else (1 + length seg, [of_nat (length seg)] @ seg @ drop (1 + length seg) out))"

definition emit_path_segment :: "'m source_ops \<Rightarrow> bytes \<Rightarrow> bytes_t \<Rightarrow> 'm \<Rightarrow> bool \<times> bytes_t \<times> 'm" where
  "emit_path_segment src seg out m =
     (if seg = [] \<or> length seg > kPackedSegMaxBytes then (False, out, m)
      else case bytes_append src [of_nat (length seg)] out m of
        (False, out', m') \<Rightarrow> (False, out', m')
      | (True, out', m') \<Rightarrow> bytes_append src seg out' m')"

definition emit_path_escape :: "'m source_ops \<Rightarrow> byte \<Rightarrow> bytes \<Rightarrow> bytes_t \<Rightarrow> 'm \<Rightarrow> bool \<times> bytes_t \<times> 'm" where
  "emit_path_escape src kind payload out m =
     (if length payload > kPackedSegMaxBytes then (False, out, m)
      else case bytes_append src [kPackedEscapeLen, kind, of_nat (length payload)] out m of
        (False, out', m') \<Rightarrow> (False, out', m')
      | (True, out', m') \<Rightarrow> bytes_append src payload out' m')"

section \<open>The PAIR element\<close>

abbreviation kPathPairKind :: byte where "kPathPairKind \<equiv> kPackedEscapeKindPair"
abbreviation kPathPairBodyBytes :: nat where "kPathPairBodyBytes \<equiv> kPairBytes"
abbreviation kPathPairRecordBytes :: nat where "kPathPairRecordBytes \<equiv> kPackedEscapeOverhead + kPathPairBodyBytes"

definition path_pair_record_valid :: "byte \<Rightarrow> nat \<Rightarrow> bool" where
  "path_pair_record_valid kind payload_len \<longleftrightarrow> kind = kPathPairKind \<and> payload_len = kPathPairBodyBytes"

definition path_pair_store :: "bytes \<Rightarrow> pair_t \<Rightarrow> bytes" where
  "path_pair_store out pair =
     (let out = out[0 := kPackedEscapeLen];
          out = out[1 := kPathPairKind];
          out = out[2 := of_nat kPathPairBodyBytes]
      in take kPackedEscapeOverhead out @ pair_store_le (drop kPackedEscapeOverhead out) pair)"

definition emit_path_pair :: "'m source_ops \<Rightarrow> pair_t \<Rightarrow> bytes_t \<Rightarrow> 'm \<Rightarrow> bool \<times> bytes_t \<times> 'm" where
  "emit_path_pair src pair out m =
     bytes_append src (path_pair_store (replicate kPathPairRecordBytes 0) pair) out m"

definition path_pair_load :: "bytes \<Rightarrow> pair_t" where
  "path_pair_load payload = pair_load_le payload"

definition path_pair_at :: "bytes \<Rightarrow> nat \<Rightarrow> pair_t option" where
  "path_pair_at body at =
     (case (packed_escape_kind body at, packed_escape_payload body at) of
        (Some kind, Some payload) \<Rightarrow>
          if \<not> path_pair_record_valid kind (length payload) then None else Some (path_pair_load payload)
      | _ \<Rightarrow> None)"

section \<open>Classified elements\<close>

datatype path_element_kind_t = SEGMENT | PAIR | FOREIGN | MALFORMED

record path_element_t =
  el_kind :: path_element_kind_t
  el_at :: nat
  el_bytes :: nat
  el_payload :: bytes
  el_escape_kind :: byte
  el_pair :: pair_t

definition el_default :: path_element_t where
  "el_default = \<lparr>el_kind = MALFORMED, el_at = 0, el_bytes = 0, el_payload = [], el_escape_kind = 0,
     el_pair = \<lparr>pair_index = 0, pair_generation = 0\<rparr>\<rparr>"

definition el_ok :: "path_element_t \<Rightarrow> bool" where
  "el_ok el \<longleftrightarrow> el_kind el \<noteq> MALFORMED"

definition el_text :: "path_element_t \<Rightarrow> bytes" where
  "el_text el = (if el_kind el = SEGMENT then el_payload el else [])"

definition path_element_at :: "bytes \<Rightarrow> nat \<Rightarrow> path_element_t" where
  "path_element_at body at =
     (let span = packed_record_span body at in
      if span = 0 then el_default\<lparr>el_kind := MALFORMED, el_at := at\<rparr>
      else if \<not> packed_record_is_escape body at then
        el_default\<lparr>el_kind := SEGMENT, el_at := at, el_bytes := span, el_payload := subspan (at + 1) (span - 1) body\<rparr>
      else
        let kind = body ! (at + 1);
            payload = subspan (at + kPackedEscapeOverhead) (span - kPackedEscapeOverhead) body in
        if kind \<noteq> kPackedEscapeKindPair then
          el_default\<lparr>el_kind := FOREIGN, el_at := at, el_bytes := span, el_payload := payload, el_escape_kind := kind\<rparr>
        else if \<not> path_pair_record_valid kind (length payload) then
          el_default\<lparr>el_kind := MALFORMED, el_at := at, el_bytes := span, el_escape_kind := kind\<rparr>
        else
          el_default\<lparr>el_kind := PAIR, el_at := at, el_bytes := span, el_payload := payload,
            el_escape_kind := kind, el_pair := path_pair_load payload\<rparr>)"

record path_element_cursor_t =
  pec_body :: bytes
  pec_at :: nat

definition pec_done :: "path_element_cursor_t \<Rightarrow> bool" where
  "pec_done c \<longleftrightarrow> pec_at c \<ge> length (pec_body c)"

definition pec_next :: "path_element_cursor_t \<Rightarrow> path_element_t option \<times> path_element_cursor_t" where
  "pec_next c =
     (if pec_done c then (None, c)
      else let el = path_element_at (pec_body c) (pec_at c) in
        (Some el, c\<lparr>pec_at := (if el_ok el then pec_at c + el_bytes el else length (pec_body c))\<rparr>))"

record path_element_census_t =
  ce_well_formed :: bool
  ce_elements :: nat
  ce_segments :: nat
  ce_pairs :: nat
  ce_foreign :: nat

definition census_count :: "path_element_t \<Rightarrow> path_element_census_t \<Rightarrow> path_element_census_t" where
  "census_count el c =
     (let c = c\<lparr>ce_elements := ce_elements c + 1\<rparr> in
      case el_kind el of
        SEGMENT \<Rightarrow> c\<lparr>ce_segments := ce_segments c + 1\<rparr>
      | PAIR \<Rightarrow> c\<lparr>ce_pairs := ce_pairs c + 1\<rparr>
      | FOREIGN \<Rightarrow> c\<lparr>ce_foreign := ce_foreign c + 1\<rparr>
      | MALFORMED \<Rightarrow> c\<lparr>ce_well_formed := False\<rparr>)"

lemma packed_record_span_bounds:
  "packed_record_span body at \<noteq> 0 \<Longrightarrow>
     2 \<le> packed_record_span body at \<and> at + packed_record_span body at \<le> length body"
  by (auto simp: packed_record_span_def Let_def unat_eq_zero Suc_le_eq intro!: Nat.gr0I split: if_splits)

lemma path_element_at_ok_bytes: "el_ok (path_element_at body at) \<Longrightarrow> 2 \<le> el_bytes (path_element_at body at)"
  using packed_record_span_bounds [of body at]
  by (auto simp: path_element_at_def el_ok_def el_default_def Let_def split: if_splits)

lemma pec_next_moves:
  "pec_next c = (Some el, c') \<Longrightarrow>
     pec_body c' = pec_body c \<and> pec_at c < pec_at c' \<and> pec_at c < length (pec_body c)"
  using path_element_at_ok_bytes [of "pec_body c" "pec_at c"]
  by (auto simp: pec_next_def pec_done_def Let_def split: if_splits)

function census_loop :: "path_element_cursor_t \<Rightarrow> path_element_census_t \<Rightarrow> path_element_census_t" where
  "census_loop cur c =
     (case pec_next cur of
        (None, _) \<Rightarrow> c
      | (Some el, cur') \<Rightarrow> census_loop cur' (census_count el c))"
  by pat_completeness auto
termination
  by (relation "measure (\<lambda>(cur, c). length (pec_body cur) - pec_at cur)")
     (auto dest!: pec_next_moves [OF sym] intro: diff_less_mono2)

definition path_element_census :: "bytes \<Rightarrow> path_element_census_t" where
  "path_element_census body =
     census_loop \<lparr>pec_body = body, pec_at = 0\<rparr>
       \<lparr>ce_well_formed = True, ce_elements = 0, ce_segments = 0, ce_pairs = 0, ce_foreign = 0\<rparr>"

definition emit_path_element_vec :: "bytes \<Rightarrow> path_element_t \<Rightarrow> bool \<times> bytes" where
  "emit_path_element_vec out el =
     (case el_kind el of
        SEGMENT \<Rightarrow> emit_path_segment_vec out (el_payload el)
      | PAIR \<Rightarrow> (True, out @ path_pair_store (replicate kPathPairRecordBytes 0) (el_pair el))
      | FOREIGN \<Rightarrow> emit_path_escape_vec out (el_escape_kind el) (el_payload el)
      | MALFORMED \<Rightarrow> (False, out))"

definition emit_path_element :: "'m source_ops \<Rightarrow> path_element_t \<Rightarrow> bytes_t \<Rightarrow> 'm \<Rightarrow> bool \<times> bytes_t \<times> 'm" where
  "emit_path_element src el out m =
     (case el_kind el of
        SEGMENT \<Rightarrow> emit_path_segment src (el_payload el) out m
      | PAIR \<Rightarrow> emit_path_pair src (el_pair el) out m
      | FOREIGN \<Rightarrow> emit_path_escape src (el_escape_kind el) (el_payload el) out m
      | MALFORMED \<Rightarrow> (False, out, m))"

section \<open>Session names\<close>

text \<open>\<open>find c s\<close> is \<^verbatim>\<open>std::string_view::find\<close>, the size of the view standing for \<^verbatim>\<open>npos\<close>.\<close>

primrec find_char :: "byte \<Rightarrow> bytes \<Rightarrow> nat" where
  "find_char c [] = 0"
| "find_char c (x # xs) = (if x = c then 0 else Suc (find_char c xs))"

definition session_slot_of :: "bytes \<Rightarrow> bytes" where
  "session_slot_of name = take (find_char 0x7E name) name"

fun slot_digits :: "bytes \<Rightarrow> 64 word \<Rightarrow> 64 word option" where
  "slot_digits [] slot = Some slot"
| "slot_digits (c # cs) slot =
     (if c < 0x30 \<or> c > 0x39 then None
      else let slot = slot * 10 + (ucast c - 0x30) in
        if slot > 0xFFFFFFFF then None else slot_digits cs slot)"

definition session_slot_index :: "bytes \<Rightarrow> 32 word option" where
  "session_slot_index name0 =
     (let name = session_slot_of name0 in
      if length name < 2 \<or> name ! 0 \<noteq> 0x70 \<or> (length name > 2 \<and> name ! 1 = 0x30) then None
      else case slot_digits (drop 1 name) 0 of None \<Rightarrow> None | Some slot \<Rightarrow> Some (ucast slot))"

section \<open>A body as the records it tiles into\<close>

datatype packed_record = RSeg bytes | RPair pair_t | RForeign byte bytes

fun record_ok :: "packed_record \<Rightarrow> bool" where
  "record_ok (RSeg seg) \<longleftrightarrow> seg \<noteq> [] \<and> length seg \<le> kPackedSegMaxBytes"
| "record_ok (RPair p) \<longleftrightarrow> True"
| "record_ok (RForeign kind payload) \<longleftrightarrow> kind \<noteq> kPackedEscapeKindPair \<and> length payload \<le> kPackedSegMaxBytes"

fun record_bytes :: "packed_record \<Rightarrow> bytes" where
  "record_bytes (RSeg seg) = of_nat (length seg) # seg"
| "record_bytes (RPair p) = 0 # 0x16 # 8 # le_bytes (pair_index p) 4 @ le_bytes (pair_generation p) 4"
| "record_bytes (RForeign kind payload) = 0 # kind # of_nat (length payload) # payload"

definition records_bytes :: "packed_record list \<Rightarrow> bytes" where
  "records_bytes rs = concat (map record_bytes rs)"

fun record_element :: "nat \<Rightarrow> packed_record \<Rightarrow> path_element_t" where
  "record_element at (RSeg seg) =
     el_default\<lparr>el_kind := SEGMENT, el_at := at, el_bytes := 1 + length seg, el_payload := seg\<rparr>"
| "record_element at (RPair p) =
     el_default\<lparr>el_kind := PAIR, el_at := at, el_bytes := 11,
       el_payload := le_bytes (pair_index p) 4 @ le_bytes (pair_generation p) 4, el_escape_kind := 0x16, el_pair := p\<rparr>"
| "record_element at (RForeign kind payload) =
     el_default\<lparr>el_kind := FOREIGN, el_at := at, el_bytes := 3 + length payload, el_payload := payload, el_escape_kind := kind\<rparr>"

fun records_elements :: "nat \<Rightarrow> packed_record list \<Rightarrow> path_element_t list" where
  "records_elements at [] = []"
| "records_elements at (r # rs) = record_element at r # records_elements (at + length (record_bytes r)) rs"

lemma records_bytes_simps [simp]:
  "records_bytes [] = []" "records_bytes (r # rs) = record_bytes r @ records_bytes rs"
  by (simp_all add: records_bytes_def)

lemma record_element_bytes: "el_bytes (record_element at r) = length (record_bytes r)"
  by (cases r) simp_all

lemma record_element_ok: "el_ok (record_element at r)"
  by (cases r) (simp_all add: el_ok_def)

lemma pair_load_le_bytes: "pair_load_le (le_bytes (pair_index p) 4 @ le_bytes (pair_generation p) 4) = p"
  by (simp add: pair_load_le_def subspan_append_left subspan_whole load_le_store_le_same)

lemma le_bytes_pair_load:
  assumes "length b = 8"
  shows "le_bytes (pair_index (pair_load_le b)) 4 @ le_bytes (pair_generation (pair_load_le b)) 4 = b"
proof -
  have "le_bytes (pair_index (pair_load_le b)) 4 = subspan 0 4 b"
    "le_bytes (pair_generation (pair_load_le b)) 4 = subspan 4 4 b"
    using assms by (simp_all add: pair_load_le_def le_bytes_load_le)
  moreover have "subspan 0 4 b @ subspan 4 4 b = b"
    using subspan_adjacent [of 0 4 b 4] assms by (simp add: subspan_whole)
  ultimately show ?thesis by simp
qed

lemma path_pair_store_bytes:
  "path_pair_store (replicate 11 0) p = record_bytes (RPair p)"
  by (simp add: path_pair_store_def pair_store_le_def store_le_def subspan_def numeral_eq_Suc)

lemma of_nat_byte_nonzero: "0 < n \<Longrightarrow> n \<le> 255 \<Longrightarrow> (of_nat n :: byte) \<noteq> 0"
  using byte_of_nat_unat [of n] by auto

lemma path_element_at_record:
  assumes "record_ok r"
  shows "path_element_at (pre @ record_bytes r @ post) (length pre) = record_element (length pre) r"
proof (cases r)
  case (RSeg seg)
  then have "(of_nat (length seg) :: byte) \<noteq> 0" "unat (of_nat (length seg) :: byte) = length seg"
    using assms of_nat_byte_nonzero [of "length seg"] byte_of_nat_unat [of "length seg"] by auto
  then show ?thesis
    using RSeg by (simp add: path_element_at_def packed_record_span_def packed_record_is_escape_def nth_append
        subspan_append_right)
       (simp add: subspan_def)
next
  case (RPair p)
  then show ?thesis
    by (simp add: path_element_at_def packed_record_span_def packed_record_is_escape_def nth_append
        subspan_append_right path_pair_record_valid_def path_pair_load_def)
       (simp add: subspan_def pair_load_le_bytes)
next
  case (RForeign kind payload)
  then have "unat (of_nat (length payload) :: byte) = length payload"
    using assms byte_of_nat_unat [of "length payload"] by auto
  then show ?thesis
    using RForeign assms by (simp add: path_element_at_def packed_record_span_def packed_record_is_escape_def nth_append
        subspan_append_right)
       (simp add: subspan_def)
qed

lemma drop_at_split: "i < length b \<Longrightarrow> drop i b = b ! i # drop (Suc i) b"
  by (simp add: Cons_nth_drop_Suc)

lemma path_element_at_ok_record:
  assumes "el_ok (path_element_at body at)"
  obtains r where "record_ok r" and "path_element_at body at = record_element at r"
    and "drop at body = record_bytes r @ drop (at + length (record_bytes r)) body"
proof -
  let ?span = "packed_record_span body at"
  have span: "?span \<noteq> 0"
  proof
    assume "?span = 0"
    then show False using assms by (simp add: path_element_at_def el_ok_def)
  qed
  then have at: "at < length body" using packed_record_span_bounds [of body at] by linarith
  have head: "drop at body = body ! at # drop (Suc at) body" using at by (rule drop_at_split)
  show thesis
  proof (cases "packed_record_is_escape body at")
    case False
    then have nz: "body ! at \<noteq> 0" using at by (simp add: packed_record_is_escape_def)
    then have len: "?span = 1 + unat (body ! at)" "at + 1 + unat (body ! at) \<le> length body"
      using span at by (auto simp: packed_record_span_def Let_def split: if_splits)
    let ?seg = "subspan (at + 1) (unat (body ! at)) body"
    have l: "length ?seg = unat (body ! at)" using len(2) by simp
    show thesis
    proof (rule that [of "RSeg ?seg"])
      show "record_ok (RSeg ?seg)"
        using l nz byte_unat_less [of "body ! at"] by (auto simp: unat_eq_zero simp del: length_subspan)
      show "path_element_at body at = record_element at (RSeg ?seg)"
        using span False len l by (simp add: path_element_at_def del: length_subspan)
      show "drop at body = record_bytes (RSeg ?seg) @ drop (at + length (record_bytes (RSeg ?seg))) body"
        using head subspan_drop [of "Suc at" "unat (body ! at)" body] l
        by (simp del: length_subspan)
    qed
  next
    case True
    then have z: "body ! at = 0" by (simp add: packed_record_is_escape_def)
    let ?n = "unat (body ! (at + 2))"
    have len: "?span = 3 + ?n" "at + 3 + ?n \<le> length body"
      using span at z by (auto simp: packed_record_span_def Let_def split: if_splits)
    let ?pay = "subspan (at + 3) ?n body"
    have l: "length ?pay = ?n" using len(2) by simp
    have n255: "?n \<le> 255" using byte_unat_less [of "body ! (at + 2)"] by simp
    have d: "drop at body = 0 # body ! (at + 1) # body ! (at + 2) # ?pay @ drop (at + 3 + ?n) body"
      using len(2) z drop_at_split [of at body] drop_at_split [of "Suc at" body] drop_at_split [of "Suc (Suc at)" body]
        subspan_drop [of "at + 3" ?n body]
      by (simp add: numeral_eq_Suc)
    show thesis
    proof (cases "body ! (at + 1) = 0x16")
      case False
      show thesis
      proof (rule that [of "RForeign (body ! (at + 1)) ?pay"])
        show "record_ok (RForeign (body ! (at + 1)) ?pay)" using False l n255 by simp
        show "path_element_at body at = record_element at (RForeign (body ! (at + 1)) ?pay)"
          using span True len l False by (simp add: path_element_at_def del: length_subspan)
        show "drop at body = record_bytes (RForeign (body ! (at + 1)) ?pay) @
            drop (at + length (record_bytes (RForeign (body ! (at + 1)) ?pay))) body"
          using d l by (simp add: add.assoc numeral_eq_Suc del: length_subspan)
      qed
    next
      case kind: True
      have n8: "?n = 8"
        using assms span True len l kind
        by (auto simp: path_element_at_def el_ok_def path_pair_record_valid_def Let_def simp del: length_subspan
            split: if_splits)
      then have l8: "length ?pay = 8" using l by simp
      have b8: "body ! (at + 2) = 8" using n8 by (intro unsigned_word_eqI) simp
      note pay = le_bytes_pair_load [OF l8]
      show thesis
      proof (rule that [of "RPair (pair_load_le ?pay)"])
        show "record_ok (RPair (pair_load_le ?pay))" by simp
        show "path_element_at body at = record_element at (RPair (pair_load_le ?pay))"
          using span True len l8 kind pay n8
          by (simp add: path_element_at_def path_pair_record_valid_def path_pair_load_def Let_def del: length_subspan)
        show "drop at body = record_bytes (RPair (pair_load_le ?pay)) @
            drop (at + length (record_bytes (RPair (pair_load_le ?pay)))) body"
          using d pay n8 b8 kind l8 by (simp add: add.assoc numeral_eq_Suc del: length_subspan)
      qed
    qed
  qed
qed

section \<open>The walk and the census\<close>

function pec_collect :: "path_element_cursor_t \<Rightarrow> path_element_t list" where
  "pec_collect cur =
     (case pec_next cur of
        (None, _) \<Rightarrow> []
      | (Some el, cur') \<Rightarrow> el # pec_collect cur')"
  by pat_completeness auto
termination
  by (relation "measure (\<lambda>cur. length (pec_body cur) - pec_at cur)")
     (auto dest!: pec_next_moves [OF sym] intro: diff_less_mono2)

definition path_elements :: "bytes \<Rightarrow> path_element_t list" where
  "path_elements body = pec_collect \<lparr>pec_body = body, pec_at = 0\<rparr>"

declare census_loop.simps [simp del] pec_collect.simps [simp del] packed_path_valid_key_from.simps [simp del]

lemma census_loop_fold: "census_loop cur c = fold census_count (pec_collect cur) c"
proof (induction cur c rule: census_loop.induct)
  case (1 cur c)
  then show ?case
    by (subst census_loop.simps, subst pec_collect.simps) (auto split: prod.split option.split)
qed

lemma pec_collect_records:
  "list_all record_ok rs \<Longrightarrow>
     pec_collect \<lparr>pec_body = pre @ records_bytes rs, pec_at = length pre\<rparr> = records_elements (length pre) rs"
proof (induction rs arbitrary: pre)
  case Nil
  then show ?case by (subst pec_collect.simps) (simp add: pec_next_def pec_done_def)
next
  case (Cons r rs)
  have "pec_next \<lparr>pec_body = pre @ records_bytes (r # rs), pec_at = length pre\<rparr> =
      (Some (record_element (length pre) r),
       \<lparr>pec_body = (pre @ record_bytes r) @ records_bytes rs, pec_at = length (pre @ record_bytes r)\<rparr>)"
    using Cons.prems path_element_at_record [of r pre "records_bytes rs"] record_element_ok [of "length pre" r]
      record_element_bytes [of "length pre" r]
    by (cases r) (simp_all add: pec_next_def pec_done_def Let_def)
  then show ?case
    using Cons.IH [of "pre @ record_bytes r"] Cons.prems by (subst pec_collect.simps) simp
qed

lemma path_elements_records:
  "list_all record_ok rs \<Longrightarrow> path_elements (records_bytes rs) = records_elements 0 rs"
  using pec_collect_records [of rs "[]"] by (simp add: path_elements_def)

lemma pec_collect_tiles:
  "pec_at cur \<le> length (pec_body cur) \<Longrightarrow> list_all el_ok (pec_collect cur) \<Longrightarrow>
     \<exists>rs. list_all record_ok rs \<and> drop (pec_at cur) (pec_body cur) = records_bytes rs"
proof (induction cur rule: pec_collect.induct)
  case (1 cur)
  show ?case
  proof (cases "pec_done cur")
    case True
    then show ?thesis by (intro exI [of _ "[]"]) (simp add: pec_done_def)
  next
    case False
    let ?el = "path_element_at (pec_body cur) (pec_at cur)"
    let ?cur = "cur\<lparr>pec_at := pec_at cur + el_bytes ?el\<rparr>"
    have "pec_collect cur = ?el # pec_collect (snd (pec_next cur))"
      using False by (subst pec_collect.simps) (simp add: pec_next_def Let_def)
    then have ok: "el_ok ?el" and rest: "list_all el_ok (pec_collect (snd (pec_next cur)))" using "1.prems" by simp_all
    have nx: "pec_next cur = (Some ?el, ?cur)" using False ok by (simp add: pec_next_def Let_def)
    obtain r where r: "record_ok r" "?el = record_element (pec_at cur) r"
      "drop (pec_at cur) (pec_body cur) = record_bytes r @ drop (pec_at cur + length (record_bytes r)) (pec_body cur)"
      using path_element_at_ok_record [OF ok] by blast
    have eb: "el_bytes ?el = length (record_bytes r)" using r(2) record_element_bytes by simp
    have "length (record_bytes r) \<le> length (pec_body cur) - pec_at cur"
      using arg_cong [OF r(3), of length] by simp
    then have "pec_at ?cur \<le> length (pec_body ?cur)" using "1.prems"(1) eb by simp
    moreover have "list_all el_ok (pec_collect ?cur)" using rest nx by simp
    ultimately obtain rs where "list_all record_ok rs" "drop (pec_at ?cur) (pec_body ?cur) = records_bytes rs"
      using "1.IH" [OF nx [symmetric] refl] by blast
    then show ?thesis using r eb by (intro exI [of _ "r # rs"]) simp
  qed
qed

lemma census_count_simps:
  "ce_elements (census_count el c) = ce_elements c + 1"
  "ce_well_formed (census_count el c) \<longleftrightarrow> ce_well_formed c \<and> el_ok el"
  "ce_segments (census_count el c) = ce_segments c + (if el_kind el = SEGMENT then 1 else 0)"
  "ce_pairs (census_count el c) = ce_pairs c + (if el_kind el = PAIR then 1 else 0)"
  "ce_foreign (census_count el c) = ce_foreign c + (if el_kind el = FOREIGN then 1 else 0)"
  by (cases "el_kind el"; simp add: census_count_def el_ok_def)+

lemma fold_census_count:
  "ce_elements (fold census_count els c) = ce_elements c + length els"
  "ce_well_formed (fold census_count els c) \<longleftrightarrow> ce_well_formed c \<and> list_all el_ok els"
  "ce_segments (fold census_count els c) = ce_segments c + length (filter (\<lambda>el. el_kind el = SEGMENT) els)"
  "ce_pairs (fold census_count els c) = ce_pairs c + length (filter (\<lambda>el. el_kind el = PAIR) els)"
  "ce_foreign (fold census_count els c) = ce_foreign c + length (filter (\<lambda>el. el_kind el = FOREIGN) els)"
  by (induction els arbitrary: c) (simp_all add: census_count_simps)

lemma path_element_census_counts:
  "ce_elements (path_element_census body) = length (path_elements body)"
  "ce_well_formed (path_element_census body) \<longleftrightarrow> list_all el_ok (path_elements body)"
  "ce_segments (path_element_census body) = length (filter (\<lambda>el. el_kind el = SEGMENT) (path_elements body))"
  "ce_pairs (path_element_census body) = length (filter (\<lambda>el. el_kind el = PAIR) (path_elements body))"
  "ce_foreign (path_element_census body) = length (filter (\<lambda>el. el_kind el = FOREIGN) (path_elements body))"
  by (simp_all add: path_element_census_def path_elements_def census_loop_fold fold_census_count)

lemma records_elements_ok: "list_all el_ok (records_elements at rs)"
  by (induction rs arbitrary: at) (simp_all add: record_element_ok)

lemma well_formed_iff:
  "ce_well_formed (path_element_census body) \<longleftrightarrow> (\<exists>rs. list_all record_ok rs \<and> body = records_bytes rs)"
proof
  assume "ce_well_formed (path_element_census body)"
  then show "\<exists>rs. list_all record_ok rs \<and> body = records_bytes rs"
    using pec_collect_tiles [of "\<lparr>pec_body = body, pec_at = 0\<rparr>"]
    by (simp add: path_element_census_counts path_elements_def)
qed (auto simp: path_element_census_counts path_elements_records records_elements_ok)

section \<open>Keys\<close>

lemma valid_key_from_iff:
  "at \<le> length body \<Longrightarrow> packed_path_valid_key_from body at \<longleftrightarrow>
     (\<exists>segs. list_all record_ok (map RSeg segs) \<and> drop at body = records_bytes (map RSeg segs))"
proof (induction body at rule: packed_path_valid_key_from.induct)
  case (1 body at)
  show ?case
  proof (cases "at < length body")
    case False
    then have "drop at body = records_bytes (map RSeg [])" by simp
    then show ?thesis using False by (subst packed_path_valid_key_from.simps) (auto intro!: exI [of _ "[]"])
  next
    case True
    let ?len = "unat (body ! at)"
    have d: "drop at body = body ! at # drop (Suc at) body" using True by (rule drop_at_split)
    have hit: "body ! at \<noteq> 0 \<and> at + 1 + ?len \<le> length body \<and> length seg = ?len \<and>
        drop (at + (1 + ?len)) body = records_bytes (map RSeg segs)"
      if "record_ok (RSeg seg)" "drop at body = records_bytes (map RSeg (seg # segs))" for seg segs
    proof -
      have l: "unat (of_nat (length seg) :: byte) = length seg" "(of_nat (length seg) :: byte) \<noteq> 0"
        using that(1) byte_of_nat_unat [of "length seg"] of_nat_byte_nonzero [of "length seg"] by auto
      have e: "body ! at = of_nat (length seg)" "drop (Suc at) body = seg @ records_bytes (map RSeg segs)"
        using d that(2) by simp_all
      have "length seg + length (records_bytes (map RSeg segs)) = length body - Suc at"
        using arg_cong [OF e(2), of length] by simp
      then have "length seg \<le> length body - Suc at" by linarith
      moreover have "drop (length seg) (drop (Suc at) body) = records_bytes (map RSeg segs)" using e(2) by simp
      moreover have "drop (length seg) (drop (Suc at) body) = drop (at + (1 + length seg)) body"
        by (simp add: ac_simps)
      moreover have "unat (body ! at) = length seg" using e l by simp
      ultimately show ?thesis using e(1) l(2) True by simp
    qed
    have step: "packed_path_valid_key_from body at \<longleftrightarrow>
        body ! at \<noteq> 0 \<and> at + 1 + ?len \<le> length body \<and> packed_path_valid_key_from body (at + (1 + ?len))"
      using True by (subst packed_path_valid_key_from.simps) (auto simp: Let_def)
    show ?thesis
    proof
      assume "packed_path_valid_key_from body at"
      then have ok: "body ! at \<noteq> 0" "at + 1 + ?len \<le> length body"
        and rest: "packed_path_valid_key_from body (at + (1 + ?len))" using step by auto
      have "\<exists>segs. list_all record_ok (map RSeg segs) \<and> drop (at + (1 + ?len)) body = records_bytes (map RSeg segs)"
        using "1.IH" [OF True refl] ok rest by simp
      then obtain segs where segs: "list_all record_ok (map RSeg segs)"
        "drop (at + (1 + ?len)) body = records_bytes (map RSeg segs)" by blast
      let ?seg = "subspan (Suc at) ?len body"
      have l: "length ?seg = ?len" using ok(2) by simp
      have "drop at body = records_bytes (map RSeg (?seg # segs))"
        using d segs(2) subspan_drop [of "Suc at" ?len body] l by (simp del: length_subspan)
      moreover have "record_ok (RSeg ?seg)"
        using l ok(1) byte_unat_less [of "body ! at"] by (auto simp: unat_eq_zero simp del: length_subspan)
      ultimately show "\<exists>segs. list_all record_ok (map RSeg segs) \<and> drop at body = records_bytes (map RSeg segs)"
        using segs(1) by (intro exI [of _ "?seg # segs"]) simp
    next
      assume "\<exists>segs. list_all record_ok (map RSeg segs) \<and> drop at body = records_bytes (map RSeg segs)"
      then obtain segs where segs: "list_all record_ok (map RSeg segs)" "drop at body = records_bytes (map RSeg segs)"
        by blast
      then obtain seg segs' where c: "segs = seg # segs'" using d by (cases segs) auto
      have h: "body ! at \<noteq> 0 \<and> at + 1 + ?len \<le> length body \<and> length seg = ?len \<and>
        drop (at + (1 + ?len)) body = records_bytes (map RSeg segs')"
        using hit [of seg segs'] segs c by simp
      then have "packed_path_valid_key_from body (at + (1 + ?len))"
        using "1.IH" [OF True refl] segs(1) c by auto
      then show "packed_path_valid_key_from body at" using step h by simp
    qed
  qed
qed

lemma valid_key_iff:
  "packed_path_valid_key body \<longleftrightarrow>
     (\<exists>segs. list_all record_ok (map RSeg segs) \<and> body = records_bytes (map RSeg segs))"
  using valid_key_from_iff [of 0 body] by (simp add: packed_path_valid_key_def)

lemma records_elements_segments:
  "length (filter (\<lambda>el. el_kind el = SEGMENT) (records_elements at rs)) = length rs \<longleftrightarrow>
     (\<exists>segs. rs = map RSeg segs)"
proof (induction rs arbitrary: at)
  case (Cons r rs)
  have le: "length (filter (\<lambda>el. el_kind el = SEGMENT) (records_elements k rs)) \<le> length rs" for k
    by (induction rs arbitrary: k) (simp_all add: le_SucI)
  show ?case
  proof (cases r)
    case (RSeg seg)
    then show ?thesis using Cons.IH [of "at + length (record_bytes r)"] by (auto simp: Cons_eq_map_conv)
  qed (use le in \<open>auto simp: Cons_eq_map_conv Suc_n_not_le_n dest: arg_cong [of _ _ "\<lambda>n. n \<le> length rs"]\<close>)
qed simp

lemma records_elements_length: "length (records_elements at rs) = length rs"
  by (induction rs arbitrary: at) simp_all

text \<open>
  The key rule is the census with no escape in it: a body is admissible as a canonical
  key exactly when its walk meets no refusal and every element of it is a literal segment.
\<close>

theorem packed_path_valid_key_is_census:
  "packed_path_valid_key body \<longleftrightarrow>
     ce_well_formed (path_element_census body) \<and>
     ce_segments (path_element_census body) = ce_elements (path_element_census body)"
proof -
  have "(\<exists>segs. list_all record_ok (map RSeg segs) \<and> body = records_bytes (map RSeg segs)) \<longleftrightarrow>
      (\<exists>rs. list_all record_ok rs \<and> body = records_bytes rs \<and> (\<exists>segs. rs = map RSeg segs))" by blast
  also have "\<dots> \<longleftrightarrow> (\<exists>rs. list_all record_ok rs \<and> body = records_bytes rs \<and>
      ce_segments (path_element_census body) = ce_elements (path_element_census body))"
    by (intro ex_cong1 conj_cong refl)
       (simp add: path_element_census_counts path_elements_records records_elements_segments records_elements_length)
  finally show ?thesis unfolding valid_key_iff well_formed_iff by blast
qed

section \<open>Emission and the round trip\<close>

fun emit_elements :: "bytes \<Rightarrow> path_element_t list \<Rightarrow> bool \<times> bytes" where
  "emit_elements out [] = (True, out)"
| "emit_elements out (el # els) =
     (case emit_path_element_vec out el of (False, out') \<Rightarrow> (False, out') | (True, out') \<Rightarrow> emit_elements out' els)"

text \<open>What an element says, its place in the body set aside.\<close>

definition el_value :: "path_element_t \<Rightarrow> path_element_kind_t \<times> bytes \<times> byte \<times> pair_t" where
  "el_value el =
     (el_kind el,
      (if el_kind el = SEGMENT \<or> el_kind el = FOREIGN then el_payload el else []),
      (if el_kind el = FOREIGN then el_escape_kind el else 0),
      (if el_kind el = PAIR then el_pair el else \<lparr>pair_index = 0, pair_generation = 0\<rparr>))"

lemma emit_record_element:
  "record_ok r \<Longrightarrow> emit_path_element_vec out (record_element at r) = (True, out @ record_bytes r)"
  by (cases r) (auto simp: emit_path_element_vec_def emit_path_segment_vec_def emit_path_escape_vec_def
      path_pair_store_bytes simp del: replicate.simps)

lemma emit_records_elements:
  "list_all record_ok rs \<Longrightarrow> emit_elements out (records_elements at rs) = (True, out @ records_bytes rs)"
  by (induction rs arbitrary: out at) (simp_all add: emit_record_element)

lemma emitted_element_record:
  assumes "emit_path_element_vec out el = (True, out')" and "el_kind el = FOREIGN \<longrightarrow> el_escape_kind el \<noteq> kPackedEscapeKindPair"
  obtains r where "record_ok r" and "out' = out @ record_bytes r" and "\<And>at. el_value (record_element at r) = el_value el"
proof (cases "el_kind el")
  case SEGMENT
  with assms that [of "RSeg (el_payload el)"] show thesis
    by (auto simp: emit_path_element_vec_def emit_path_segment_vec_def el_value_def split: if_splits)
next
  case PAIR
  with assms that [of "RPair (el_pair el)"] show thesis
    by (auto simp: emit_path_element_vec_def el_value_def path_pair_store_bytes simp del: replicate.simps)
next
  case FOREIGN
  with assms that [of "RForeign (el_escape_kind el) (el_payload el)"] show thesis
    by (auto simp: emit_path_element_vec_def emit_path_escape_vec_def el_value_def split: if_splits)
qed (use assms in \<open>simp add: emit_path_element_vec_def\<close>)

lemma emitted_elements_records:
  "emit_elements out els = (True, out') \<Longrightarrow>
   \<forall>el \<in> set els. el_kind el = FOREIGN \<longrightarrow> el_escape_kind el \<noteq> kPackedEscapeKindPair \<Longrightarrow>
     \<exists>rs. list_all record_ok rs \<and> out' = out @ records_bytes rs \<and>
        (\<forall>at. map el_value (records_elements at rs) = map el_value els)"
proof (induction els arbitrary: out)
  case Nil
  then show ?case by (intro exI [of _ "[]"]) simp
next
  case (Cons el els)
  obtain out1 where e: "emit_path_element_vec out el = (True, out1)" and rest: "emit_elements out1 els = (True, out')"
    using Cons.prems(1) by (auto split: prod.splits bool.splits)
  obtain r where r: "record_ok r" "out1 = out @ record_bytes r" "\<And>at. el_value (record_element at r) = el_value el"
    using emitted_element_record [OF e] Cons.prems(2) by auto
  obtain rs where "list_all record_ok rs" "out' = out1 @ records_bytes rs"
    "\<forall>at. map el_value (records_elements at rs) = map el_value els"
    using Cons.IH [OF rest] Cons.prems(2) by auto
  with r show ?case by (intro exI [of _ "r # rs"]) simp
qed

text \<open>
  C27. Walking a well-formed \<^verbatim>\<open>PATH\<close> body and emitting each element again reproduces the body
  byte for byte, foreign escapes included, so a hop relays what it does not own.
\<close>

theorem path_elements_reemit:
  assumes "ce_well_formed (path_element_census body)"
  shows "emit_elements [] (path_elements body) = (True, body)"
  using assms emit_records_elements [of _ "[]" 0] by (auto simp: well_formed_iff path_elements_records)

text \<open>
  C28. Whatever list of elements the emitter accepts, the body it writes is well formed and its
  walk answers the same elements, in number and in what each says. The one hypothesis is that no
  element is tagged foreign at the PAIR kind, which the walk never answers.
\<close>

theorem emit_path_elements_walk:
  assumes "emit_elements [] els = (True, body)"
    and "\<forall>el \<in> set els. el_kind el = FOREIGN \<longrightarrow> el_escape_kind el \<noteq> kPackedEscapeKindPair"
  shows "ce_well_formed (path_element_census body) \<and>
     map el_value (path_elements body) = map el_value els \<and>
     ce_elements (path_element_census body) = length els"
proof -
  obtain rs where rs: "list_all record_ok rs" "body = records_bytes rs"
    "\<forall>at. map el_value (records_elements at rs) = map el_value els"
    using emitted_elements_records [OF assms] by auto
  have wf: "ce_well_formed (path_element_census body)" using rs by (auto simp: well_formed_iff)
  have eq: "map el_value (path_elements body) = map el_value els" using rs by (simp add: path_elements_records)
  moreover have "ce_elements (path_element_census body) = length els"
    using arg_cong [OF eq, of length] by (simp add: path_element_census_counts)
  ultimately show ?thesis using wf by blast
qed

theorem path_elements_reemit_witness:
  "emit_elements [] (path_elements [2, 0x61, 0x62, 0, 9, 1, 0xFF]) = (True, [2, 0x61, 0x62, 0, 9, 1, 0xFF])"
  by (rule path_elements_reemit) code_simp

theorem emit_path_elements_walk_witness:
  "ce_well_formed (path_element_census [2, 0x61, 0x62, 0, 9, 1, 0xFF])"
  by (rule emit_path_elements_walk
        [of "[record_element 0 (RSeg [0x61, 0x62]), record_element 3 (RForeign 9 [0xFF])]", THEN conjunct1]) code_simp+

section \<open>The core-array emitters and the span form\<close>

lemma append_twice:
  assumes "(case bytes_append src a out m of (False, out', m') \<Rightarrow> (False, out', m') | (True, out', m') \<Rightarrow> bytes_append src b out' m') = (True, out', m')"
  shows "ba_elems out' = ba_elems out @ a @ b"
proof -
  obtain ok o1 m1 where a: "bytes_append src a out m = (ok, o1, m1)" by (metis prod_cases3)
  have ok: ok using assms a by (cases ok) simp_all
  then have "bytes_append src b o1 m1 = (True, out', m')" using assms a by simp
  from ba_append_spec [OF this] ba_append_spec [OF a] ok show ?thesis by simp
qed

lemma emit_path_segment_same:
  assumes "emit_path_segment src seg out m = (True, out', m')"
  shows "emit_path_segment_vec (ba_elems out) seg = (True, ba_elems out')"
  using assms append_twice [where out = out and m = m and out' = out' and m' = m' and b = seg]
  by (simp add: emit_path_segment_def emit_path_segment_vec_def split: if_splits)

lemma emit_path_escape_same:
  assumes "emit_path_escape src kind payload out m = (True, out', m')"
  shows "emit_path_escape_vec (ba_elems out) kind payload = (True, ba_elems out')"
  using assms append_twice [where out = out and m = m and out' = out' and m' = m' and b = payload]
  by (simp add: emit_path_escape_def emit_path_escape_vec_def split: if_splits)

lemma emit_path_element_same:
  assumes "emit_path_element src el out m = (True, out', m')"
  shows "emit_path_element_vec (ba_elems out) el = (True, ba_elems out')"
  using assms emit_path_segment_same emit_path_escape_same
  by (cases "el_kind el")
     (auto simp: emit_path_element_def emit_path_element_vec_def emit_path_pair_def dest: ba_append_spec)

lemma store_path_segment_emit:
  assumes "emit_path_segment_vec [] seg = (True, rec)"
  shows "store_path_segment [] seg = (length rec, [])"
    and "length rec \<le> length out \<Longrightarrow> store_path_segment out seg = (length rec, rec @ drop (length rec) out)"
  using assms by (auto simp: emit_path_segment_vec_def store_path_segment_def split: if_splits)

lemma path_pair_at_element:
  "path_pair_at body at = (let el = path_element_at body at in if el_kind el = PAIR then Some (el_pair el) else None)"
  by (auto simp: path_pair_at_def packed_escape_kind_def packed_escape_payload_def path_element_at_def Let_def
      path_pair_record_valid_def el_default_def)

text \<open>
  Two fields say more than their documentation does: a PAIR element also carries its eight
  payload bytes, and a refused record of the PAIR kind carries the kind.
\<close>

lemma path_element_pair_payload:
  "el_kind (path_element_at body at) = PAIR \<Longrightarrow> length (el_payload (path_element_at body at)) = 8"
  "path_element_at [0, 0x16, 0] 0 =
     el_default\<lparr>el_kind := MALFORMED, el_at := 0, el_bytes := 3, el_escape_kind := 0x16\<rparr>"
  by (auto simp: path_element_at_def el_default_def Let_def path_pair_record_valid_def simp del: length_subspan
      split: if_splits)
     (simp_all add: packed_record_span_def packed_record_is_escape_def)

section \<open>The spelling of a session name\<close>

fun dec_digits :: "nat \<Rightarrow> bytes" where
  "dec_digits n = (if n < 10 then [of_nat (0x30 + n)] else dec_digits (n div 10) @ [of_nat (0x30 + n mod 10)])"

declare dec_digits.simps [simp del]

definition is_digit :: "byte \<Rightarrow> bool" where
  "is_digit c \<longleftrightarrow> 0x30 \<le> c \<and> c \<le> 0x39"

definition dec_value :: "bytes \<Rightarrow> nat \<Rightarrow> nat" where
  "dec_value cs acc = fold (\<lambda>c v. v * 10 + (unat c - 0x30)) cs acc"

lemma dec_value_simps [simp]:
  "dec_value [] acc = acc" "dec_value (c # cs) acc = dec_value cs (acc * 10 + (unat c - 0x30))"
  "dec_value (cs @ ds) acc = dec_value ds (dec_value cs acc)"
  by (simp_all add: dec_value_def)

lemma dec_value_ge: "acc \<le> dec_value cs acc"
proof (induction cs arbitrary: acc)
  case (Cons c cs)
  have "acc \<le> acc * 10 + (unat c - 0x30)" by simp
  also have "\<dots> \<le> dec_value cs (acc * 10 + (unat c - 0x30))" by (rule Cons.IH)
  finally show ?case by simp
qed simp

lemma digit_unat: "is_digit c \<longleftrightarrow> 48 \<le> unat c \<and> unat c \<le> 57"
  by (simp add: is_digit_def word_le_nat_alt)

lemma slot_step:
  assumes "is_digit c" and "slot \<le> 0xFFFFFFFF"
  shows "unat (of_nat slot * 10 + (ucast c - 0x30) :: 64 word) = slot * 10 + (unat c - 0x30)"
proof -
  have c: "48 \<le> unat c" "unat c \<le> 57" using assms(1) by (auto simp: digit_unat)
  have "(ucast c - 0x30 :: 64 word) = of_nat (unat c - 0x30)"
    using c by (simp add: of_nat_diff)
  then have "(of_nat slot * 10 + (ucast c - 0x30) :: 64 word) = of_nat (slot * 10 + (unat c - 0x30))" by simp
  moreover have "slot * 10 + (unat c - 0x30) < 2 ^ LENGTH(64)" using c assms(2) by simp
  ultimately show ?thesis by (simp only: unat_of_nat_word)
qed

lemma slot_digits_value:
  "slot \<le> 0xFFFFFFFF \<Longrightarrow>
   slot_digits cs (of_nat slot) =
     (if list_all is_digit cs \<and> dec_value cs slot \<le> 0xFFFFFFFF then Some (of_nat (dec_value cs slot)) else None)"
proof (induction cs arbitrary: slot)
  case (Cons c cs)
  let ?v = "slot * 10 + (unat c - 0x30)"
  let ?w = "of_nat slot * 10 + (ucast c - 0x30) :: 64 word"
  show ?case
  proof (cases "is_digit c")
    case False
    then have "c < 0x30 \<or> c > 0x39" by (auto simp: is_digit_def not_le)
    then show ?thesis using False by simp
  next
    case True
    then have d: "\<not> (c < 0x30 \<or> c > 0x39)" by (simp add: is_digit_def not_less)
    have v: "unat ?w = ?v" using True Cons.prems by (rule slot_step)
    have "?w = of_nat (unat ?w)" by (simp only: of_nat_unat ucast_id)
    then have w: "?w = of_nat ?v" by (simp only: v)
    have gt: "?w > 0xFFFFFFFF \<longleftrightarrow> ?v > 0xFFFFFFFF" unfolding word_less_nat_alt v by simp
    show ?thesis
    proof (cases "?v > 0xFFFFFFFF")
      case big: True
      then have "\<not> dec_value cs ?v \<le> 0xFFFFFFFF" using dec_value_ge [of ?v cs] by linarith
      then show ?thesis using d gt big by (simp add: Let_def)
    next
      case False
      then show ?thesis using d gt w True Cons.IH [of ?v] by (simp add: Let_def)
    qed
  qed
qed simp

lemma dec_digits_value: "dec_value (dec_digits n) 0 = n \<and> list_all is_digit (dec_digits n) \<and> dec_digits n \<noteq> []"
proof (induction n rule: dec_digits.induct)
  case (1 n)
  have d: "unat (of_nat (0x30 + k) :: byte) = 0x30 + k" if "k < 10" for k
    using that by (intro byte_of_nat_unat) simp
  have dig: "is_digit (of_nat (0x30 + k))" if "k < 10" for k
    using that d [OF that] by (simp add: digit_unat del: of_nat_add)
  show ?case
  proof (cases "n < 10")
    case True
    then show ?thesis
      using d [OF True] dig [OF True] by (subst (1 2 3) dec_digits.simps) (simp del: of_nat_add)
  next
    case False
    have "n mod 10 < 10" by simp
    from d [OF this] dig [OF this] show ?thesis
      using 1 [OF False] False by (subst (1 2 3) dec_digits.simps) (simp del: of_nat_add)
  qed
qed

lemma dec_value_pos:
  assumes "list_all is_digit (d # es)" and "d \<noteq> 0x30"
  shows "0 < dec_value (d # es) 0"
proof -
  have "unat d \<noteq> 48"
  proof
    assume "unat d = 48"
    then have "d = 0x30" by (intro unsigned_word_eqI) simp
    with assms(2) show False by blast
  qed
  moreover have "48 \<le> unat d" using assms(1) by (simp add: digit_unat)
  ultimately have "0 < unat d - 48" by linarith
  then show ?thesis using dec_value_ge [of "unat d - 48" es] by simp
qed

lemma dec_value_inject:
  "list_all is_digit cs \<Longrightarrow> cs \<noteq> [] \<Longrightarrow> length cs > 1 \<longrightarrow> cs ! 0 \<noteq> 0x30 \<Longrightarrow> cs = dec_digits (dec_value cs 0)"
proof (induction cs rule: rev_induct)
  case (snoc c cs)
  have c: "48 \<le> unat c" "unat c \<le> 57" "unat c - 48 < 10" using snoc.prems(1) by (auto simp: digit_unat)
  have cc: "of_nat (0x30 + (unat c - 0x30)) = c" using c by (intro unsigned_word_eqI) (simp add: byte_of_nat_unat del: of_nat_add)
  show ?case
  proof (cases "cs = []")
    case True
    then show ?thesis using c(3) cc by (subst dec_digits.simps) (simp del: of_nat_add)
  next
    case False
    then obtain d es where cs: "cs = d # es" by (cases cs) auto
    have ds: "list_all is_digit cs" using snoc.prems(1) by simp
    have h: "d \<noteq> 0x30" using snoc.prems(3) cs by simp
    have pos: "0 < dec_value cs 0" using dec_value_pos ds h cs by blast
    have "length cs > 1 \<longrightarrow> cs ! 0 \<noteq> 0x30" using h cs by simp
    from snoc.IH [OF ds False this] have ih: "dec_digits (dec_value cs 0) = cs" by (rule sym)
    let ?n = "dec_value cs 0 * 10 + (unat c - 0x30)"
    have "(v * 10 + r) div 10 = v \<and> (v * 10 + r) mod 10 = r \<and> (0 < v \<longrightarrow> \<not> v * 10 + r < 10)" if "r < 10" for v r :: nat
      using that by auto
    from this [OF c(3), of "dec_value cs 0"]
    have n: "?n div 10 = dec_value cs 0" "?n mod 10 = unat c - 0x30" "\<not> ?n < 10" using pos by blast+
    have "dec_digits ?n = cs @ [c]" using ih cc n by (subst dec_digits.simps) (simp del: of_nat_add)
    then show ?thesis by simp
  qed
qed simp

lemma find_char_append: "c \<notin> set a \<Longrightarrow> find_char c (a @ c # b) = length a"
  by (induction a) auto

lemma find_char_none: "c \<notin> set a \<Longrightarrow> find_char c a = length a"
  by (induction a) auto

lemma session_slot_of_split:
  "0x7E \<notin> set a \<Longrightarrow> session_slot_of (a @ 0x7E # b) = a" "0x7E \<notin> set a \<Longrightarrow> session_slot_of a = a"
  by (simp_all add: session_slot_of_def find_char_append find_char_none)

lemma digits_not_separator: "list_all is_digit cs \<Longrightarrow> 0x7E \<notin> set cs"
  by (auto simp: list_all_iff digit_unat)

lemma dec_digits_no_lead: "dec_digits n = d # e # es \<Longrightarrow> d \<noteq> 0x30"
proof (induction n arbitrary: d e es rule: dec_digits.induct)
  case (1 n)
  show ?case
  proof (cases "n < 10")
    case True
    then show ?thesis using "1.prems" by (simp add: dec_digits.simps [of n])
  next
    case False
    then have s: "dec_digits (n div 10) @ [of_nat (0x30 + n mod 10)] = d # e # es"
      using "1.prems" by (simp add: dec_digits.simps [of n])
    show ?thesis
    proof (cases "n div 10 < 10")
      case True
      then have "dec_digits (n div 10) = [of_nat (0x30 + n div 10)]" by (simp add: dec_digits.simps [of "n div 10"])
      then have "d = of_nat (0x30 + n div 10)" using s by simp
      then have "unat d = 0x30 + n div 10" using True by (simp add: byte_of_nat_unat del: of_nat_add)
      then show ?thesis using False by auto
    next
      case big: False
      have "dec_digits (n div 10) = dec_digits (n div 10 div 10) @ [of_nat (0x30 + n div 10 mod 10)]"
        using big by (simp add: dec_digits.simps [of "n div 10"])
      moreover obtain x xs where "dec_digits (n div 10 div 10) = x # xs"
        using dec_digits_value [of "n div 10 div 10"] by (cases "dec_digits (n div 10 div 10)") auto
      ultimately obtain y ys where "dec_digits (n div 10) = x # y # ys" by (cases xs) auto
      then show ?thesis using "1.IH" [OF False, of x y ys] s by simp
    qed
  qed
qed

text \<open>
  A session name reads as slot \<open>n\<close> exactly when its part before the tenancy separator is
  \<^verbatim>\<open>p\<close> and the decimal spelling of \<open>n\<close>: every slot of 32 bits has one spelling, and a leading
  zero, a stray character or a value past 32 bits is refused.
\<close>

theorem session_slot_index_spells:
  "session_slot_index name = Some n \<longleftrightarrow> session_slot_of name = 0x70 # dec_digits (unat n)"
proof -
  let ?s = "session_slot_of name"
  have digits: "slot_digits cs 0 =
      (if list_all is_digit cs \<and> dec_value cs 0 \<le> 0xFFFFFFFF then Some (of_nat (dec_value cs 0)) else None)" for cs
    using slot_digits_value [of 0 cs] by simp
  have small: "ucast (of_nat k :: 64 word) = n \<longleftrightarrow> k = unat n" if "k \<le> 0xFFFFFFFF" for k
  proof -
    have "unat (of_nat k :: 64 word) = k" using that by (intro unat_of_nat_word) simp
    then have "unat (ucast (of_nat k :: 64 word) :: 32 word) = k"
      using that by (simp add: unsigned_ucast_eq take_bit_nat_eq_self)
    then show ?thesis by (auto intro: unsigned_word_eqI)
  qed
  have bound: "unat n \<le> 0xFFFFFFFF" using unat_less_pow [of n] by simp
  show ?thesis
  proof
    assume some: "session_slot_index name = Some n"
    then have len: "2 \<le> length ?s" "?s ! 0 = 0x70" "length ?s > 2 \<longrightarrow> ?s ! 1 \<noteq> 0x30"
      by (auto simp: session_slot_index_def Let_def split: if_splits)
    then obtain cs where s: "?s = 0x70 # cs" by (cases ?s) auto
    have "slot_digits cs 0 \<noteq> None \<and> ucast (the (slot_digits cs 0)) = n"
      using some len s by (auto simp: session_slot_index_def split: if_splits option.splits)
    then have v: "list_all is_digit cs" "dec_value cs 0 \<le> 0xFFFFFFFF" "dec_value cs 0 = unat n"
      using small by (auto simp: digits split: if_splits)
    have "cs \<noteq> []" "length cs > 1 \<longrightarrow> cs ! 0 \<noteq> 0x30" using len s by auto
    then show "?s = 0x70 # dec_digits (unat n)" using dec_value_inject [OF v(1)] v(3) s by simp
  next
    assume s: "?s = 0x70 # dec_digits (unat n)"
    note d = dec_digits_value [of "unat n"]
    have "length ?s > 2 \<longrightarrow> ?s ! 1 \<noteq> 0x30"
      using dec_digits_no_lead [of "unat n"] s d by (cases "dec_digits (unat n)"; cases "tl (dec_digits (unat n))") auto
    moreover have "2 \<le> length ?s" using s d by (cases "dec_digits (unat n)") auto
    moreover have "slot_digits (dec_digits (unat n)) 0 = Some (of_nat (unat n))" using digits d bound by simp
    moreover have "ucast (of_nat (unat n) :: 64 word) = n" using small [OF bound] by simp
    ultimately show "session_slot_index name = Some n"
      using s by (cases "dec_digits (unat n)") (auto simp: session_slot_index_def)
  qed
qed

end
