(* ===== verification/Key_View.thy ===== *)
theory Key_View
  imports Packed_Path Reader "HOL-Library.Sublist"
begin

text \<open>
  Navigation of a canonical key, \<^verbatim>\<open>key_view.hpp\<close>, and the key of a validated \<^verbatim>\<open>PATH\<close> node,
  \<^verbatim>\<open>path_key\<close> of \<^verbatim>\<open>frame.cpp\<close>. A canonical key is the packed body of a list of segments; the
  lemmas carry every operation over to that list: the byte prefix is the list prefix, the
  parent drops the last segment, the levels are the prefixes in order.
\<close>

section \<open>The records of a key\<close>

definition record_end :: "bytes \<Rightarrow> nat \<Rightarrow> nat" where
  "record_end key at =
     (if at \<ge> length key then 0
      else let len = unat (key ! at) in
        if len = 0 \<or> at + 1 + len > length key then 0 else at + 1 + len)"

record record_t =
  kr_begin :: nat
  kr_end :: nat
  kr_payload :: bytes

definition payload_in :: "bytes \<Rightarrow> nat \<Rightarrow> nat \<Rightarrow> bytes" where
  "payload_in key at e = subspan (at + 1) (e - at - 1) key"

definition record_from :: "bytes \<Rightarrow> nat \<Rightarrow> record_t option" where
  "record_from key at =
     (let e = record_end key at in
      if e = 0 then None else Some \<lparr>kr_begin = at, kr_end = e, kr_payload = payload_in key at e\<rparr>)"

lemma record_end_bounds: "record_end key at \<noteq> 0 \<Longrightarrow> at + 2 \<le> record_end key at \<and> record_end key at \<le> length key"
  by (auto simp: record_end_def Let_def split: if_splits)

lemma record_end_step:
  "0 < record_end key at \<Longrightarrow> length key - record_end key at < length key - at"
  using record_end_bounds [of key at] by linarith

section \<open>The indexed cursor\<close>

record record_cursor_t =
  rcu_key :: bytes
  rcu_last :: record_t
  rcu_pos :: nat
  rcu_walked :: nat

definition record_cursor :: "bytes \<Rightarrow> record_cursor_t" where
  "record_cursor key = \<lparr>rcu_key = key, rcu_last = \<lparr>kr_begin = 0, kr_end = 0, kr_payload = []\<rparr>, rcu_pos = 0, rcu_walked = 0\<rparr>"

function rcu_walk :: "nat \<Rightarrow> record_cursor_t \<Rightarrow> record_t option \<times> record_cursor_t" where
  "rcu_walk i c =
     (if rcu_walked c \<le> i then
        case record_from (rcu_key c) (rcu_pos c) of
          None \<Rightarrow> (None, c)
        | Some r \<Rightarrow> rcu_walk i (c\<lparr>rcu_last := r, rcu_pos := kr_end r, rcu_walked := rcu_walked c + 1\<rparr>)
      else (Some (rcu_last c), c))"
  by pat_completeness auto
termination by (relation "measure (\<lambda>(i, c). Suc i - rcu_walked c)") auto

definition rcu_at :: "nat \<Rightarrow> record_cursor_t \<Rightarrow> record_t option \<times> record_cursor_t" where
  "rcu_at i c =
     (if rcu_walked c > 0 \<and> i = rcu_walked c - 1 then (Some (rcu_last c), c)
      else rcu_walk i (if i < rcu_walked c then c\<lparr>rcu_walked := 0, rcu_pos := 0\<rparr> else c))"

definition rcu_end_of :: "nat \<Rightarrow> record_cursor_t \<Rightarrow> nat \<times> record_cursor_t" where
  "rcu_end_of n c =
     (if n = 0 then (0, c)
      else case rcu_at (n - 1) c of
        (Some r, c') \<Rightarrow> (kr_end r, c')
      | (None, c') \<Rightarrow> (length (rcu_key c'), c'))"

section \<open>Ancestors and levels\<close>

function last_segment_loop :: "bytes \<Rightarrow> nat \<Rightarrow> bytes \<Rightarrow> bytes" where
  "last_segment_loop key at l =
     (let e = record_end key at in
      if e = 0 then l else last_segment_loop key e (payload_in key at e))"
  by pat_completeness auto
termination
  by (relation "measure (\<lambda>(key, at, l). length key - at)") (auto intro: record_end_step)

definition last_segment :: "bytes \<Rightarrow> bytes" where
  "last_segment key = last_segment_loop key 0 []"

function parent_loop :: "bytes \<Rightarrow> nat \<Rightarrow> nat \<Rightarrow> nat" where
  "parent_loop key at last_start =
     (let e = record_end key at in
      if e = 0 then last_start else parent_loop key e at)"
  by pat_completeness auto
termination
  by (relation "measure (\<lambda>(key, at, l). length key - at)") (auto intro: record_end_step)

definition key_parent :: "bytes \<Rightarrow> bytes" where
  "key_parent key = take (parent_loop key 0 0) key"

definition is_ancestor_of :: "bytes \<Rightarrow> bytes \<Rightarrow> bool" where
  "is_ancestor_of key other \<longleftrightarrow> length other > length key \<and> take (length key) other = key"

definition child_record_under :: "bytes \<Rightarrow> bytes \<Rightarrow> bytes option" where
  "child_record_under key parent =
     (if \<not> is_ancestor_of parent key then None
      else let rest = drop (length parent) key in
        if length rest \<le> 1 then None
        else if record_end rest 0 \<noteq> length rest then None
        else Some rest)"

text \<open>The callback of \<^verbatim>\<open>for_each_level\<close> threads a state of its own and may stop the walk.\<close>

function level_loop :: "(bytes \<Rightarrow> 's \<Rightarrow> bool \<times> 's) \<Rightarrow> bytes \<Rightarrow> nat \<Rightarrow> bool \<Rightarrow> 's \<Rightarrow> bool \<times> 's" where
  "level_loop emit key i any s =
     (let e = record_end key i in
      if e = 0 then (any \<and> i = length key, s)
      else case emit (take e key) s of
        (False, s') \<Rightarrow> (False, s')
      | (True, s') \<Rightarrow> level_loop emit key e True s')"
  by pat_completeness auto
termination
  by (relation "measure (\<lambda>(emit, key, i, any, s). length key - i)")
     (auto intro: record_end_step)

definition for_each_level :: "(bytes \<Rightarrow> 's \<Rightarrow> bool \<times> 's) \<Rightarrow> bytes \<Rightarrow> 's \<Rightarrow> bool \<times> 's" where
  "for_each_level emit key s = level_loop emit key 0 False s"

definition split_levels :: "bytes \<Rightarrow> bytes list \<Rightarrow> bool \<times> bytes list" where
  "split_levels key out =
     (case for_each_level (\<lambda>level out. (True, out @ [level])) key out of
        (True, out') \<Rightarrow> (True, out')
      | (False, out') \<Rightarrow> (False, take (length out) out'))"

definition path_key :: "tlv_node_t \<Rightarrow> bytes option" where
  "path_key path =
     (if opt_pl (nd_opt path) then None
      else let body = node_payload path in
        if \<not> packed_path_valid_key body then None else Some body)"

declare rcu_walk.simps [simp del] last_segment_loop.simps [simp del] parent_loop.simps [simp del] level_loop.simps [simp del]

section \<open>Keys as segment lists\<close>

definition key_of :: "bytes list \<Rightarrow> bytes" where
  "key_of segs = records_bytes (map RSeg segs)"

definition segs_ok :: "bytes list \<Rightarrow> bool" where
  "segs_ok segs \<longleftrightarrow> list_all record_ok (map RSeg segs)"

lemma key_of_simps [simp]:
  "key_of [] = []" "key_of (s # segs) = (of_nat (length s) # s) @ key_of segs"
  "key_of (a @ b) = key_of a @ key_of b"
  by (simp_all add: key_of_def records_bytes_def)

lemma segs_ok_simps [simp]:
  "segs_ok []" "segs_ok (s # segs) \<longleftrightarrow> s \<noteq> [] \<and> length s \<le> 255 \<and> segs_ok segs"
  "segs_ok (a @ b) \<longleftrightarrow> segs_ok a \<and> segs_ok b"
  by (auto simp: segs_ok_def)

lemma valid_key_segs: "packed_path_valid_key key \<longleftrightarrow> (\<exists>segs. segs_ok segs \<and> key = key_of segs)"
  by (simp add: valid_key_iff segs_ok_def key_of_def)

lemma record_end_at:
  assumes "s \<noteq> []" and "length s \<le> 255"
  shows "record_end (pre @ (of_nat (length s) # s) @ post) (length pre) = length pre + 1 + length s"
    and "payload_in (pre @ (of_nat (length s) # s) @ post) (length pre) (length pre + 1 + length s) = s"
  using assms byte_of_nat_unat [of "length s"]
  by (simp_all add: record_end_def payload_in_def nth_append subspan_append_right) (simp_all add: subspan_def)

lemma record_end_past: "record_end key (length key) = 0"
  by (simp add: record_end_def)

lemma record_end_key_iff: "record_end key at \<noteq> 0 \<longleftrightarrow> at < length key \<and> key ! at \<noteq> 0 \<and> at + 1 + unat (key ! at) \<le> length key"
  by (auto simp: record_end_def Let_def unat_eq_zero)

lemma last_segment_loop_key:
  "segs_ok segs \<Longrightarrow>
     last_segment_loop (pre @ key_of segs) (length pre) l = (if segs = [] then l else last segs)"
proof (induction segs arbitrary: pre l)
  case (Cons s segs)
  have "last_segment_loop (pre @ key_of (s # segs)) (length pre) l =
      last_segment_loop ((pre @ of_nat (length s) # s) @ key_of segs) (length (pre @ of_nat (length s) # s)) s"
    using Cons.prems record_end_at [of s pre "key_of segs"]
    by (subst last_segment_loop.simps) (simp add: Let_def)
  then show ?case using Cons.IH [of "pre @ of_nat (length s) # s" s] Cons.prems by simp
qed (subst last_segment_loop.simps, simp add: record_end_past)

lemma parent_loop_key:
  "segs_ok segs \<Longrightarrow>
     parent_loop (pre @ key_of segs) (length pre) l = (if segs = [] then l else length (pre @ key_of (butlast segs)))"
proof (induction segs arbitrary: pre l)
  case (Cons s segs)
  have "parent_loop (pre @ key_of (s # segs)) (length pre) l =
      parent_loop ((pre @ of_nat (length s) # s) @ key_of segs) (length (pre @ of_nat (length s) # s)) (length pre)"
    using Cons.prems record_end_at [of s pre "key_of segs"]
    by (subst parent_loop.simps) (simp add: Let_def)
  then show ?case using Cons.IH [of "pre @ of_nat (length s) # s" "length pre"] Cons.prems by simp
qed (subst parent_loop.simps, simp add: record_end_past)

lemma byte_of_nat_eq:
  assumes "m \<le> 255" and "n \<le> 255"
  shows "(of_nat m :: byte) = of_nat n \<longleftrightarrow> m = n"
proof
  assume "(of_nat m :: byte) = of_nat n"
  then have "unat (of_nat m :: byte) = unat (of_nat n :: byte)" by simp
  then show "m = n" using assms by (simp only: byte_of_nat_unat)
qed simp

lemma key_of_prefix:
  "segs_ok a \<Longrightarrow> segs_ok b \<Longrightarrow> prefix (key_of a) (key_of b) \<longleftrightarrow> prefix a b"
proof (induction a arbitrary: b)
  case (Cons s a)
  show ?case
  proof (cases b)
    case b: (Cons t b')
    have len: "(of_nat (length s) :: byte) = of_nat (length t) \<longleftrightarrow> length s = length t"
      using Cons.prems b by (intro byte_of_nat_eq) simp_all
    have "prefix (key_of (s # a)) (key_of b) \<longleftrightarrow> s = t \<and> prefix (key_of a) (key_of b')"
    proof (cases "length s = length t")
      case True
      then show ?thesis using b len by (auto simp: prefix_def)
    next
      case False
      then show ?thesis using b len by auto
    qed
    then show ?thesis using b Cons.IH [of b'] Cons.prems by simp
  qed simp
qed simp

lemma key_of_inject: "segs_ok a \<Longrightarrow> segs_ok b \<Longrightarrow> key_of a = key_of b \<longleftrightarrow> a = b"
  using key_of_prefix [of a b] key_of_prefix [of b a] by (auto intro: prefix_order.antisym)

lemma is_ancestor_of_prefix: "is_ancestor_of key other \<longleftrightarrow> strict_prefix key other"
proof -
  have "take (length key) other = key \<longleftrightarrow> prefix key other"
    by (metis append_eq_conv_conj append_take_drop_id prefix_def)
  then show ?thesis
    by (auto simp: is_ancestor_of_def strict_prefix_def prefix_length_less prefix_def
        intro: prefix_length_less)
qed

lemma key_of_strict_prefix:
  "segs_ok a \<Longrightarrow> segs_ok b \<Longrightarrow> strict_prefix (key_of a) (key_of b) \<longleftrightarrow> strict_prefix a b"
  by (simp add: strict_prefix_def key_of_prefix key_of_inject)

lemma record_end_single:
  assumes "segs_ok segs" and "segs \<noteq> []"
  shows "record_end (key_of segs) 0 = length (key_of segs) \<longleftrightarrow> length segs = 1"
proof -
  obtain s r where segs: "segs = s # r" using assms(2) by (cases segs) auto
  have "length (key_of r) = 0 \<longleftrightarrow> r = []" by (cases r) simp_all
  then show ?thesis using record_end_at(1) [of s "[]" "key_of r"] assms(1) segs by auto
qed

lemma child_record_under_key:
  assumes "segs_ok a" and "segs_ok b"
  shows "child_record_under (key_of b) (key_of a) = Some r \<longleftrightarrow> (\<exists>s. b = a @ [s] \<and> r = key_of [s])"
proof (cases "strict_prefix a b")
  case False
  then have "\<not> is_ancestor_of (key_of a) (key_of b)" using assms by (simp add: is_ancestor_of_prefix key_of_strict_prefix)
  then show ?thesis using False by (auto simp: child_record_under_def strict_prefix_def)
next
  case True
  then obtain c where b: "b = a @ c" "c \<noteq> []" by (auto elim: strict_prefixE')
  have c: "segs_ok c" using assms(2) b by simp
  have "is_ancestor_of (key_of a) (key_of b)" using True assms by (simp add: is_ancestor_of_prefix key_of_strict_prefix)
  moreover have "drop (length (key_of a)) (key_of b) = key_of c" using b by simp
  moreover have "1 < length (key_of c)" using b(2) c by (cases c) (auto simp: Suc_le_eq)
  ultimately have "child_record_under (key_of b) (key_of a) =
      (if record_end (key_of c) 0 \<noteq> length (key_of c) then None else Some (key_of c))"
    by (simp add: child_record_under_def Let_def)
  then show ?thesis using record_end_single [OF c b(2)] b by (auto simp: length_Suc_conv)
qed

lemma level_loop_key:
  "segs_ok segs \<Longrightarrow>
     level_loop (\<lambda>level out. (True, out @ [level])) (pre @ key_of segs) (length pre) any out =
       (any \<or> segs \<noteq> [], out @ map (\<lambda>k. pre @ key_of (take k segs)) [1..<Suc (length segs)])"
proof (induction segs arbitrary: pre any out)
  case (Cons s segs)
  let ?pre = "pre @ of_nat (length s) # s"
  have l: "[1..<Suc (length (s # segs))] = 1 # map Suc [1..<Suc (length segs)]"
    by (simp add: upt_conv_Cons map_Suc_upt del: upt_Suc)
  have "level_loop (\<lambda>level out. (True, out @ [level])) (pre @ key_of (s # segs)) (length pre) any out =
      level_loop (\<lambda>level out. (True, out @ [level])) (?pre @ key_of segs) (length ?pre) True (out @ [?pre])"
    using Cons.prems record_end_at [of s pre "key_of segs"]
    by (subst level_loop.simps) (simp add: Let_def)
  also have "\<dots> = (True, (out @ [?pre]) @ map (\<lambda>k. ?pre @ key_of (take k segs)) [1..<Suc (length segs)])"
    using Cons.IH [of ?pre True "out @ [?pre]"] Cons.prems by simp
  finally show ?case unfolding l by (simp add: o_def del: upt_Suc)
qed (subst level_loop.simps, simp add: record_end_past)

lemma level_loop_ok:
  "level_loop (\<lambda>level out. (True, out @ [level])) key i any out = (True, out') \<Longrightarrow> i \<le> length key \<Longrightarrow>
     (any \<or> i < length key) \<and> packed_path_valid_key_from key i"
proof (induction "\<lambda>level out. (True, out @ [level :: bytes])" key i any out rule: level_loop.induct)
  case (1 key i any out)
  show ?case
  proof (cases "record_end key i = 0")
    case True
    then have "any" "i = length key" using "1.prems" by (simp_all add: level_loop.simps [of _ key i])
    then show ?thesis by (simp add: packed_path_valid_key_from.simps)
  next
    case False
    then have b: "i < length key" "record_end key i \<le> length key" using record_end_bounds [of key i] by auto
    have len: "key ! i \<noteq> 0" "record_end key i = i + (1 + unat (key ! i))" "i + 1 + unat (key ! i) \<le> length key"
      using False by (auto simp: record_end_def Let_def split: if_splits)
    have "level_loop (\<lambda>level out. (True, out @ [level])) key (record_end key i) True (out @ [take (record_end key i) key]) = (True, out')"
      using "1.prems"(1) False by (subst (asm) level_loop.simps) (simp add: Let_def)
    then have "packed_path_valid_key_from key (record_end key i)"
      using "1.hyps" [OF refl False refl refl] b by simp
    then show ?thesis using len b(1) by (subst packed_path_valid_key_from.simps) (simp add: Let_def)
  qed
qed

lemma level_loop_extends:
  "\<exists>more. snd (level_loop (\<lambda>level out. (True, out @ [level])) key i any out) = out @ more"
proof (induction "\<lambda>level out. (True, out @ [level :: bytes])" key i any out rule: level_loop.induct)
  case (1 key i any out)
  show ?case
  proof (cases "record_end key i = 0")
    case True
    then show ?thesis by (subst level_loop.simps) simp
  next
    case False
    then obtain more where "snd (level_loop (\<lambda>level out. (True, out @ [level])) key (record_end key i) True
        (out @ [take (record_end key i) key])) = (out @ [take (record_end key i) key]) @ more"
      using "1.hyps" [OF refl False refl refl] by blast
    then show ?thesis using False by (subst level_loop.simps) (simp add: Let_def)
  qed
qed

section \<open>The cursor is independent of its history\<close>

fun nth_record :: "bytes \<Rightarrow> nat \<Rightarrow> record_t option" where
  "nth_record key 0 = record_from key 0"
| "nth_record key (Suc i) = (case nth_record key i of None \<Rightarrow> None | Some r \<Rightarrow> record_from key (kr_end r))"

definition rcu_inv :: "bytes \<Rightarrow> record_cursor_t \<Rightarrow> bool" where
  "rcu_inv key c \<longleftrightarrow> rcu_key c = key \<and>
     (case rcu_walked c of
        0 \<Rightarrow> rcu_pos c = 0
      | Suc k \<Rightarrow> nth_record key k = Some (rcu_last c) \<and> rcu_pos c = kr_end (rcu_last c))"

lemma nth_record_None: "nth_record key i = None \<Longrightarrow> i \<le> j \<Longrightarrow> nth_record key j = None"
  by (induction j) (auto simp: le_Suc_eq)

lemma rcu_inv_next: "rcu_inv key c \<Longrightarrow> nth_record key (rcu_walked c) = record_from key (rcu_pos c)"
  by (cases "rcu_walked c") (simp_all add: rcu_inv_def)

lemma rcu_walk_spec:
  "rcu_inv key c \<Longrightarrow> rcu_walked c \<le> Suc i \<Longrightarrow>
     fst (rcu_walk i c) = nth_record key i \<and> rcu_inv key (snd (rcu_walk i c))"
proof (induction i c rule: rcu_walk.induct)
  case (1 i c)
  note key = conjunct1 [OF "1.prems"(1) [unfolded rcu_inv_def]]
  show ?case
  proof (cases "rcu_walked c \<le> i")
    case False
    then have "rcu_walked c = Suc i" using "1.prems"(2) by simp
    then show ?thesis using "1.prems"(1) False by (subst (1 2) rcu_walk.simps) (simp add: rcu_inv_def)
  next
    case True
    show ?thesis
    proof (cases "record_from (rcu_key c) (rcu_pos c)")
      case None
      then have "nth_record key i = None"
        using rcu_inv_next [OF "1.prems"(1)] key nth_record_None [of key "rcu_walked c" i] True by simp
      then show ?thesis using None True "1.prems"(1) by (subst (1 2) rcu_walk.simps) simp
    next
      case (Some r)
      let ?c = "c\<lparr>rcu_last := r, rcu_pos := kr_end r, rcu_walked := rcu_walked c + 1\<rparr>"
      have "rcu_inv key ?c" using Some key rcu_inv_next [OF "1.prems"(1)] by (simp add: rcu_inv_def)
      then have "fst (rcu_walk i ?c) = nth_record key i \<and> rcu_inv key (snd (rcu_walk i ?c))"
        using "1.IH" [OF True Some] True by simp
      then show ?thesis using Some True by (subst (1 2) rcu_walk.simps) simp
    qed
  qed
qed

lemma rcu_at_spec:
  assumes "rcu_inv key c"
  shows "fst (rcu_at i c) = nth_record key i \<and> rcu_inv key (snd (rcu_at i c))"
proof (cases "rcu_walked c > 0 \<and> i = rcu_walked c - 1")
  case True
  then obtain k where "rcu_walked c = Suc k" "i = k" by (cases "rcu_walked c") auto
  then show ?thesis using assms True by (simp add: rcu_at_def rcu_inv_def)
next
  case False
  let ?c = "if i < rcu_walked c then c\<lparr>rcu_walked := 0, rcu_pos := 0\<rparr> else c"
  have "rcu_inv key ?c" "rcu_walked ?c \<le> Suc i" using assms by (auto simp: rcu_inv_def)
  moreover have "rcu_at i c = rcu_walk i ?c" using False unfolding rcu_at_def by (rule if_not_P)
  ultimately show ?thesis using rcu_walk_spec by simp
qed

lemma rcu_inv_init: "rcu_inv key (record_cursor key)"
  by (simp add: rcu_inv_def record_cursor_def)

lemma rcu_history: "rcu_inv key (fold (\<lambda>j c. snd (rcu_at j c)) asks (record_cursor key))"
proof -
  have "rcu_inv key c \<Longrightarrow> rcu_inv key (fold (\<lambda>j c. snd (rcu_at j c)) asks c)" for c
    using rcu_at_spec by (induction asks arbitrary: c) simp_all
  then show ?thesis using rcu_inv_init by blast
qed

definition seg_record :: "bytes list \<Rightarrow> nat \<Rightarrow> record_t" where
  "seg_record segs i = \<lparr>kr_begin = length (key_of (take i segs)), kr_end = length (key_of (take (Suc i) segs)),
     kr_payload = segs ! i\<rparr>"

lemma record_from_seg:
  assumes "segs_ok segs" and "i \<le> length segs"
  shows "record_from (key_of segs) (length (key_of (take i segs))) = (if i < length segs then Some (seg_record segs i) else None)"
proof (cases "i < length segs")
  case False
  then show ?thesis using assms(2) by (simp add: record_from_def record_end_past)
next
  case True
  let ?s = "segs ! i"
  have split: "segs = take i segs @ ?s # drop (Suc i) segs" using True by (rule id_take_nth_drop)
  then have key: "key_of segs = key_of (take i segs) @ (of_nat (length ?s) # ?s) @ key_of (drop (Suc i) segs)"
    by (metis key_of_simps(2,3) append.assoc)
  have "?s \<noteq> []" "length ?s \<le> 255" using assms(1) split by (metis segs_ok_simps(2,3))+
  note at = record_end_at [OF this, of "key_of (take i segs)" "key_of (drop (Suc i) segs)"]
  have "record_end (key_of segs) (length (key_of (take i segs))) = length (key_of (take i segs)) + 1 + length ?s"
    and "payload_in (key_of segs) (length (key_of (take i segs))) (length (key_of (take i segs)) + 1 + length ?s) = ?s"
    using at by (simp_all only: key)
  moreover have "key_of (take (Suc i) segs) = key_of (take i segs) @ of_nat (length ?s) # ?s"
    using True by (simp add: take_Suc_conv_app_nth)
  ultimately show ?thesis using True by (simp add: record_from_def seg_record_def)
qed

lemma nth_record_seg:
  "segs_ok segs \<Longrightarrow> nth_record (key_of segs) i = (if i < length segs then Some (seg_record segs i) else None)"
proof (induction i)
  case 0
  then show ?case using record_from_seg [of segs 0] by simp
next
  case (Suc i)
  then have ih: "nth_record (key_of segs) i = (if i < length segs then Some (seg_record segs i) else None)" by blast
  show ?case
  proof (cases "i < length segs")
    case True
    then show ?thesis using record_from_seg [OF Suc.prems, of "Suc i"] ih by (simp add: seg_record_def)
  next
    case False
    then show ?thesis using ih by simp
  qed
qed

section \<open>The contract of the key view\<close>

text \<open>
  C29. On canonical keys the byte operations are the operations on segment lists: the last
  segment and the parent are the list's, a key is an ancestor exactly when its segments are a
  strict prefix, and a child record is answered exactly for one further segment.
\<close>

theorem key_view_refines_segments:
  assumes "segs_ok a" and "segs_ok b"
  shows "last_segment (key_of a) = (if a = [] then [] else last a) \<and>
     key_parent (key_of a) = key_of (butlast a) \<and>
     (is_ancestor_of (key_of a) (key_of b) \<longleftrightarrow> strict_prefix a b) \<and>
     (\<forall>r. child_record_under (key_of b) (key_of a) = Some r \<longleftrightarrow> (\<exists>s. b = a @ [s] \<and> r = key_of [s]))"
proof -
  have "key_parent (key_of a) = key_of (butlast a)"
  proof (cases a rule: rev_cases)
    case Nil
    then show ?thesis by (simp add: key_parent_def)
  next
    case (snoc c s)
    then show ?thesis using parent_loop_key [of a "[]" 0] assms(1) by (simp add: key_parent_def)
  qed
  then show ?thesis
    using assms last_segment_loop_key [of a "[]" "[]"] child_record_under_key [OF assms]
    by (simp add: last_segment_def is_ancestor_of_prefix key_of_strict_prefix del: key_of_simps(2))
qed

theorem key_view_refines_segments_witness:
  "is_ancestor_of (key_of [[0x61]]) (key_of [[0x61], [0x62]]) \<and> key_parent (key_of [[0x61]]) = []"
  using key_view_refines_segments [of "[[0x61]]" "[[0x61], [0x62]]"] by simp

text \<open>
  C30. Splitting a key into its levels is all or nothing: it answers true exactly on the
  non-empty canonical keys, then appending every prefix from the shallowest to the whole key,
  and otherwise leaves the output as it was.
\<close>

theorem split_levels_all_or_nothing:
  "(\<forall>segs. segs_ok segs \<and> segs \<noteq> [] \<longrightarrow>
      split_levels (key_of segs) out = (True, out @ map (\<lambda>k. key_of (take k segs)) [1..<Suc (length segs)])) \<and>
   (key = [] \<or> \<not> packed_path_valid_key key \<longrightarrow> split_levels key out = (False, out))"
proof (intro conjI allI impI)
  fix segs assume "segs_ok segs \<and> segs \<noteq> []"
  then show "split_levels (key_of segs) out = (True, out @ map (\<lambda>k. key_of (take k segs)) [1..<Suc (length segs)])"
    using level_loop_key [of segs "[]" False out] by (simp add: split_levels_def for_each_level_def del: upt_Suc)
next
  assume bad: "key = [] \<or> \<not> packed_path_valid_key key"
  let ?r = "level_loop (\<lambda>level out. (True, out @ [level])) key 0 False out"
  have "\<not> fst ?r"
  proof
    assume "fst ?r"
    then have "?r = (True, snd ?r)" by (simp add: prod_eq_iff)
    from level_loop_ok [OF this] have "0 < length key \<and> packed_path_valid_key_from key 0" by simp
    then show False using bad by (auto simp: packed_path_valid_key_def)
  qed
  moreover obtain more where "snd ?r = out @ more" using level_loop_extends by blast
  ultimately have "?r = (False, out @ more)" by (simp add: prod_eq_iff)
  then show "split_levels key out = (False, out)" by (simp add: split_levels_def for_each_level_def)
qed

theorem split_levels_all_or_nothing_witness:
  "split_levels [1, 0x61, 1, 0x62] [] = (True, [[1, 0x61], [1, 0x61, 1, 0x62]]) \<and> split_levels [1, 0x61, 0] [] = (False, [])"
proof
  have "split_levels (key_of [[0x61], [0x62]]) [] =
      (True, [] @ map (\<lambda>k. key_of (take k [[0x61], [0x62]])) [1..<Suc (length [[0x61], [0x62 :: byte]])])"
    by (rule split_levels_all_or_nothing [THEN conjunct1, THEN spec, THEN mp]) simp
  then show "split_levels [1, 0x61, 1, 0x62] [] = (True, [[1, 0x61], [1, 0x61, 1, 0x62]])" by (simp add: upt_rec)
  have "\<not> packed_path_valid_key [1, 0x61, 0]" by code_simp
  then show "split_levels [1, 0x61, 0] [] = (False, [])"
    using split_levels_all_or_nothing [THEN conjunct2, THEN mp] by blast
qed

text \<open>
  The indexed cursor answers the \<open>i\<close>-th segment, with its bounds, whatever was asked of it
  before, and \<^verbatim>\<open>end_of\<close> the offset after the first \<open>n\<close> segments.
\<close>

theorem record_cursor_indexed:
  fixes asks :: "nat list" and i n :: nat
  assumes "segs_ok segs"
  defines "c \<equiv> fold (\<lambda>j c. snd (rcu_at j c)) asks (record_cursor (key_of segs))"
  shows "fst (rcu_at i c) =
       (if i < length segs
        then Some \<lparr>kr_begin = length (key_of (take i segs)), kr_end = length (key_of (take (Suc i) segs)), kr_payload = segs ! i\<rparr>
        else None) \<and>
     fst (rcu_end_of n c) = length (key_of (take n segs))"
proof -
  have inv: "rcu_inv (key_of segs) c" unfolding c_def by (rule rcu_history)
  note r = rcu_at_spec [OF inv]
  have "fst (rcu_end_of n c) = length (key_of (take n segs))"
  proof (cases n)
    case (Suc k)
    have "rcu_key (snd (rcu_at k c)) = key_of segs" using r [of k] by (simp add: rcu_inv_def)
    then show ?thesis
      using Suc r [of k] nth_record_seg [OF assms(1), of k]
      by (auto simp: rcu_end_of_def seg_record_def split: prod.splits if_splits option.splits)
  qed (simp add: rcu_end_of_def)
  then show ?thesis using r [of i] nth_record_seg [OF assms(1), of i] by (simp add: seg_record_def)
qed

theorem record_cursor_indexed_witness:
  "fst (rcu_at 0 (fold (\<lambda>j c. snd (rcu_at j c)) [1, 7] (record_cursor (key_of [[0x61], [0x62, 0x63]])))) =
     Some \<lparr>kr_begin = 0, kr_end = 2, kr_payload = [0x61]\<rparr>"
  using record_cursor_indexed [of "[[0x61], [0x62, 0x63]]" 0 "[1, 7]"] by simp

end
