(* ===== verification/Status.thy ===== *)
theory Status
  imports Tlv
begin

text \<open>
  The status set of the graph's control surface, \<^verbatim>\<open>status.hpp\<close>, and its bridge to the wire
  registry, \<^verbatim>\<open>error_code\<close> of \<^verbatim>\<open>fwd_reply.cpp\<close>. The lemmas show that both the names and the codes
  tell the statuses apart, and which of them a peer may retry.
\<close>

datatype status_t =
    S_NOT_FOUND | S_INVALID_PATH | S_TYPE_MISMATCH | S_BACKPRESSURE | S_TIMEOUT
  | S_SCHEMA_NOT_FOUND | S_PERMISSION_DENIED | S_PATH_IN_USE | S_TRANSPORT_DOWN

primrec status_to_string :: "status_t \<Rightarrow> string" where
  "status_to_string S_NOT_FOUND = ''not_found''"
| "status_to_string S_INVALID_PATH = ''invalid_path''"
| "status_to_string S_TYPE_MISMATCH = ''type_mismatch''"
| "status_to_string S_BACKPRESSURE = ''backpressure''"
| "status_to_string S_TIMEOUT = ''timeout''"
| "status_to_string S_SCHEMA_NOT_FOUND = ''schema_not_found''"
| "status_to_string S_PERMISSION_DENIED = ''permission_denied''"
| "status_to_string S_PATH_IN_USE = ''path_in_use''"
| "status_to_string S_TRANSPORT_DOWN = ''transport_down''"

primrec error_code :: "status_t \<Rightarrow> err_t" where
  "error_code S_NOT_FOUND = PATH_NOT_FOUND"
| "error_code S_PERMISSION_DENIED = ACCESS_DENIED"
| "error_code S_INVALID_PATH = PATH_INVALID"
| "error_code S_TYPE_MISMATCH = SCHEMA_TYPE_MISMATCH"
| "error_code S_BACKPRESSURE = FLOW_BACKPRESSURE"
| "error_code S_TIMEOUT = FLOW_TIMEOUT"
| "error_code S_SCHEMA_NOT_FOUND = SCHEMA_NOT_FOUND"
| "error_code S_PATH_IN_USE = PATH_IN_USE"
| "error_code S_TRANSPORT_DOWN = TRANSPORT_DOWN"

lemma status_to_string_inject: "status_to_string s = status_to_string t \<longleftrightarrow> s = t"
  by (cases s; cases t) simp_all

lemma err_code_inject: "err_code a = err_code b \<longleftrightarrow> a = b"
  by (cases a; cases b) simp_all

lemma error_code_inject: "err_code (error_code s) = err_code (error_code t) \<longleftrightarrow> s = t"
  unfolding err_code_inject by (cases s; cases t) simp_all

lemma error_code_transient:
  "err_disposition (error_code s) = TRANSIENT \<longleftrightarrow> s \<in> {S_BACKPRESSURE, S_TIMEOUT, S_TRANSPORT_DOWN}"
  by (cases s) (simp_all add: err_disposition_def)

end
