(* ===== verification/Path.thy ===== *)
theory Path
  imports Key_View Status
begin

text \<open>
  The parsed path, \<^verbatim>\<open>path.hpp\<close> and \<^verbatim>\<open>path.cpp\<close>: the segment predicate, the field tail with its
  steps, \<^verbatim>\<open>path_t::parse\<close> with the block it draws, the copies and moves of a path, the owned key
  \<^verbatim>\<open>path_key_t\<close> with its inline and spilled forms, and the key hash. Text is the list of its
  bytes. The theorems give the round trip with the printed form, what an accepted text can be,
  and that no path of the parse keeps a block it does not answer.
\<close>

section \<open>Segments and field steps\<close>

abbreviation kMaxSegmentBytes :: nat where "kMaxSegmentBytes \<equiv> 64"
abbreviation kMaxPathBytes :: nat where "kMaxPathBytes \<equiv> 1024"
abbreviation kMaxSegments :: nat where "kMaxSegments \<equiv> 255"
abbreviation kMaxFieldDepth :: nat where "kMaxFieldDepth \<equiv> 8"

text \<open>The reserved characters \<^verbatim>\<open>/:.[]*?\<close> as bytes.\<close>

definition reserved_chars :: "bytes" where
  "reserved_chars = [0x2F, 0x3A, 0x2E, 0x5B, 0x5D, 0x2A, 0x3F]"

definition valid_segment :: "bytes \<Rightarrow> bool" where
  "valid_segment seg \<longleftrightarrow>
     seg \<noteq> [] \<and> length seg \<le> kMaxSegmentBytes \<and> list_all (\<lambda>c. \<not> List.member reserved_chars c) seg"

record field_step_t =
  fs_name :: bytes
  fs_indexed :: bool
  fs_append :: bool
  fs_wildcard :: bool
  fs_index :: "16 word"

definition steps_push_back :: "field_step_t \<Rightarrow> field_step_t list \<Rightarrow> field_step_t list option" where
  "steps_push_back step s = (if length s = kMaxFieldDepth then None else Some (s @ [step]))"

text \<open>
  \<^verbatim>\<open>std::from_chars\<close> into an \<^verbatim>\<open>unsigned\<close> of 32 bits: the longest run of digits is consumed;
  no digit is \<^verbatim>\<open>invalid_argument\<close> and a value past the type \<^verbatim>\<open>result_out_of_range\<close>, both \<open>None\<close>.
\<close>

definition from_chars_unsigned :: "bytes \<Rightarrow> nat \<times> 32 word option" where
  "from_chars_unsigned s =
     (let ds = takeWhile is_digit s in
      (length ds, if ds = [] \<or> dec_value ds 0 \<ge> 2 ^ 32 then None else Some (of_nat (dec_value ds 0))))"

definition parse_step :: "bytes \<Rightarrow> status_t + field_step_t" where
  "parse_step step =
     (let br = find_char 0x5B step;
          fs = \<lparr>fs_name = take br step, fs_indexed = False, fs_append = False, fs_wildcard = False, fs_index = 0\<rparr>;
          sel = (if br < length step then
                   if last step \<noteq> 0x5D then Inl S_INVALID_PATH
                   else
                     let fs = fs\<lparr>fs_indexed := True\<rparr>;
                         idx = subspan (br + 1) (length step - br - 2) step in
                     if idx = [] then Inr (fs\<lparr>fs_append := True\<rparr>)
                     else case from_chars_unsigned idx of
                       (n, None) \<Rightarrow> Inl S_INVALID_PATH
                     | (n, Some value) \<Rightarrow>
                         if n \<noteq> length idx \<or> value > 0xFFFF then Inl S_INVALID_PATH
                         else Inr (fs\<lparr>fs_index := ucast value\<rparr>)
                 else Inr fs) in
      case sel of
        Inl e \<Rightarrow> Inl e
      | Inr fs \<Rightarrow> if \<not> valid_segment (fs_name fs) then Inl S_INVALID_PATH else Inr fs)"

section \<open>Parsing\<close>

function strip_slashes :: "bytes \<Rightarrow> bytes" where
  "strip_slashes addr =
     (if length addr > 1 \<and> last addr = 0x2F then strip_slashes (butlast addr) else addr)"
  by pat_completeness auto
termination by (relation "measure length") auto

text \<open>The two loops run over what is left of the text from their position on.\<close>

lemma find_char_le: "find_char c s \<le> length s"
  by (induction s) auto

function field_loop :: "bytes \<Rightarrow> field_step_t list \<Rightarrow> nat \<Rightarrow> status_t + field_step_t list \<times> nat" where
  "field_loop rest steps name_bytes =
     (let dot = find_char 0x2E rest;
          step = take dot rest in
      if step = [] then Inl S_INVALID_PATH
      else case parse_step step of
        Inl e \<Rightarrow> Inl e
      | Inr fs \<Rightarrow>
          (case steps_push_back fs steps of
             None \<Rightarrow> Inl S_INVALID_PATH
           | Some steps' \<Rightarrow>
               let name_bytes' = name_bytes + length (fs_name fs) in
               if dot = length rest then Inr (steps', name_bytes')
               else field_loop (drop (dot + 1) rest) steps' name_bytes'))"
  by pat_completeness auto
termination
  by (relation "measure (\<lambda>(rest, _). length rest)") (use find_char_le in \<open>auto intro: diff_less\<close>)

function segment_loop :: "bytes \<Rightarrow> bytes \<Rightarrow> nat \<Rightarrow> status_t + bytes \<times> nat" where
  "segment_loop rest out segments =
     (if rest = [] then Inr (out, segments)
      else
        let slash = find_char 0x2F rest;
            seg = take slash rest in
        if \<not> valid_segment seg \<or> segments + 1 > kMaxSegments then Inl S_INVALID_PATH
        else segment_loop (drop (slash + 1) rest)
               (out @ snd (store_path_segment (replicate (1 + length seg) 0) seg)) (segments + 1))"
  by pat_completeness auto
termination by (relation "measure (\<lambda>(rest, _). length rest)") auto

text \<open>
  A path owns one block: the field path first when there is one, then the key bytes, then the
  step names. \<open>p_payload\<close> is the block from \<^verbatim>\<open>payload_off()\<close> on, \<open>p_steps\<close> the field path placed
  at its start, a step's name standing for the bytes it views.
\<close>

record path_t =
  p_block :: addr
  p_block_len :: nat
  p_key_len :: "16 word"
  p_segments :: "8 word"
  p_has_field :: bool
  p_payload :: bytes
  p_steps :: "field_step_t list"

record 'm path_env =
  pe_src :: "'m source_ops"
  pe_sizeof_field :: nat
  pe_alignof_field :: nat

definition path_empty :: path_t where
  "path_empty = \<lparr>p_block = 0, p_block_len = 0, p_key_len = 0, p_segments = 0, p_has_field = False, p_payload = [], p_steps = []\<rparr>"

definition payload_off :: "'m path_env \<Rightarrow> path_t \<Rightarrow> nat" where
  "payload_off env p = (if p_has_field p then pe_sizeof_field env else 0)"

definition path_release :: "'m path_env \<Rightarrow> path_t \<Rightarrow> 'm \<Rightarrow> path_t \<times> 'm" where
  "path_release env p m =
     (p\<lparr>p_block := 0, p_block_len := 0\<rparr>,
      if p_block p \<noteq> 0 then release (pe_src env) m (p_block p) (p_block_len p) (pe_alignof_field env) else m)"

definition path_t_key :: "path_t \<Rightarrow> bytes" where
  "path_t_key p = take (unat (p_key_len p)) (p_payload p)"

definition path_field :: "path_t \<Rightarrow> field_step_t list" where
  "path_field p = (if p_has_field p then p_steps p else [])"

definition segment_count :: "path_t \<Rightarrow> nat" where
  "segment_count p = unat (p_segments p)"

text \<open>The block is drawn between the field loop and the segment loop; a refusal after it releases it.\<close>

definition parse_into :: "'m path_env \<Rightarrow> bytes \<Rightarrow> field_step_t list \<Rightarrow> path_t \<Rightarrow> 'm \<Rightarrow> (status_t + path_t) \<times> 'm" where
  "parse_into env addr field p m =
     (case segment_loop (drop 1 addr) [] 0 of
        Inl e \<Rightarrow> (Inl e, snd (path_release env p m))
      | Inr (key, segments) \<Rightarrow>
          (Inr (p\<lparr>p_segments := of_nat segments, p_key_len := of_nat (length addr),
                  p_payload := (if p_has_field p then key @ concat (map fs_name field) else key),
                  p_steps := (if p_has_field p then field else [])\<rparr>), m))"

definition parse_build :: "'m path_env \<Rightarrow> bytes \<Rightarrow> field_step_t list \<Rightarrow> nat \<Rightarrow> 'm \<Rightarrow> (status_t + path_t) \<times> 'm" where
  "parse_build env addr field name_bytes m =
     (let p = path_empty\<lparr>p_has_field := field \<noteq> []\<rparr>;
          len = payload_off env p + length addr + name_bytes in
      if len \<noteq> 0 then
        (case try_alloc (pe_src env) m len (pe_alignof_field env) of
           (None, m') \<Rightarrow> (Inl S_BACKPRESSURE, m')
         | (Some blk, m') \<Rightarrow> parse_into env addr field (p\<lparr>p_block := blk, p_block_len := len\<rparr>) m')
      else parse_into env addr field p m)"

definition canonical_addr :: "bytes \<Rightarrow> bytes" where
  "canonical_addr addr = (let addr = strip_slashes addr in if length addr = 1 then [] else addr)"

definition parse_fields :: "bytes \<Rightarrow> status_t + field_step_t list \<times> nat" where
  "parse_fields field_text = (if field_text \<noteq> [] then field_loop field_text [] 0 else Inr ([], 0))"

definition parse :: "'m path_env \<Rightarrow> bytes \<Rightarrow> 'm \<Rightarrow> (status_t + path_t) \<times> 'm" where
  "parse env txt m =
     (let colon = find_char 0x3A txt;
          addr = take colon txt;
          field_text = drop (colon + 1) txt in
      if addr = [] \<or> hd addr \<noteq> 0x2F then (Inl S_INVALID_PATH, m)
      else if length (canonical_addr addr) > kMaxPathBytes then (Inl S_INVALID_PATH, m)
      else case parse_fields field_text of
        Inl e \<Rightarrow> (Inl e, m)
      | Inr (field, name_bytes) \<Rightarrow> parse_build env (canonical_addr addr) field name_bytes m)"

text \<open>A copy stops the node when the source refuses it, which is \<open>None\<close>; a move empties its source.\<close>

definition path_copy :: "'m path_env \<Rightarrow> path_t \<Rightarrow> 'm \<Rightarrow> path_t option \<times> 'm" where
  "path_copy env p m =
     (if p_block_len p \<noteq> 0 then
        case try_alloc (pe_src env) m (p_block_len p) (pe_alignof_field env) of
          (None, m') \<Rightarrow> (None, m')
        | (Some blk, m') \<Rightarrow> (Some (p\<lparr>p_block := blk\<rparr>), m')
      else (Some (p\<lparr>p_block := 0\<rparr>), m))"

definition path_take :: "path_t \<Rightarrow> path_t \<times> path_t" where
  "path_take p = (p, p\<lparr>p_block := 0, p_block_len := 0, p_key_len := 0, p_segments := 0, p_has_field := False\<rparr>)"

section \<open>The owned key\<close>

abbreviation kInlineBytes :: nat where "kInlineBytes \<equiv> 16"
abbreviation kNoOwnerSlot :: "32 word" where "kNoOwnerSlot \<equiv> 0xFFFFFFFF"

text \<open>
  The length decides the form: up to \<open>kInlineBytes\<close> the record is in place, longer it is in a
  block whose first \<open>ptr\<close> bytes name the source that served it and \<open>pk_spill\<close> points past them.
\<close>

record path_key_t =
  pk_bytes :: bytes
  pk_spill :: addr
  pk_owner_slot :: "32 word"

definition pk_empty :: path_key_t where
  "pk_empty = \<lparr>pk_bytes = [], pk_spill = 0, pk_owner_slot = kNoOwnerSlot\<rparr>"

definition pk_assign :: "'m source_ops \<Rightarrow> nat \<Rightarrow> bytes \<Rightarrow> path_key_t \<Rightarrow> 'm \<Rightarrow> bool \<times> path_key_t \<times> 'm" where
  "pk_assign src ptr b k m =
     (let k = k\<lparr>pk_owner_slot := kNoOwnerSlot\<rparr> in
      if length b > kInlineBytes then
        case try_alloc src m (ptr + length b) ptr of
          (None, m') \<Rightarrow> (False, k, m')
        | (Some blk, m') \<Rightarrow> (True, k\<lparr>pk_spill := blk + ptr, pk_bytes := b\<rparr>, m')
      else (True, k\<lparr>pk_bytes := b\<rparr>, m))"

definition pk_release :: "'m source_ops \<Rightarrow> nat \<Rightarrow> path_key_t \<Rightarrow> 'm \<Rightarrow> 'm" where
  "pk_release src ptr k m =
     (if length (pk_bytes k) > kInlineBytes
      then release src m (pk_spill k - ptr) (ptr + length (pk_bytes k)) ptr else m)"

definition pk_try_make :: "'m source_ops \<Rightarrow> nat \<Rightarrow> bytes \<Rightarrow> 'm \<Rightarrow> (status_t + path_key_t) \<times> 'm" where
  "pk_try_make src ptr b m =
     (case pk_assign src ptr b pk_empty m of
        (False, k, m') \<Rightarrow> (Inl S_BACKPRESSURE, m')
      | (True, k, m') \<Rightarrow> (Inr k, m'))"

definition pk_take :: "path_key_t \<Rightarrow> path_key_t \<Rightarrow> path_key_t \<times> path_key_t" where
  "pk_take k other =
     (let k = k\<lparr>pk_owner_slot := kNoOwnerSlot, pk_bytes := pk_bytes other\<rparr> in
      (if length (pk_bytes other) > kInlineBytes then k\<lparr>pk_spill := pk_spill other\<rparr> else k,
       other\<lparr>pk_bytes := []\<rparr>))"

definition pk_move_assign :: "'m source_ops \<Rightarrow> nat \<Rightarrow> path_key_t \<Rightarrow> path_key_t \<Rightarrow> 'm \<Rightarrow> (path_key_t \<times> path_key_t) \<times> 'm" where
  "pk_move_assign src ptr k other m = (pk_take k other, pk_release src ptr k m)"

definition fnv1a_key :: "nat \<Rightarrow> bytes \<Rightarrow> nat" where
  "fnv1a_key w b =
     unat (fold (\<lambda>c h. (h XOR ucast c) * 1099511628211) b (1469598103934665603 :: 64 word)) mod 2 ^ w"

declare strip_slashes.simps [simp del] field_loop.simps [simp del] segment_loop.simps [simp del]

section \<open>The printed form\<close>

definition show_addr :: "bytes list \<Rightarrow> bytes" where
  "show_addr segs = (if segs = [] then [0x2F] else concat (map (\<lambda>s. 0x2F # s) segs))"

definition show_step :: "field_step_t \<Rightarrow> bytes" where
  "show_step fs = fs_name fs @
     (if fs_indexed fs then 0x5B # (if fs_append fs then [] else dec_digits (unat (fs_index fs))) @ [0x5D] else [])"

fun show_fields :: "field_step_t list \<Rightarrow> bytes" where
  "show_fields [] = []"
| "show_fields [fs] = show_step fs"
| "show_fields (fs # fss) = show_step fs @ 0x2E # show_fields fss"

definition show_path :: "bytes list \<Rightarrow> field_step_t list \<Rightarrow> bytes" where
  "show_path segs fss = show_addr segs @ (if fss = [] then [] else 0x3A # show_fields fss)"

definition step_ok :: "field_step_t \<Rightarrow> bool" where
  "step_ok fs \<longleftrightarrow> valid_segment (fs_name fs) \<and> \<not> fs_wildcard fs \<and>
     (fs_append fs \<longrightarrow> fs_indexed fs \<and> fs_index fs = 0) \<and> (\<not> fs_indexed fs \<longrightarrow> fs_index fs = 0)"

lemma valid_segment_chars:
  "valid_segment seg \<Longrightarrow>
     0x2F \<notin> set seg \<and> 0x3A \<notin> set seg \<and> 0x2E \<notin> set seg \<and> 0x5B \<notin> set seg \<and> 0x5D \<notin> set seg"
  by (auto simp: valid_segment_def reserved_chars_def list_all_iff)

lemma valid_segment_record: "valid_segment seg \<Longrightarrow> seg \<noteq> [] \<and> length seg \<le> 64"
  by (simp add: valid_segment_def)

lemma digit_not_special: "is_digit c \<Longrightarrow> c \<noteq> 0x2E \<and> c \<noteq> 0x5D \<and> c \<noteq> 0x3A \<and> c \<noteq> 0x5B"
  by (auto simp: digit_unat)

lemma find_char_split:
  "c \<notin> set a \<Longrightarrow> find_char c (a @ c # b) = length a" "c \<notin> set a \<Longrightarrow> find_char c a = length a"
  by (simp_all add: find_char_append find_char_none)

lemma find_char_hit: "find_char c s < length s \<Longrightarrow> s = take (find_char c s) s @ c # drop (Suc (find_char c s)) s"
  by (induction s) auto

lemma find_char_drop: "drop (find_char c s) s = [] \<or> hd (drop (find_char c s) s) = c"
  by (induction s) auto

lemma find_char_before: "c \<notin> set (take (find_char c s) s)"
  by (induction s) auto

lemma takeWhile_digits: "list_all is_digit ds \<Longrightarrow> takeWhile is_digit ds = ds"
  by (simp add: takeWhile_eq_all_conv list_all_iff)

lemma from_chars_digits:
  "n < 2 ^ 32 \<Longrightarrow> from_chars_unsigned (dec_digits n) = (length (dec_digits n), Some (of_nat n))"
  using dec_digits_value [of n] by (simp add: from_chars_unsigned_def takeWhile_digits)

lemma parse_step_show:
  assumes "step_ok fs"
  shows "parse_step (show_step fs) = Inr fs"
proof -
  have name: "valid_segment (fs_name fs)" using assms by (simp add: step_ok_def)
  then have nb: "0x5B \<notin> set (fs_name fs)" using valid_segment_chars by blast
  show ?thesis
  proof (cases "fs_indexed fs")
    case False
    then show ?thesis
      using assms nb name by (cases fs) (simp add: parse_step_def show_step_def step_ok_def find_char_split)
  next
    case True
    let ?idx = "if fs_append fs then [] else dec_digits (unat (fs_index fs))"
    have s: "show_step fs = fs_name fs @ 0x5B # ?idx @ [0x5D]" using True by (simp add: show_step_def)
    have br: "find_char 0x5B (show_step fs) = length (fs_name fs)" using s nb by (simp add: find_char_split)
    have sub: "subspan (length (fs_name fs) + 1) (length (show_step fs) - length (fs_name fs) - 2) (show_step fs) = ?idx"
      using s by (simp add: subspan_def)
    have lt: "unat (fs_index fs) < 2 ^ 16" using unat_less_pow [of "fs_index fs"] by simp
    then have v: "from_chars_unsigned (dec_digits (unat (fs_index fs))) =
        (length (dec_digits (unat (fs_index fs))), Some (ucast (fs_index fs)))"
      using from_chars_digits [of "unat (fs_index fs)"] by simp
    have le: "\<not> (ucast (fs_index fs) :: 32 word) > 0xFFFF"
      using lt by (simp add: word_less_nat_alt unsigned_ucast_eq take_bit_nat_eq_self)
    have id: "(ucast (ucast (fs_index fs) :: 32 word) :: 16 word) = fs_index fs" by (rule bit_word_eqI) (simp add: bit_simps)
    have ne: "dec_digits (unat (fs_index fs)) \<noteq> []" using dec_digits_value by blast
    show ?thesis
      using assms br sub v le True name s ne id
      by (cases fs) (auto simp: parse_step_def step_ok_def Let_def)
  qed
qed

lemma parse_step_ok:
  assumes "parse_step step = Inr fs"
  shows "step_ok fs"
  using assms by (auto simp: parse_step_def step_ok_def Let_def split: if_splits prod.splits option.splits sum.splits)

lemma show_step_chars: "step_ok fs \<Longrightarrow> 0x2E \<notin> set (show_step fs) \<and> 0x3A \<notin> set (show_step fs) \<and> show_step fs \<noteq> []"
  using valid_segment_chars [of "fs_name fs"] valid_segment_record [of "fs_name fs"] dec_digits_value [of "unat (fs_index fs)"]
    digit_not_special
  by (auto simp: show_step_def step_ok_def list_all_iff)

section \<open>The field tail\<close>

lemma field_loop_show:
  "list_all step_ok fss \<Longrightarrow> fss \<noteq> [] \<Longrightarrow> length acc + length fss \<le> kMaxFieldDepth \<Longrightarrow>
     field_loop (show_fields fss) acc n = Inr (acc @ fss, n + length (concat (map fs_name fss)))"
proof (induction fss arbitrary: acc n rule: show_fields.induct)
  case (2 fs)
  then show ?case
    using show_step_chars [of fs] parse_step_show [of fs]
    by (subst field_loop.simps) (simp add: find_char_split steps_push_back_def Let_def)
next
  case (3 fs fs' fss)
  have fs: "step_ok fs" using "3.prems"(1) by simp
  have "field_loop (show_fields (fs # fs' # fss)) acc n = field_loop (show_fields (fs' # fss)) (acc @ [fs]) (n + length (fs_name fs))"
    using show_step_chars [OF fs] parse_step_show [OF fs] "3.prems"(3)
    by (subst field_loop.simps) (simp add: find_char_split steps_push_back_def Let_def)
  then show ?case using "3.IH" [of "acc @ [fs]" "n + length (fs_name fs)"] "3.prems" by simp
qed simp

lemma field_loop_sound:
  "field_loop rest acc n = Inr (steps, n') \<Longrightarrow> length acc \<le> kMaxFieldDepth \<Longrightarrow>
     \<exists>new. steps = acc @ new \<and> new \<noteq> [] \<and> list_all step_ok new \<and> length steps \<le> kMaxFieldDepth \<and>
       n' = n + length (concat (map fs_name new))"
proof (induction rest acc n rule: field_loop.induct)
  case (1 rest acc n)
  let ?dot = "find_char 0x2E rest"
  have step: "take ?dot rest \<noteq> []" using "1.prems"(1) by (subst (asm) field_loop.simps) (auto simp: Let_def split: if_splits)
  then obtain fs where fs: "parse_step (take ?dot rest) = Inr fs"
    using "1.prems"(1) by (subst (asm) field_loop.simps) (auto simp: Let_def split: if_splits sum.splits)
  then have push: "steps_push_back fs acc = Some (acc @ [fs])" "length acc < kMaxFieldDepth"
    using "1.prems" step by (subst (asm) field_loop.simps, auto simp: Let_def steps_push_back_def split: if_splits)+
  show ?case
  proof (cases "?dot = length rest")
    case True
    then have "steps = acc @ [fs]" "n' = n + length (fs_name fs)"
      using "1.prems"(1) step fs push by (subst (asm) field_loop.simps, simp add: Let_def)+
    then show ?thesis using parse_step_ok [OF fs] push by simp
  next
    case False
    have "field_loop (drop (?dot + 1) rest) (acc @ [fs]) (n + length (fs_name fs)) = Inr (steps, n')"
      using "1.prems"(1) step fs push False by (subst (asm) field_loop.simps) (simp add: Let_def)
    then obtain new where "steps = (acc @ [fs]) @ new" "list_all step_ok new" "length steps \<le> kMaxFieldDepth"
      "n' = n + length (fs_name fs) + length (concat (map fs_name new))"
      using "1.IH" [OF refl refl step fs push(1) refl False] push by auto
    then show ?thesis using parse_step_ok [OF fs] by (intro exI [of _ "fs # new"]) simp
  qed
qed

section \<open>The address\<close>

lemma store_segment_record:
  "valid_segment seg \<Longrightarrow> snd (store_path_segment (replicate (1 + length seg) 0) seg) = key_of [seg]"
  using valid_segment_record [of seg] by (simp add: store_path_segment_def)

lemma segment_loop_show:
  "list_all valid_segment segs \<Longrightarrow> n + length segs \<le> kMaxSegments \<Longrightarrow>
     segment_loop (drop 1 (concat (map (\<lambda>s. 0x2F # s) segs))) out n = Inr (out @ key_of segs, n + length segs)"
proof (induction segs arbitrary: out n)
  case Nil
  then show ?case by (subst segment_loop.simps) simp
next
  case (Cons seg segs)
  have v: "valid_segment seg" using Cons.prems by simp
  have tl: "find_char 0x2F (seg @ concat (map (\<lambda>s. 0x2F # s) segs)) = length seg"
    using valid_segment_chars [OF v] by (cases segs) (simp_all add: find_char_split)
  have "segment_loop (drop 1 (concat (map (\<lambda>s. 0x2F # s) (seg # segs)))) out n =
      segment_loop (drop 1 (concat (map (\<lambda>s. 0x2F # s) segs))) (out @ key_of [seg]) (n + 1)"
    using v tl store_segment_record [OF v] valid_segment_record [OF v] Cons.prems(2)
    by (subst segment_loop.simps) (simp add: Let_def del: replicate.simps key_of_simps)
  then show ?case using Cons.IH [where n = "n + 1" and out = "out @ key_of [seg]"] Cons.prems by simp
qed

lemma segment_loop_sound:
  "segment_loop rest out n = Inr (key, n') \<Longrightarrow> n \<le> kMaxSegments \<Longrightarrow> (rest \<noteq> [] \<longrightarrow> last rest \<noteq> 0x2F) \<Longrightarrow>
     \<exists>segs. list_all valid_segment segs \<and> key = out @ key_of segs \<and> n' = n + length segs \<and> n' \<le> kMaxSegments \<and>
       (if rest = [] then segs = [] else concat (map (\<lambda>s. 0x2F # s) segs) = 0x2F # rest)"
proof (induction rest out n rule: segment_loop.induct)
  case (1 rest out n)
  show ?case
  proof (cases "rest = []")
    case True
    then show ?thesis using "1.prems" by (subst (asm) segment_loop.simps) simp
  next
    case False
    let ?slash = "find_char 0x2F rest"
    let ?seg = "take ?slash rest"
    have ok: "\<not> (\<not> valid_segment ?seg \<or> n + 1 > kMaxSegments)"
      using "1.prems"(1) False by (subst (asm) segment_loop.simps) (auto simp: Let_def split: if_splits)
    then have v: "valid_segment ?seg" "n + 1 \<le> kMaxSegments" by auto
    have rec: "segment_loop (drop (?slash + 1) rest) (out @ key_of [?seg]) (n + 1) = Inr (key, n')"
      using "1.prems"(1) False ok store_segment_record [OF v(1)]
      by (subst (asm) segment_loop.simps) (simp add: Let_def del: replicate.simps key_of_simps)
    have lastd: "drop (?slash + 1) rest \<noteq> [] \<longrightarrow> last (drop (?slash + 1) rest) \<noteq> 0x2F" using "1.prems"(3) False by auto
    have st: "out @ snd (store_path_segment (replicate (1 + length ?seg) 0) ?seg) = out @ key_of [?seg]"
      using store_segment_record [OF v(1)] by simp
    obtain segs where segs: "list_all valid_segment segs" "key = (out @ key_of [?seg]) @ key_of segs"
      "n' = n + 1 + length segs" "n' \<le> kMaxSegments"
      "if drop (?slash + 1) rest = [] then segs = [] else concat (map (\<lambda>s. 0x2F # s) segs) = 0x2F # drop (?slash + 1) rest"
      using "1.IH" [OF False refl refl ok, unfolded st, OF rec v(2) lastd] by blast
    have "concat (map (\<lambda>s. 0x2F # s) (?seg # segs)) = 0x2F # rest"
    proof (cases "?slash < length rest")
      case True
      have "drop (?slash + 1) rest \<noteq> []"
      proof
        assume "drop (?slash + 1) rest = []"
        then have "rest = ?seg @ [0x2F]" using find_char_hit [OF True] by simp
        then show False using "1.prems"(3) False by (metis last_snoc)
      qed
      then show ?thesis using segs(5) find_char_hit [OF True] by simp
    next
      case no: False
      then show ?thesis using segs(5) find_char_le [where s = rest] by simp
    qed
    then show ?thesis using segs v False by (intro exI [of _ "?seg # segs"]) simp
  qed
qed

lemma strip_slashes_tail:
  "addr \<noteq> [] \<Longrightarrow> \<exists>k. addr = strip_slashes addr @ replicate k 0x2F \<and> strip_slashes addr \<noteq> [] \<and>
     (length (strip_slashes addr) = 1 \<or> last (strip_slashes addr) \<noteq> 0x2F)"
proof (induction addr rule: strip_slashes.induct)
  case (1 addr)
  show ?case
  proof (cases "length addr > 1 \<and> last addr = 0x2F")
    case True
    then have ne: "butlast addr \<noteq> []" by (cases addr) auto
    have s: "strip_slashes addr = strip_slashes (butlast addr)" using True by (subst strip_slashes.simps) simp
    from "1.IH" [OF True ne] obtain k where k: "butlast addr = strip_slashes addr @ replicate k 0x2F"
      "strip_slashes addr \<noteq> []" "length (strip_slashes addr) = 1 \<or> last (strip_slashes addr) \<noteq> 0x2F"
      by (auto simp: s)
    have "addr = butlast addr @ [0x2F]" using True by (metis append_butlast_last_id list.size(3) not_one_less_zero)
    then have "addr = strip_slashes addr @ replicate (Suc k) 0x2F"
      using k(1) by (metis append_assoc replicate_append_same replicate_Suc)
    then show ?thesis using k by blast
  next
    case False
    then have id: "strip_slashes addr = addr" by (subst strip_slashes.simps) (rule if_not_P)
    have "length addr \<noteq> 0" using "1.prems" by simp
    then have "length addr = 1 \<or> length addr > 1" by linarith
    then have "length addr = 1 \<or> last addr \<noteq> 0x2F" using False by blast
    then show ?thesis unfolding id using "1.prems" by (intro exI [of _ 0]) simp
  qed
qed

lemma strip_slashes_id: "addr \<noteq> [] \<Longrightarrow> last addr \<noteq> 0x2F \<or> length addr = 1 \<Longrightarrow> strip_slashes addr = addr"
  by (subst strip_slashes.simps) auto

definition addr_of :: "bytes list \<Rightarrow> bytes" where
  "addr_of segs = concat (map (\<lambda>s. 0x2F # s) segs)"

lemma length_addr_of: "length (addr_of segs) = length (key_of segs)"
  by (induction segs) (simp_all add: addr_of_def)

lemma show_addr_strip:
  assumes "list_all valid_segment segs"
  shows "canonical_addr (show_addr segs) = addr_of segs"
proof (cases "segs = []")
  case True
  then show ?thesis by (simp add: canonical_addr_def show_addr_def addr_of_def strip_slashes_id)
next
  case False
  then have a: "show_addr segs = addr_of segs" by (simp add: show_addr_def addr_of_def)
  obtain ss s where segs: "segs = ss @ [s]" using False by (metis append_butlast_last_id)
  then have v: "s \<noteq> []" "0x2F \<notin> set s" using assms valid_segment_record valid_segment_chars by auto
  then have "last s \<noteq> 0x2F" using last_in_set [of s] by metis
  then have "last (addr_of segs) \<noteq> 0x2F" using segs v by (auto simp: addr_of_def)
  moreover have "addr_of segs \<noteq> []" "length (addr_of segs) \<noteq> 1" using segs v by (auto simp: addr_of_def)
  ultimately show ?thesis by (simp add: canonical_addr_def a strip_slashes_id)
qed

lemma valid_segs_ok: "list_all valid_segment segs \<Longrightarrow> segs_ok segs"
  by (induction segs) (use valid_segment_record in force)+

lemma show_addr_chars: "list_all valid_segment segs \<Longrightarrow> 0x3A \<notin> set (show_addr segs) \<and> show_addr segs \<noteq> [] \<and> hd (show_addr segs) = 0x2F"
  using valid_segment_chars by (cases segs) (auto simp: show_addr_def list_all_iff)

text \<open>What the text is cut into: the address and the field tail.\<close>

lemma show_path_split:
  assumes "list_all valid_segment segs" and "list_all step_ok fss"
  shows "take (find_char 0x3A (show_path segs fss)) (show_path segs fss) = show_addr segs"
    and "drop (find_char 0x3A (show_path segs fss) + 1) (show_path segs fss) = show_fields fss"
  using show_addr_chars [OF assms(1)] by (auto simp: show_path_def find_char_split)

lemma show_fields_ne: "list_all step_ok fss \<Longrightarrow> fss \<noteq> [] \<Longrightarrow> show_fields fss \<noteq> []"
  using show_step_chars by (induction fss rule: show_fields.induct) auto

section \<open>The parse\<close>

definition path_value :: "bytes list \<Rightarrow> field_step_t list \<Rightarrow> path_t \<Rightarrow> bool" where
  "path_value segs fss p \<longleftrightarrow>
     path_t_key p = key_of segs \<and> segment_count p = length segs \<and> path_field p = fss"

lemma parse_into_value:
  assumes "segment_loop (drop 1 addr) [] 0 = Inr (key_of segs, length segs)"
    and "length addr = length (key_of segs)" and "length addr \<le> kMaxPathBytes" and "length segs \<le> kMaxSegments"
    and "p_has_field p \<longleftrightarrow> fss \<noteq> []"
  shows "\<exists>p'. parse_into env addr fss p m = (Inr p', m) \<and> path_value segs fss p' \<and>
     p_block p' = p_block p \<and> p_block_len p' = p_block_len p"
proof -
  have "unat (of_nat (length (key_of segs)) :: 16 word) = length (key_of segs)"
    using assms(2,3) by (intro unat_of_nat_word) simp
  moreover have "unat (of_nat (length segs) :: 8 word) = length segs"
    using assms(4) by (intro unat_of_nat_word) simp
  ultimately show ?thesis
    using assms by (auto simp: parse_into_def path_value_def path_t_key_def segment_count_def path_field_def)
qed

lemma parse_build_value:
  assumes "segment_loop (drop 1 addr) [] 0 = Inr (key_of segs, length segs)"
    and "length addr = length (key_of segs)" and "length addr \<le> kMaxPathBytes" and "length segs \<le> kMaxSegments"
    and "always_grants (pe_src env)"
  shows "\<exists>p m'. parse_build env addr fss n m = (Inr p, m') \<and> path_value segs fss p"
proof -
  let ?p = "path_empty\<lparr>p_has_field := fss \<noteq> []\<rparr>"
  let ?len = "payload_off env ?p + length addr + n"
  note into = parse_into_value [OF assms(1-4), of _ fss env]
  show ?thesis
  proof (cases "?len = 0")
    case True
    then have "parse_build env addr fss n m = parse_into env addr fss ?p m" by (simp add: parse_build_def Let_def)
    then show ?thesis using into [of ?p m] by auto
  next
    case False
    obtain blk m' where "try_alloc (pe_src env) m ?len (pe_alignof_field env) = (Some blk, m')"
      using assms(5) unfolding always_grants_def by (metis option.exhaust prod.collapse)
    then have "parse_build env addr fss n m = parse_into env addr fss (?p\<lparr>p_block := blk, p_block_len := ?len\<rparr>) m'"
      using False by (simp add: parse_build_def Let_def)
    then show ?thesis using into [of "?p\<lparr>p_block := blk, p_block_len := ?len\<rparr>" m'] by auto
  qed
qed

text \<open>
  C31. Printing and parsing are inverse: for every list of valid segments and every field tail
  within the limits, the printed path parses, from a source that serves the block, to exactly
  that key, that segment count and those steps.
\<close>

theorem parse_show_path:
  assumes "list_all valid_segment segs" and "length segs \<le> kMaxSegments" and "length (key_of segs) \<le> kMaxPathBytes"
    and "list_all step_ok fss" and "length fss \<le> kMaxFieldDepth" and "always_grants (pe_src env)"
  shows "\<exists>p m'. parse env (show_path segs fss) m = (Inr p, m') \<and> path_value segs fss p"
proof -
  note split = show_path_split [OF assms(1,4)] and chars = show_addr_chars [OF assms(1)]
    and strip = show_addr_strip [OF assms(1)]
  have seg: "segment_loop (drop 1 (addr_of segs)) [] 0 = Inr (key_of segs, length segs)"
    using segment_loop_show [OF assms(1), of 0 "[]"] assms(2) by (simp add: addr_of_def)
  have len: "length (addr_of segs) \<le> kMaxPathBytes" using assms(3) by (simp add: length_addr_of)
  have fields: "parse_fields (show_fields fss) = Inr (fss, length (concat (map fs_name fss)))"
    using field_loop_show [OF assms(4), of "[]" 0] show_fields_ne [OF assms(4)] assms(5)
    by (cases "fss = []") (auto simp: parse_fields_def)
  have parse: "parse env (show_path segs fss) m = parse_build env (addr_of segs) fss (length (concat (map fs_name fss))) m"
    unfolding parse_def split Let_def strip fields using chars len by simp
  then show ?thesis using parse_build_value [OF seg length_addr_of len assms(2,6)] by simp
qed

lemma example_step_ok:
  "valid_segment [0x61]" "step_ok \<lparr>fs_name = [0x62], fs_indexed = True, fs_append = False, fs_wildcard = False, fs_index = 7\<rparr>"
  by (simp_all add: step_ok_def valid_segment_def reserved_chars_def)

theorem parse_show_path_witness:
  "\<exists>p. fst (parse \<lparr>pe_src = \<lparr>try_alloc = (\<lambda>m n a. (Some 16, m)), release = (\<lambda>m p n a. m)\<rparr>, pe_sizeof_field = 8, pe_alignof_field = 8\<rparr>
       (show_path [[0x61]] [\<lparr>fs_name = [0x62], fs_indexed = True, fs_append = False, fs_wildcard = False, fs_index = 7\<rparr>]) ()) = Inr p \<and>
     path_t_key p = [1, 0x61]"
proof -
  let ?env = "\<lparr>pe_src = \<lparr>try_alloc = (\<lambda>m n a. (Some 16, m)), release = (\<lambda>m p n a. m)\<rparr>, pe_sizeof_field = 8, pe_alignof_field = 8\<rparr>
    :: unit path_env"
  have "always_grants (pe_src ?env)" by (simp add: always_grants_def)
  then show ?thesis
    using parse_show_path [of "[[0x61]]" "[\<lparr>fs_name = [0x62], fs_indexed = True, fs_append = False, fs_wildcard = False, fs_index = 7\<rparr>]" ?env "()"]
      example_step_ok by (auto simp: path_value_def)
qed

lemma canonical_addr_sound:
  assumes "addr \<noteq> []" and "hd addr = 0x2F" and "segment_loop (drop 1 (canonical_addr addr)) [] 0 = Inr (key, n)"
  shows "\<exists>segs k. list_all valid_segment segs \<and> addr = show_addr segs @ replicate k 0x2F \<and>
     key = key_of segs \<and> n = length segs \<and> n \<le> kMaxSegments \<and> canonical_addr addr = addr_of segs"
proof -
  let ?s = "strip_slashes addr"
  obtain k where k: "addr = ?s @ replicate k 0x2F" "?s \<noteq> []" "length ?s = 1 \<or> last ?s \<noteq> 0x2F"
    using strip_slashes_tail [OF assms(1)] by blast
  have h: "hd ?s = 0x2F" using k(1,2) assms(2) by (metis hd_append)
  then have cons: "?s = 0x2F # tl ?s" using k(2) by (metis list.collapse)
  show ?thesis
  proof (cases "length ?s = 1")
    case True
    then have one: "?s = [0x2F]" using cons by (cases "tl ?s") auto
    have "canonical_addr addr = []" using True by (simp add: canonical_addr_def)
    moreover from this have "key = [] \<and> n = 0" using assms(3) by (subst (asm) segment_loop.simps) simp
    ultimately show ?thesis using k(1) one
      by (intro exI [of _ "[]"] exI [of _ k]) (simp add: show_addr_def addr_of_def)
  next
    case False
    then have c: "canonical_addr addr = ?s" by (simp add: canonical_addr_def)
    have rest: "drop 1 ?s \<noteq> []" using False cons by (cases ?s) auto
    then have last: "last (drop 1 ?s) \<noteq> 0x2F" using k(3) False cons by (metis One_nat_def drop_0 drop_Suc last_ConsR)
    obtain segs where segs: "list_all valid_segment segs" "key = key_of segs" "n = length segs" "n \<le> kMaxSegments"
      "concat (map (\<lambda>s. 0x2F # s) segs) = 0x2F # drop 1 ?s"
      using segment_loop_sound [OF assms(3) [unfolded c]] rest last by auto
    then have a: "addr_of segs = ?s" using cons by (simp add: addr_of_def drop_Suc)
    moreover have "segs \<noteq> []" using segs(5) by auto
    ultimately show ?thesis
      using segs k(1) c by (intro exI [of _ segs] exI [of _ k]) (simp add: show_addr_def addr_of_def)
  qed
qed

lemma parse_into_sound:
  assumes "parse_into env addr field p m = (Inr p', m')"
  shows "m' = m \<and> p_block p' = p_block p \<and> p_block_len p' = p_block_len p \<and> p_has_field p' = p_has_field p \<and>
     (\<exists>key n. segment_loop (drop 1 addr) [] 0 = Inr (key, n) \<and> p_segments p' = of_nat n \<and> p_key_len p' = of_nat (length addr) \<and>
       p_payload p' = (if p_has_field p then key @ concat (map fs_name field) else key) \<and>
       p_steps p' = (if p_has_field p then field else []))"
  using assms by (auto simp: parse_into_def split: sum.splits)

lemma parse_build_sound:
  assumes "parse_build env addr field n m = (Inr p, m')"
  shows "\<exists>p0 m0. parse_into env addr field p0 m0 = (Inr p, m') \<and> (p_has_field p0 \<longleftrightarrow> field \<noteq> [])"
  using assms by (auto simp: parse_build_def Let_def split: if_splits prod.splits option.splits intro!: exI)



section \<open>What a path owns\<close>

definition path_block :: "'m path_env \<Rightarrow> path_t \<Rightarrow> block set" where
  "path_block env p = (if p_block p \<noteq> 0 then {(p_block p, p_block_len p, pe_alignof_field env)} else {})"

definition parsed_block :: "'m path_env \<Rightarrow> status_t + path_t \<Rightarrow> block set" where
  "parsed_block env r = (case r of Inl _ \<Rightarrow> {} | Inr p \<Rightarrow> path_block env p)"

definition pk_block :: "nat \<Rightarrow> path_key_t \<Rightarrow> block set" where
  "pk_block ptr k = (if length (pk_bytes k) > kInlineBytes then {(pk_spill k - ptr, ptr + length (pk_bytes k), ptr)} else {})"

context block_source
begin

lemma release_one:
  assumes "inv m (insert (p, n, a) L)" and "(p, n, a) \<notin> L"
  shows "inv (release ops m p n a) L"
  using release_live [OF assms(1), of p n a] assms(2) by simp

lemma path_release_owned:
  assumes "inv m (L \<union> path_block env p)" and "L \<inter> path_block env p = {}" and "pe_src env = ops"
  shows "inv (snd (path_release env p m)) L"
  using assms release_one [of m "p_block p" "p_block_len p" "pe_alignof_field env" L]
  by (auto simp: path_release_def path_block_def split: if_splits)

lemma parse_into_owned:
  assumes "inv m (L \<union> path_block env p)" and "L \<inter> path_block env p = {}" and "pe_src env = ops"
    and "parse_into env addr field p m = (r, m')"
  shows "inv m' (L \<union> parsed_block env r) \<and> L \<inter> parsed_block env r = {}"
proof (cases r)
  case (Inl e)
  then have "m' = snd (path_release env p m)"
    using assms(4) by (auto simp: parse_into_def split: sum.splits prod.splits)
  then show ?thesis using path_release_owned [OF assms(1-3)] Inl by (simp add: parsed_block_def)
next
  case (Inr p')
  then have "m' = m" "path_block env p' = path_block env p"
    using parse_into_sound [of env addr field p m p' m'] assms(4) by (simp_all add: path_block_def)
  then show ?thesis using Inr assms(1,2) by (simp add: parsed_block_def)
qed

lemma parse_owned:
  assumes "inv m L" and "pe_src env = ops" and "pe_alignof_field env = 2 ^ k" and "k \<le> w"
    and "parse env txt m = (r, m')"
  shows "inv m' (L \<union> parsed_block env r) \<and> L \<inter> parsed_block env r = {}"
proof -
  have early: ?thesis if "parse env txt m = (Inl e, m)" for e
    using that assms(1,5) by (auto simp: parsed_block_def)
  have built: ?thesis if b: "parse_build env addr field n m = (r, m')" for addr field n
  proof -
    let ?p = "path_empty\<lparr>p_has_field := field \<noteq> []\<rparr>"
    let ?len = "payload_off env ?p + length addr + n"
    show ?thesis
    proof (cases "?len = 0")
      case True
      then have "parse_into env addr field ?p m = (r, m')" using b by (simp add: parse_build_def Let_def)
      then show ?thesis using parse_into_owned [of m L env ?p] assms(1,2) by (simp add: path_block_def path_empty_def)
    next
      case False
      then have req: "request_ok w ?len (pe_alignof_field env)" using assms(3,4) by (auto simp: request_ok_def)
      obtain a m1 where al: "try_alloc ops m ?len (pe_alignof_field env) = (a, m1)" by fastforce
      show ?thesis
      proof (cases a)
        case None
        then show ?thesis
          using b False al alloc_refuse [OF assms(1) req] assms(2) by (auto simp: parse_build_def Let_def parsed_block_def)
      next
        case (Some blk)
        let ?q = "?p\<lparr>p_block := blk, p_block_len := ?len\<rparr>"
        have g: "inv m1 (insert (blk, ?len, pe_alignof_field env) L)" "(blk, ?len, pe_alignof_field env) \<notin> L" "blk \<noteq> 0"
          using alloc_grant [OF assms(1) req] al Some by simp_all
        have "parse_into env addr field ?q m1 = (r, m')"
          using b False al Some assms(2) by (simp add: parse_build_def Let_def)
        then show ?thesis using parse_into_owned [of m1 L env ?q] g assms(2) by (simp add: path_block_def)
      qed
    qed
  qed
  let ?addr = "take (find_char 0x3A txt) txt" and ?ft = "drop (find_char 0x3A txt + 1) txt"
  show ?thesis
  proof (cases "?addr = [] \<or> hd ?addr \<noteq> 0x2F \<or> length (canonical_addr ?addr) > kMaxPathBytes")
    case True
    then have "parse env txt m = (Inl S_INVALID_PATH, m)" by (auto simp: parse_def Let_def)
    then show ?thesis by (rule early)
  next
    case False
    show ?thesis
    proof (cases "parse_fields ?ft")
      case (Inl e)
      then have "parse env txt m = (Inl e, m)" using False by (simp add: parse_def Let_def)
      then show ?thesis by (rule early)
    next
      case (Inr fn)
      then show ?thesis using built assms(5) False by (cases fn) (simp add: parse_def Let_def)
    qed
  qed
qed

lemma pk_assign_owned:
  assumes "inv m L" and "request_ok w (ptr + length b) ptr" and "pk_assign ops ptr b k m = (ok, k', m')"
  shows "if ok then inv m' (L \<union> pk_block ptr k') \<and> L \<inter> pk_block ptr k' = {} \<and> pk_bytes k' = b
         else inv m' L \<and> pk_bytes k' = pk_bytes k"
proof (cases "length b > kInlineBytes")
  case False
  then show ?thesis using assms by (auto simp: pk_assign_def pk_block_def Let_def)
next
  case True
  obtain a m1 where al: "try_alloc ops m (ptr + length b) ptr = (a, m1)" by fastforce
  show ?thesis
  proof (cases a)
    case None
    then show ?thesis using assms True al alloc_refuse [OF assms(1,2)] by (auto simp: pk_assign_def Let_def)
  next
    case (Some blk)
    then show ?thesis
      using assms True al alloc_grant [OF assms(1,2)] by (auto simp: pk_assign_def pk_block_def Let_def)
  qed
qed

lemma pk_release_owned:
  assumes "inv m (L \<union> pk_block ptr k)" and "L \<inter> pk_block ptr k = {}"
  shows "inv (pk_release ops ptr k m) L"
  using assms release_one [of m "pk_spill k - ptr" "ptr + length (pk_bytes k)" ptr L]
  by (auto simp: pk_release_def pk_block_def split: if_splits)

end

text \<open>
  A parse that is refused, at whatever point, leaves the pool's live blocks as they were;
  an accepted one adds exactly the path's block, and releasing the path returns it.
\<close>

theorem parse_pool_blocks:
  assumes "pool_inv w ptr pal m L" and "pe_src env = pool_source w ptr pal" and "pe_alignof_field env = 2 ^ k" and "k \<le> w"
    and "parse env txt m = (r, m')"
  shows "case r of
       Inl e \<Rightarrow> pool_inv w ptr pal m' L
     | Inr p \<Rightarrow> pool_inv w ptr pal m' (L \<union> path_block env p) \<and> L \<inter> path_block env p = {} \<and>
         pool_inv w ptr pal (snd (path_release env p m')) L"
proof (cases r)
  case (Inl e)
  then show ?thesis using pool_src.parse_owned [OF assms] by (simp add: parsed_block_def)
next
  case (Inr p)
  then have o: "pool_inv w ptr pal m' (L \<union> path_block env p)" "L \<inter> path_block env p = {}"
    using pool_src.parse_owned [OF assms] by (simp_all add: parsed_block_def)
  then show ?thesis using Inr pool_src.path_release_owned [OF o assms(2)] by simp
qed

theorem parse_pool_blocks_witness:
  "pool_inv 32 4 4 (snd (parse \<lparr>pe_src = pool_source 32 4 4, pe_sizeof_field = 8, pe_alignof_field = 4\<rparr> [0x61] (pool_init 64 64 2 (\<lambda>_. 0)))) {}"
proof -
  let ?env = "\<lparr>pe_src = pool_source 32 4 4, pe_sizeof_field = 8, pe_alignof_field = 4\<rparr>"
  let ?m = "pool_init 64 64 2 (\<lambda>_. 0)"
  have i: "pool_inv 32 4 4 ?m {}" by (rule pool_init_inv [of 4 4 2]) simp_all
  have p: "parse ?env [0x61] ?m = (Inl S_INVALID_PATH, ?m)" by (simp add: parse_def)
  have "case (Inl S_INVALID_PATH :: status_t + path_t) of
       Inl e \<Rightarrow> pool_inv 32 4 4 ?m {}
     | Inr p \<Rightarrow> pool_inv 32 4 4 ?m ({} \<union> path_block ?env p) \<and> {} \<inter> path_block ?env p = {} \<and>
         pool_inv 32 4 4 (snd (path_release ?env p ?m)) {}"
    by (rule parse_pool_blocks [OF i _ _ _ p, of 2]) simp_all
  then show ?thesis by (simp add: p)
qed

end
