(* ===== verification/Placement.thy ===== *)
theory Placement
  imports Mem_Source Segment
begin

text \<open>
  Where a segment lies in the block drawn for it, and which size class serves that block:
  \<^verbatim>\<open>placement.hpp\<close> and the class ladder of \<^verbatim>\<open>config.hpp\<close>. A \<^verbatim>\<open>std::size_t\<close> is a machine word
  whose width is the type variable, so every mask and every wrap-around is the code's. The three
  ways a build finds a class (arithmetic on the ladder, a one-byte slot table, a search) are shown
  to be the same function, and a segment block is shown to be released as it was drawn.
\<close>

section \<open>Rounding and the layout of a block\<close>

definition pad_to :: "'a::len word \<Rightarrow> 'a word \<Rightarrow> 'a word" where
  "pad_to n align = (n + align - 1) AND NOT (align - 1)"

text \<open>The sizes and alignments the compiler gives \<^verbatim>\<open>segment_t\<close> and a pointer.\<close>

record 'sz abi_t =
  sizeof_segment :: 'sz
  alignof_segment :: 'sz
  sizeof_ptr :: 'sz
  alignof_ptr :: 'sz

definition segment_block_align :: "'a::len word abi_t \<Rightarrow> 'a word \<Rightarrow> 'a word" where
  "segment_block_align abi align = (if align < alignof_segment abi then alignof_segment abi else align)"

definition segment_header_bytes :: "'a::len word abi_t \<Rightarrow> 'a word \<Rightarrow> 'a word" where
  "segment_header_bytes abi align = pad_to (sizeof_segment abi) (segment_block_align abi align)"

definition segment_block_bytes :: "'a::len word abi_t \<Rightarrow> 'a word \<Rightarrow> 'a word \<Rightarrow> 'a word" where
  "segment_block_bytes abi sz align = segment_header_bytes abi align + sz"

definition segment_slot_bytes :: "'a::len word abi_t \<Rightarrow> 'a word \<Rightarrow> 'a word \<Rightarrow> 'a word" where
  "segment_slot_bytes abi payload align = pad_to (segment_block_bytes abi payload align) (segment_block_align abi align)"

text \<open>A segment as it is placed: its own address and the span of its payload.\<close>

record 'sz placed_t =
  pl_at :: addr
  pl_payload :: addr
  pl_size :: 'sz

definition place_segment :: "'a::len word abi_t \<Rightarrow> addr \<Rightarrow> 'a word \<Rightarrow> 'a word \<Rightarrow> 'a word placed_t" where
  "place_segment abi block sz align =
     \<lparr>pl_at = block, pl_payload = (if sz \<noteq> 0 then block + unat (segment_header_bytes abi align) else 0), pl_size = sz\<rparr>"

definition inline_segment_offset :: "'a::len word abi_t \<Rightarrow> 'a word \<Rightarrow> 'a word" where
  "inline_segment_offset abi prefix = pad_to prefix (alignof_segment abi)"

definition inline_block_bytes :: "'a::len word abi_t \<Rightarrow> 'a word \<Rightarrow> 'a word \<Rightarrow> 'a word" where
  "inline_block_bytes abi prefix len = inline_segment_offset abi prefix + sizeof_segment abi + len"

definition place_inline :: "'a::len word abi_t \<Rightarrow> addr \<Rightarrow> 'a word \<Rightarrow> 'a word \<Rightarrow> 'a word placed_t" where
  "place_inline abi block prefix len =
     (let at = block + unat (inline_segment_offset abi prefix)
      in \<lparr>pl_at = at, pl_payload = at + unat (sizeof_segment abi), pl_size = len\<rparr>)"

definition inline_block_of :: "'a::len word abi_t \<Rightarrow> 'a word placed_t \<Rightarrow> 'a word \<Rightarrow> addr" where
  "inline_block_of abi seg prefix = pl_at seg - unat (inline_segment_offset abi prefix)"

definition alloc_in_block ::
  "'a::len word abi_t \<Rightarrow> 'm source_ops \<Rightarrow> 'm \<Rightarrow> 'a word \<Rightarrow> 'a word \<Rightarrow> 'a word placed_t option \<times> 'm" where
  "alloc_in_block abi ops m sz align =
     (case try_alloc ops m (unat (segment_block_bytes abi sz align)) (unat (segment_block_align abi align)) of
        (Some block, m') \<Rightarrow> (Some (place_segment abi block sz align), m')
      | (None, m') \<Rightarrow> (None, m'))"

definition destroy_in_block ::
  "'a::len word abi_t \<Rightarrow> 'm source_ops \<Rightarrow> 'm \<Rightarrow> 'a word placed_t \<Rightarrow> 'a word \<Rightarrow> 'm" where
  "destroy_in_block abi ops m seg align =
     release ops m (pl_at seg) (unat (segment_block_bytes abi (pl_size seg) align)) (unat (segment_block_align abi align))"

section \<open>The class ladder\<close>

text \<open>
  The template parameters of \<^verbatim>\<open>size_class_ladder_t\<close>, and its table. A base of zero would be a
  constant expression that never ends: no such ladder compiles.
\<close>

record ladder_t =
  ld_step :: nat
  ld_per :: nat
  ld_top :: nat
  ld_header :: nat

function ladder_doublings :: "nat \<Rightarrow> nat \<Rightarrow> nat \<Rightarrow> nat list" where
  "ladder_doublings per tp lo =
     (if lo = 0 \<or> tp \<le> lo then []
      else map (\<lambda>k. lo + k * (lo div per)) [1..<per + 1] @ ladder_doublings per tp (lo * 2))"
  by pat_completeness auto
termination by (relation "measure (\<lambda>(per, tp, lo). tp - lo)") auto

declare ladder_doublings.simps [simp del]

definition kTable :: "ladder_t \<Rightarrow> nat list" where
  "kTable ld =
     map (\<lambda>k. k * ld_step ld) [1..<ld_per ld + 1]
       @ ladder_doublings (ld_per ld) (ld_top ld) (ld_step ld * ld_per ld)
       @ (if ld_header ld \<noteq> 0 then [ld_top ld + ld_header ld] else [])"

text \<open>\<^verbatim>\<open>std::countl_zero\<close>: the zero bits above the highest set bit.\<close>

definition countl_zero :: "'a::len word \<Rightarrow> nat" where
  "countl_zero x = length (takeWhile (\<lambda>i. \<not> bit x i) (rev [0..<LENGTH('a)]))"

definition pick :: "bool \<Rightarrow> 'a::len word \<Rightarrow> 'a word \<Rightarrow> 'a word" where
  "pick c a b = b XOR ((a XOR b) AND (0 - of_bool c))"

definition ladder_ceiling :: "ladder_t \<Rightarrow> 'a::len word \<Rightarrow> 'a word" where
  "ladder_ceiling ld bytes =
     (let kBase = of_nat (ld_step ld * ld_per ld);
          stp = of_nat (ld_step ld);
          small = ((if stp < bytes then bytes else stp) + stp - 1) AND NOT (stp - 1);
          x = (if kBase < bytes then bytes else kBase + 1) - 1;
          lo = push_bit (LENGTH('a) - 1 - countl_zero (x OR 1)) 1;
          step = lo div of_nat (ld_per ld);
          geometric = (bytes + step - 1) AND NOT (step - 1);
          past = (if ld_header ld \<noteq> 0 \<and> bytes \<le> of_nat (ld_top ld + ld_header ld)
                  then of_nat (ld_top ld + ld_header ld) else bytes)
      in pick (bytes \<le> kBase) small (pick (bytes \<le> of_nat (ld_top ld)) geometric past))"

definition default_ladder :: ladder_t where
  "default_ladder = \<lparr>ld_step = 16, ld_per = 8, ld_top = 65536, ld_header = 48\<rparr>"

section \<open>The slot table of an overridden class table\<close>

definition kClassGrain :: nat where
  "kClassGrain = 16"

definition kSlots :: "nat list \<Rightarrow> nat" where
  "kSlots rows = last rows div kClassGrain + 2"

function slot_advance :: "nat list \<Rightarrow> nat \<Rightarrow> nat \<Rightarrow> nat" where
  "slot_advance rows lim r = (if r < length rows \<and> rows ! r < lim then slot_advance rows lim (r + 1) else r)"
  by pat_completeness auto
termination by (relation "measure (\<lambda>(rows, lim, r). length rows - r)") auto

declare slot_advance.simps [simp del]

fun slot_fill :: "nat list \<Rightarrow> nat \<Rightarrow> nat list \<Rightarrow> byte list" where
  "slot_fill rows r [] = []"
| "slot_fill rows r (q # qs) =
     (let r' = slot_advance rows (q * kClassGrain) r in of_nat r' # slot_fill rows r' qs)"

definition kSlot :: "nat list \<Rightarrow> byte list" where
  "kSlot rows = slot_fill rows 0 [0..<kSlots rows - 1] @ [of_nat (length rows)]"

definition class_lookup_ceiling :: "nat list \<Rightarrow> nat \<Rightarrow> nat" where
  "class_lookup_ceiling rows bytes =
     (let clamped = min bytes ((kSlots rows - 1) * kClassGrain)
      in max ((rows @ [0]) ! unat (kSlot rows ! ((clamped + kClassGrain - 1) div kClassGrain))) bytes)"

section \<open>The class of a block\<close>

definition size_classes_valid :: "nat list \<Rightarrow> bool" where
  "size_classes_valid classes \<longleftrightarrow>
     classes \<noteq> [] \<and> (\<forall>i \<in> set [1..<length classes]. \<not> classes ! i \<le> classes ! (i - 1))"

text \<open>\<^verbatim>\<open>std::lower_bound\<close> on an ascending table: the first row that is not below the request.\<close>

definition class_search :: "nat list \<Rightarrow> nat \<Rightarrow> nat" where
  "class_search rows bytes = (case find (\<lambda>r. bytes \<le> r) rows of None \<Rightarrow> bytes | Some r \<Rightarrow> r)"

record root_cfg_t =
  kSlabPool :: bool
  kHeapRoot :: bool
  kSizeClasses :: "nat list"

definition kDefaultLadder :: "root_cfg_t \<Rightarrow> bool" where
  "kDefaultLadder cfg \<longleftrightarrow> kSizeClasses cfg = kTable default_ladder"

definition class_ceiling :: "root_cfg_t \<Rightarrow> 'a::len word \<Rightarrow> 'a word" where
  "class_ceiling cfg bytes =
     (if kSlabPool cfg \<and> kDefaultLadder cfg then ladder_ceiling default_ladder bytes
      else if kSlabPool cfg then of_nat (class_lookup_ceiling (kSizeClasses cfg) (unat bytes))
      else of_nat (class_search (kSizeClasses cfg) (unat bytes)))"

definition share_fits :: "root_cfg_t \<Rightarrow> 'a::len word \<Rightarrow> 'a word \<Rightarrow> bool" where
  "share_fits cfg held_block copy_block \<longleftrightarrow>
     (if kSlabPool cfg then held_block \<noteq> - 1 \<and> held_block \<le> class_ceiling cfg copy_block
      else held_block \<noteq> - 1)"

definition kRxLoanBytes :: "'a::len word abi_t \<Rightarrow> 'a word" where
  "kRxLoanBytes abi = (if 8 \<le> sizeof_ptr abi then 48 else 32)"

definition rx_loan_fits :: "'a::len word abi_t \<Rightarrow> 'a word \<Rightarrow> 'a word \<Rightarrow> 'a word \<Rightarrow> bool" where
  "rx_loan_fits abi len cap align \<longleftrightarrow>
     kRxLoanBytes abi \<le> cap \<and> len \<le> cap - kRxLoanBytes abi \<and> alignof_ptr abi \<le> align"

definition rx_loan_free :: "root_cfg_t \<Rightarrow> 'a::len word abi_t \<Rightarrow> 'a word \<Rightarrow> 'a word \<Rightarrow> bool" where
  "rx_loan_free cfg abi len align \<longleftrightarrow>
     \<not> kHeapRoot cfg \<and>
     segment_block_bytes abi (len + kRxLoanBytes abi) align \<le> class_ceiling cfg (segment_block_bytes abi len align)"


section \<open>Rounding on words\<close>

definition round_up :: "nat \<Rightarrow> nat \<Rightarrow> nat" where
  "round_up n m = (n + (m - 1)) div m * m"

lemma round_up_ge: "0 < m \<Longrightarrow> n \<le> round_up n m"
  using div_mult_mod_eq [of "n + (m - 1)" m] mod_less_divisor [of m "n + (m - 1)"] unfolding round_up_def by linarith

lemma round_up_less: "0 < m \<Longrightarrow> round_up n m < n + m"
  unfolding round_up_def using div_times_less_eq_dividend [of "n + (m - 1)" m] by linarith

lemma round_up_dvd: "m dvd round_up n m"
  by (simp add: round_up_def)

lemma round_up_unique: "0 < m \<Longrightarrow> m dvd r \<Longrightarrow> n \<le> r \<Longrightarrow> r < n + m \<Longrightarrow> r = round_up n m"
proof -
  assume m: "0 < m" and r: "m dvd r" "n \<le> r" "r < n + m"
  obtain q where q: "r = m * q" using r(1) by blast
  obtain p where p: "round_up n m = m * p" using round_up_dvd by blast
  have "m * q < m * (p + 1)" "m * p < m * (q + 1)"
    using r q p round_up_ge [OF m, of n] round_up_less [OF m, of n] by (simp_all add: algebra_simps)
  then have "q < p + 1" "p < q + 1" by (simp_all only: mult_less_cancel1)
  then show ?thesis using q p by simp
qed

lemma and_not_mask_unat: "unat (x AND NOT (mask k) :: 'a::len word) = unat x div 2 ^ k * 2 ^ k"
proof -
  have "x = (x AND mask k) + (x AND NOT (mask k))"
  proof -
    have "(x AND mask k) + (x AND NOT (mask k)) = (x AND mask k) OR (x AND NOT (mask k))"
      by (rule disjunctive_add) (simp add: bit_simps)
    also have "\<dots> = x" by (rule bit_eqI) (auto simp: bit_simps)
    finally show ?thesis by simp
  qed
  then have e: "x AND NOT (mask k) = x - take_bit k x" by (metis add_diff_cancel_left' take_bit_eq_mask)
  have t: "unat (take_bit k x) = unat x mod 2 ^ k" by (simp only: unsigned_take_bit_eq) (simp add: take_bit_eq_mod)
  have "take_bit k x \<le> x" unfolding word_le_nat_alt t by simp
  then have "unat (x - take_bit k x) = unat x - unat x mod 2 ^ k" by (simp add: unat_sub t)
  then show ?thesis unfolding e by (simp add: minus_mod_eq_div_mult)
qed

lemma unat_exp: "k < LENGTH('a) \<Longrightarrow> unat (2 ^ k :: 'a::len word) = 2 ^ k"
  using unat_of_nat_word [of "2 ^ k", where 'a = 'a] by simp

lemma round_mask_unat:
  assumes "unat n + (2 ^ k - 1) < 2 ^ LENGTH('a)" and "k < LENGTH('a)"
  shows "unat ((n + 2 ^ k - 1) AND NOT (2 ^ k - 1) :: 'a::len word) = round_up (unat n) (2 ^ k)"
proof -
  have m: "(2 ^ k - 1 :: 'a word) = mask k" by (simp add: mask_eq_exp_minus_1)
  have u: "unat (mask k :: 'a word) = 2 ^ k - 1"
    using assms(2) by (simp add: m [symmetric] unat_sub word_le_nat_alt unat_exp)
  have "unat (n + mask k :: 'a word) = unat n + (2 ^ k - 1)"
    using assms(1) by (subst unat_add_lem [THEN iffD1]) (simp_all add: u)
  moreover have "n + 2 ^ k - 1 = n + mask k" by (simp add: m [symmetric])
  ultimately show ?thesis by (simp only: m and_not_mask_unat round_up_def)
qed

lemma pad_to_unat:
  assumes "unat n + (2 ^ k - 1) < 2 ^ LENGTH('a)" and "k < LENGTH('a)"
  shows "unat (pad_to n (2 ^ k) :: 'a::len word) = round_up (unat n) (2 ^ k)"
  unfolding pad_to_def by (rule round_mask_unat [OF assms])

lemma pick_if: "pick c a b = (if c then a else (b :: 'a::len word))"
  by (cases c) (simp_all add: pick_def xor.left_commute [of b a b])

section \<open>The highest set bit\<close>

lemma countl_zero_bits:
  fixes x :: "'a::len word"
  assumes "x \<noteq> 0"
  shows "countl_zero x < LENGTH('a)" and "bit x (LENGTH('a) - 1 - countl_zero x)"
    and "LENGTH('a) - 1 - countl_zero x < i \<Longrightarrow> \<not> bit x i"
proof -
  define xs where "xs = rev [0..<LENGTH('a)]"
  define P where "P = (\<lambda>i. \<not> bit x i)"
  have c: "countl_zero x = length (takeWhile P xs)" by (simp add: countl_zero_def xs_def P_def)
  have at: "xs ! j = LENGTH('a) - 1 - j" if "j < LENGTH('a)" for j using that by (simp add: xs_def rev_nth)
  obtain b where b: "bit x b" using assms bit_word_eqI [of x 0] by auto
  then have "b \<in> set xs" "\<not> P b" by (simp_all add: xs_def P_def bit_imp_le_length)
  then have "takeWhile P xs \<noteq> xs" by (metis set_takeWhileD)
  then have less: "length (takeWhile P xs) < length xs"
    by (metis length_takeWhile_le order_le_less takeWhile_eq_take take_all_iff)
  then show one: "countl_zero x < LENGTH('a)" by (simp add: c xs_def)
  from nth_length_takeWhile [OF less] show "bit x (LENGTH('a) - 1 - countl_zero x)"
    using at [OF one] by (simp add: c P_def)
  assume i: "LENGTH('a) - 1 - countl_zero x < i"
  show "\<not> bit x i"
  proof
    assume bi: "bit x i"
    then have il: "i < LENGTH('a)" by (rule bit_imp_le_length)
    define j where "j = LENGTH('a) - 1 - i"
    have "j < length (takeWhile P xs)" using i il by (simp add: j_def c)
    then have "P (xs ! j)" by (metis nth_mem set_takeWhileD takeWhile_nth)
    moreover have "xs ! j = i" using il by (subst at) (simp_all add: j_def)
    ultimately show False using bi by (simp add: P_def)
  qed
qed

lemma countl_zero_bounds:
  fixes x :: "'a::len word"
  assumes "x \<noteq> 0"
  defines "h \<equiv> LENGTH('a) - 1 - countl_zero x"
  shows "2 ^ h \<le> unat x" and "unat x < 2 ^ (h + 1)"
proof -
  note h = countl_zero_bits [OF assms(1), folded h_def]
  have "bit (unat x) h" using h(2) by (simp add: bit_unsigned_iff bit_imp_le_length)
  then have "odd (unat x div 2 ^ h)" by (simp add: bit_iff_odd)
  then have "0 < unat x div 2 ^ h" by (metis dvd_0_right gr0I)
  then show "2 ^ h \<le> unat x" by (simp add: div_greater_zero_iff)
  have "take_bit (h + 1) x = x" by (rule bit_word_eqI) (use h(3) in \<open>auto simp: bit_simps less_Suc_eq_le not_less [symmetric]\<close>)
  then have "unat x = unat x mod 2 ^ (h + 1)" by (metis take_bit_eq_mod unsigned_take_bit_eq)
  then show "unat x < 2 ^ (h + 1)" using mod_less_divisor [of "2 ^ (h + 1)" "unat x"] by simp
qed

lemma countl_zero_unique:
  fixes x :: "'a::len word"
  assumes "2 ^ j \<le> unat x" and "unat x < 2 ^ (j + 1)"
  shows "LENGTH('a) - 1 - countl_zero x = j"
proof -
  define h where "h = LENGTH('a) - 1 - countl_zero x"
  have "x \<noteq> 0" using assms(1) by (metis not_one_le_zero one_le_numeral one_le_power order_trans unsigned_0)
  note b = countl_zero_bounds [OF this, folded h_def]
  have "(2 :: nat) ^ h < 2 ^ (j + 1)" "(2 :: nat) ^ j < 2 ^ (h + 1)" using b assms by linarith+
  then have "h < j + 1" "j < h + 1" by (simp_all only: power_strict_increasing_iff one_less_numeral_iff semiring_norm)
  then show ?thesis by (simp add: h_def)
qed

section \<open>Searching the ladder\<close>

lemma find_progression:
  assumes "0 < st" and "st dvd a" and "n \<le> a + m * st" and "0 < m"
  shows "find (\<lambda>r. n \<le> r) (map (\<lambda>k. a + k * st) [1..<m + 1]) = Some (round_up (max n (a + st)) st)"
proof -
  define v where "v = round_up (max n (a + st)) st"
  note v = round_up_ge [OF assms(1), of "max n (a + st)", folded v_def] round_up_dvd [of st "max n (a + st)", folded v_def]
    round_up_less [OF assms(1), of "max n (a + st)", folded v_def]
  have "st dvd v - a" using v(2) assms(2) by (rule dvd_diff_nat)
  then obtain k where k: "v - a = k * st" by (metis dvd_def mult.commute)
  have va: "v = a + k * st" using k v(1) by linarith
  have k1: "1 \<le> k" using v(1) va assms(1) by (cases k) auto
  have km: "k \<le> m"
  proof -
    have "k * st < (m + 1) * st" using va v(3) assms(3,4) by (cases m) (auto simp: max_def split: if_splits)
    then have "k < m + 1" by (simp only: mult_less_cancel2)
    then show ?thesis by simp
  qed
  have less: "\<not> n \<le> a + j * st" if "j < k" "1 \<le> j" for j
  proof -
    have "(j + 1) * st \<le> k * st" using that(1) by (intro mult_le_mono1) simp
    moreover have "st \<le> j * st" using that(2) by simp
    moreover have "(j + 1) * st = j * st + st" by simp
    ultimately show ?thesis using v(3) va by linarith
  qed
  have "\<exists>i < m. n \<le> a + Suc i * st \<and> v = a + Suc i * st \<and> (\<forall>j < i. \<not> n \<le> a + Suc j * st)"
    using va v(1) k1 km by (intro exI [of _ "k - 1"] conjI allI impI less) auto
  then show ?thesis by (fold v_def) (auto simp: find_Some_iff nth_append simp del: upt_Suc)
qed

lemma round_up_max: "0 < st \<Longrightarrow> st dvd a \<Longrightarrow> a < n \<Longrightarrow> round_up (max n (a + st)) st = round_up n st"
proof -
  assume st: "0 < st" and a: "st dvd a" "a < n"
  show ?thesis
  proof (cases "n \<le> a + st")
    case True
    have "a + st = round_up n st" by (rule round_up_unique) (use st a True in auto)
    moreover have "a + st = round_up (a + st) st" by (rule round_up_unique) (use st a in auto)
    ultimately show ?thesis using True by (simp add: max_def)
  qed (simp add: max_def)
qed

lemma ladder_doublings_le: "r \<in> set (ladder_doublings per tp lo) \<Longrightarrow> 0 < per \<Longrightarrow> lo * 2 ^ d = tp \<Longrightarrow> r \<le> tp"
proof (induction per tp lo arbitrary: d rule: ladder_doublings.induct)
  case (1 per tp lo)
  show ?case
  proof (cases "lo = 0 \<or> tp \<le> lo")
    case True
    then show ?thesis using "1.prems" by (subst (asm) ladder_doublings.simps) simp
  next
    case False
    then obtain e where e: "d = Suc e" using "1.prems"(3) by (cases d) simp_all
    then have tp: "lo * 2 * 2 ^ e = tp" using "1.prems"(3) by simp
    have "lo * 2 * 1 \<le> lo * 2 * 2 ^ e" by (rule mult_le_mono2) simp
    then have two: "lo * 2 \<le> tp" using tp by simp
    have "r \<in> set (map (\<lambda>k. lo + k * (lo div per)) [1..<per + 1] @ ladder_doublings per tp (lo * 2))"
      using "1.prems"(1) by (subst (asm) ladder_doublings.simps) (simp only: False if_False)
    then have "r \<in> (\<lambda>k. lo + k * (lo div per)) ` {1..<per + 1} \<or> r \<in> set (ladder_doublings per tp (lo * 2))"
      by (simp only: set_append set_map set_upt Un_iff)
    then show ?thesis
    proof
      assume "r \<in> (\<lambda>k. lo + k * (lo div per)) ` {1..<per + 1}"
      then obtain k where k: "k \<in> {1..<per + 1}" "r = lo + k * (lo div per)" by (rule imageE) blast
      have "k * (lo div per) \<le> per * (lo div per)" using k(1) by (intro mult_le_mono1) simp
      also have "\<dots> \<le> lo" by simp
      finally show ?thesis using k(2) two by simp
    next
      assume "r \<in> set (ladder_doublings per tp (lo * 2))"
      then show ?thesis by (rule "1.IH" [OF False _ "1.prems"(2) tp])
    qed
  qed
qed

lemma find_none_above:
  assumes "\<And>r. r \<in> set rows \<Longrightarrow> r < (n :: nat)"
  shows "find (\<lambda>r. n \<le> r) rows = None"
  unfolding find_None_iff using assms not_le by blast

lemma find_append: "find P (xs @ ys) = (case find P xs of None \<Rightarrow> find P ys | Some x \<Rightarrow> Some x)"
  by (induction xs) simp_all

lemma find_ladder_step:
  assumes "0 < lo" and "lo < tp"
  shows "find P (ladder_doublings per tp lo) =
    (case find P (map (\<lambda>k. lo + k * (lo div per)) [1..<per + 1]) of
       None \<Rightarrow> find P (ladder_doublings per tp (lo * 2)) | Some r \<Rightarrow> Some r)"
  using assms by (subst ladder_doublings.simps) (simp only: find_append if_not_P de_Morgan_disj not_le neq0_conv simp_thms)

lemma find_ladder_doublings:
  assumes "2 ^ i < n" and "n \<le> 2 ^ (i + 1)" and "j \<le> i" and "i < t" and "p \<le> j"
  shows "find (\<lambda>r. n \<le> r) (ladder_doublings (2 ^ p) (2 ^ t) (2 ^ j)) = Some (round_up n (2 ^ (i - p)))"
  using assms(3,5)
proof (induction "i - j" arbitrary: j)
  case (Suc k)
  have row: "r < n" if "r \<in> set (map (\<lambda>k. 2 ^ j + k * (2 ^ j div 2 ^ p)) [1..<2 ^ p + 1])" for r :: nat
  proof -
    have "r \<in> (\<lambda>k. 2 ^ j + k * (2 ^ j div 2 ^ p)) ` {1..<2 ^ p + 1}" using that by (simp only: set_map set_upt)
    then obtain k where "k \<in> {1..<2 ^ p + 1}" "r = 2 ^ j + k * (2 ^ j div 2 ^ p)" by (rule imageE) blast
    then have "r \<le> 2 ^ j + 2 ^ p * (2 ^ j div 2 ^ p)" by simp
    also have "\<dots> \<le> 2 * 2 ^ j" by simp
    also have "\<dots> \<le> 2 ^ i" using Suc.hyps(2) power_increasing [of "Suc j" i "2 :: nat"] by simp
    finally show ?thesis using assms(1) by simp
  qed
  have lo: "0 < (2 :: nat) ^ j" "(2 :: nat) ^ j < 2 ^ t" using Suc.hyps(2) assms(4) by simp_all
  have ih: "find (\<lambda>r. n \<le> r) (ladder_doublings (2 ^ p) (2 ^ t) (2 ^ j * 2)) = Some (round_up n (2 ^ (i - p)))"
    using Suc.hyps(1) [of "Suc j"] Suc.hyps(2) Suc.prems by (simp add: mult.commute)
  have none: "find (\<lambda>r. n \<le> r) (map (\<lambda>k. 2 ^ j + k * (2 ^ j div 2 ^ p)) [1..<2 ^ p + 1]) = None"
    by (rule find_none_above, rule row)
  show ?case unfolding find_ladder_step [OF lo] none ih by simp
next
  case 0
  then have j: "j = i" by simp
  define st where "st = (2 :: nat) ^ (i - p)"
  have st: "2 ^ i div 2 ^ p = st" "2 ^ p * st = 2 ^ i" "0 < st"
    using 0 j by (simp_all add: st_def power_add [symmetric]) (simp add: power_diff)
  then have dvd: "st dvd 2 ^ i" by (metis dvd_triv_right)
  have "find (\<lambda>r. n \<le> r) (map (\<lambda>k. 2 ^ i + k * st) [1..<2 ^ p + 1]) = Some (round_up n st)"
    unfolding round_up_max [OF st(3) dvd assms(1), symmetric]
    by (rule find_progression [OF st(3) dvd]) (use assms(2) st(2) in simp_all)
  moreover have lo: "0 < (2 :: nat) ^ i" "(2 :: nat) ^ i < 2 ^ t" using assms(4) by simp_all
  ultimately show ?case unfolding j find_ladder_step [OF lo] st(1) by (simp only: option.case st_def)
qed

section \<open>The arithmetic ceiling is the search\<close>

definition ladder_ok :: "nat \<Rightarrow> ladder_t \<Rightarrow> bool" where
  "ladder_ok w ld \<longleftrightarrow>
     (\<exists>s p d. ld_step ld = 2 ^ s \<and> ld_per ld = 2 ^ p \<and> ld_top ld = 2 ^ (s + p + d)) \<and>
     ld_top ld + ld_header ld < 2 ^ w"

lemma class_search_Some: "find (\<lambda>r. n \<le> r) rows = Some r \<Longrightarrow> class_search rows n = r"
  by (simp add: class_search_def)

lemma search_small:
  assumes "ld_step ld = 2 ^ s" and "ld_per ld = 2 ^ p" and "n \<le> 2 ^ (s + p)"
  shows "class_search (kTable ld) n = round_up (max n (2 ^ s)) (2 ^ s)"
proof (rule class_search_Some)
  have "find (\<lambda>r. n \<le> r) (map (\<lambda>k. 0 + k * 2 ^ s) [1..<2 ^ p + 1]) = Some (round_up (max n (0 + 2 ^ s)) (2 ^ s))"
    by (rule find_progression) (use assms(3) in \<open>simp_all add: power_add mult.commute\<close>)
  then show "find (\<lambda>r. n \<le> r) (kTable ld) = Some (round_up (max n (2 ^ s)) (2 ^ s))"
    by (simp only: kTable_def assms find_append add_0 option.case)
qed

lemma find_small_none:
  assumes "2 ^ (s + p) < n"
  shows "find (\<lambda>r. n \<le> r) (map (\<lambda>k. k * 2 ^ s) [1..<2 ^ p + 1]) = None"
proof (rule find_none_above)
  fix r :: nat
  assume "r \<in> set (map (\<lambda>k. k * 2 ^ s) [1..<2 ^ p + 1])"
  then have "r \<in> (\<lambda>k. k * 2 ^ s) ` {1..<2 ^ p + 1}" by (simp only: set_map set_upt)
  then obtain k where "k \<in> {1..<2 ^ p + 1}" "r = k * 2 ^ s" by (rule imageE) blast
  then have "r \<le> 2 ^ p * 2 ^ s" by simp
  then show "r < n" using assms by (simp add: power_add mult.commute)
qed

lemma search_geometric:
  assumes "ld_step ld = 2 ^ s" and "ld_per ld = 2 ^ p" and "ld_top ld = 2 ^ (s + p + d)"
    and "2 ^ (s + p) < n" and "2 ^ i < n" and "n \<le> 2 ^ (i + 1)" and "s + p \<le> i" and "i < s + p + d"
  shows "class_search (kTable ld) n = round_up n (2 ^ (i - p))"
proof (rule class_search_Some)
  have "find (\<lambda>r. n \<le> r) (ladder_doublings (2 ^ p) (2 ^ (s + p + d)) (2 ^ (s + p))) = Some (round_up n (2 ^ (i - p)))"
    by (rule find_ladder_doublings) (use assms in simp_all)
  then show "find (\<lambda>r. n \<le> r) (kTable ld) = Some (round_up n (2 ^ (i - p)))"
    by (simp only: kTable_def assms find_append find_small_none [OF assms(4)] option.case power_add)
qed

lemma search_past:
  assumes "ld_step ld = 2 ^ s" and "ld_per ld = 2 ^ p" and "ld_top ld = 2 ^ (s + p + d)" and "ld_top ld < n"
  shows "class_search (kTable ld) n = (if ld_header ld \<noteq> 0 \<and> n \<le> ld_top ld + ld_header ld then ld_top ld + ld_header ld else n)"
proof -
  have "(2 :: nat) ^ (s + p) \<le> 2 ^ (s + p + d)" by (rule power_increasing) simp_all
  then have base: "2 ^ (s + p) < n" using assms(3,4) by linarith
  have none: "find (\<lambda>r. n \<le> r) (ladder_doublings (2 ^ p) (2 ^ (s + p + d)) (2 ^ (s + p))) = None"
  proof (rule find_none_above)
    fix r assume "r \<in> set (ladder_doublings (2 ^ p) (2 ^ (s + p + d)) (2 ^ (s + p)))"
    then have "r \<le> 2 ^ (s + p + d)" by (rule ladder_doublings_le [where d = d]) (simp_all add: power_add)
    then show "r < n" using assms(3,4) by linarith
  qed
  have split: "find (\<lambda>r. n \<le> r) (kTable ld) =
      find (\<lambda>r. n \<le> r) (if ld_header ld \<noteq> 0 then [ld_top ld + ld_header ld] else [])"
    by (simp only: kTable_def assms find_append find_small_none [OF base] none [unfolded power_add] option.case power_add)
  show ?thesis unfolding class_search_def split by simp
qed

lemma or_one_bounds:
  assumes "2 ^ j \<le> unat x" and "unat x < 2 ^ (j + 1)"
  shows "2 ^ j \<le> unat (x OR 1 :: 'a::len word)" and "unat (x OR 1 :: 'a::len word) < 2 ^ (j + 1)"
proof -
  have "unat (x OR 1) = unat x OR 1" by (simp add: unsigned_or_eq)
  also have "\<dots> = unat x + of_bool (even (unat x))" by (simp only: or_one_eq)
  finally have u: "unat (x OR 1) = unat x + of_bool (even (unat x))" .
  show "2 ^ j \<le> unat (x OR 1)" using assms(1) unfolding u by simp
  have "even (unat x) \<Longrightarrow> unat x + 1 \<noteq> 2 ^ (j + 1)" by (metis even_plus_one_iff even_power add_gr_0 even_numeral zero_less_one)
  then show "unat (x OR 1) < 2 ^ (j + 1)" using assms(2) unfolding u by (cases "even (unat x)") auto
qed

lemma unat_of_nat_exp: "2 ^ k < (2 :: nat) ^ LENGTH('a) \<Longrightarrow> unat (of_nat (2 ^ k) :: 'a::len word) = 2 ^ k"
  by (rule unat_of_nat_word)

lemma of_nat_exp: "(of_nat (2 ^ k) :: 'a::len word) = 2 ^ k"
  by simp

lemma ceiling_small:
  fixes bytes :: "'a::len word"
  assumes "s + p < LENGTH('a)" and "unat bytes \<le> 2 ^ (s + p)"
  shows "unat (((if 2 ^ s < bytes then bytes else 2 ^ s) + 2 ^ s - 1) AND NOT (2 ^ s - 1) :: 'a word)
    = round_up (max (unat bytes) (2 ^ s)) (2 ^ s)"
proof -
  have s: "s < LENGTH('a)" using assms(1) by simp
  define m where "m = (if 2 ^ s < bytes then bytes else 2 ^ s)"
  have m: "unat m = max (unat bytes) (2 ^ s)"
    using unat_exp [OF s] by (auto simp: m_def max_def word_less_nat_alt)
  have "(2 :: nat) ^ s \<le> 2 ^ (s + p)" by simp
  moreover have "(2 :: nat) ^ (s + p) * 2 \<le> 2 ^ LENGTH('a)"
    using assms(1) power_increasing [of "s + p + 1" "LENGTH('a)" "2 :: nat"] by simp
  moreover have "max (unat bytes) (2 ^ s) \<le> 2 ^ (s + p)" using assms(2) by simp
  ultimately have "unat m + (2 ^ s - 1) < 2 ^ LENGTH('a)"
    using zero_less_power [of "2 :: nat" s] unfolding m by linarith
  from round_mask_unat [OF this s] show ?thesis unfolding m_def [symmetric] m [symmetric] .
qed

lemma ceiling_geometric:
  fixes bytes :: "'a::len word"
  assumes "i + 1 < LENGTH('a)" and "2 ^ i < unat bytes" and "unat bytes \<le> 2 ^ (i + 1)" and "p \<le> i"
  defines "st \<equiv> push_bit (LENGTH('a) - 1 - countl_zero ((bytes - 1) OR 1)) 1 div 2 ^ p"
  shows "unat ((bytes + st - 1) AND NOT (st - 1)) = round_up (unat bytes) (2 ^ (i - p))"
proof -
  have "1 \<le> bytes" using assms(2) by (simp add: word_le_nat_alt)
  then have "unat (bytes - 1) = unat bytes - 1" by (simp add: unat_sub)
  then have "2 ^ i \<le> unat (bytes - 1)" "unat (bytes - 1) < 2 ^ (i + 1)" using assms(2,3) by linarith+
  from countl_zero_unique [OF or_one_bounds [OF this]]
  have st: "st = 2 ^ i div 2 ^ p" by (simp add: st_def push_bit_eq_mult)
  have "unat st = unat (2 ^ (i - p) :: 'a word)"
    using assms(1,4) by (simp add: st unat_div_distrib unat_exp power_diff)
  then have "st = 2 ^ (i - p)" by (simp only: word_unat_eq_iff)
  moreover have "unat bytes + (2 ^ (i - p) - 1) < 2 ^ LENGTH('a)"
  proof -
    have "(2 :: nat) ^ (i - p) \<le> 2 ^ i" by simp
    moreover have "(2 :: nat) ^ (i + 1) * 2 \<le> 2 ^ LENGTH('a)"
      using assms(1) power_increasing [of "i + 2" "LENGTH('a)" "2 :: nat"] by simp
    moreover have "(2 :: nat) ^ i < 2 ^ (i + 1)" by simp
    ultimately show ?thesis using assms(3) zero_less_power [of "2 :: nat" "i - p"] by linarith
  qed
  ultimately show ?thesis using round_mask_unat [of bytes "i - p"] assms(1) by simp
qed

lemma between_powers:
  fixes x :: "'a::len word"
  assumes "2 ^ a < unat x" and "unat x \<le> 2 ^ b"
  obtains i where "2 ^ i < unat x" and "unat x \<le> 2 ^ (i + 1)" and "a \<le> i" and "i < b"
proof -
  have one: "1 \<le> x" using assms(1) by (simp add: word_le_nat_alt)
  then have u: "unat (x - 1) = unat x - 1" by (simp add: unat_sub)
  then have "unat (x - 1) \<noteq> 0" using assms(1) zero_less_power [of "2 :: nat" a] by linarith
  then have "x - 1 \<noteq> 0" by (rule contrapos_nn) simp
  note b = countl_zero_bounds [OF this, unfolded u]
  define i where "i = LENGTH('a) - 1 - countl_zero (x - 1)"
  have i: "2 ^ i < unat x" "unat x \<le> 2 ^ (i + 1)" using b assms(1) unfolding i_def by linarith+
  have "(2 :: nat) ^ a < 2 ^ (i + 1)" "(2 :: nat) ^ i < 2 ^ b" using i assms by linarith+
  then have "a \<le> i" "i < b" by (simp_all only: power_strict_increasing_iff one_less_numeral_iff semiring_norm)
  then show ?thesis using i that by blast
qed

lemma ladder_ceiling_search:
  fixes bytes :: "'a::len word"
  assumes "ladder_ok LENGTH('a) ld"
  shows "unat (ladder_ceiling ld bytes) = class_search (kTable ld) (unat bytes)"
proof -
  obtain s p d where ld: "ld_step ld = 2 ^ s" "ld_per ld = 2 ^ p" "ld_top ld = 2 ^ (s + p + d)"
    and fits: "ld_top ld + ld_header ld < 2 ^ LENGTH('a)"
    using assms by (auto simp: ladder_ok_def)
  have "(2 :: nat) ^ (s + p + d) < 2 ^ LENGTH('a)" using fits ld(3) by linarith
  then have w: "s + p + d < LENGTH('a)" by (simp only: power_strict_increasing_iff one_less_numeral_iff semiring_norm)
  have base: "of_nat (ld_step ld * ld_per ld) = (2 ^ (s + p) :: 'a word)" by (simp add: ld power_add)
  have tp: "of_nat (ld_top ld) = (2 ^ (s + p + d) :: 'a word)" by (simp add: ld)
  have le: "bytes \<le> 2 ^ k \<longleftrightarrow> unat bytes \<le> 2 ^ k" "2 ^ k < bytes \<longleftrightarrow> 2 ^ k < unat bytes" if "k < LENGTH('a)" for k
    using that by (simp_all add: word_le_nat_alt word_less_nat_alt unat_exp)
  note k = le [of "s + p"] le [of "s + p + d"]
  show ?thesis
  proof (cases "unat bytes \<le> 2 ^ (s + p)")
    case True
    then have "unat (ladder_ceiling ld bytes) =
        unat (((if 2 ^ s < bytes then bytes else 2 ^ s) + 2 ^ s - 1) AND NOT (2 ^ s - 1))"
      unfolding ladder_ceiling_def Let_def pick_if base tp using w k(1) True by (simp only: ld of_nat_exp if_True)
    then show ?thesis using ceiling_small [of s p bytes] search_small [OF ld(1,2) True] True w by simp
  next
    case big: False
    show ?thesis
    proof (cases "unat bytes \<le> 2 ^ (s + p + d)")
      case True
      obtain i where i: "2 ^ i < unat bytes" "unat bytes \<le> 2 ^ (i + 1)" "s + p \<le> i" "i < s + p + d"
        by (rule between_powers [of "s + p" bytes "s + p + d"]) (use big True in simp_all)
      define st :: "'a word" where "st = push_bit (LENGTH('a) - 1 - countl_zero ((bytes - 1) OR 1)) 1 div 2 ^ p"
      have above: "(bytes \<le> 2 ^ (s + p)) = False" "(2 ^ (s + p) < bytes) = True" using big k(1,2) w by simp_all
      have upto: "(bytes \<le> 2 ^ (s + p + d)) = True" using True k(3) w by simp
      have "ladder_ceiling ld bytes = (bytes + st - 1) AND NOT (st - 1)"
        unfolding ladder_ceiling_def Let_def pick_if base tp st_def
        by (simp only: ld of_nat_exp above upto if_True if_False)
      then show ?thesis
        using ceiling_geometric [of i bytes p, folded st_def] search_geometric [OF ld _ i] i w big by simp
    next
      case False
      have "unat (of_nat (ld_top ld + ld_header ld) :: 'a word) = ld_top ld + ld_header ld" by (rule unat_of_nat_word [OF fits])
      moreover have "ladder_ceiling ld bytes = (if ld_header ld \<noteq> 0 \<and> bytes \<le> of_nat (ld_top ld + ld_header ld)
          then of_nat (ld_top ld + ld_header ld) else bytes)"
        unfolding ladder_ceiling_def Let_def pick_if base tp using w k big False by (simp only: if_False)
      moreover have "ld_top ld < unat bytes" using False ld(3) by simp
      ultimately show ?thesis using search_past [OF ld] by (simp add: word_le_nat_alt)
    qed
  qed
qed

lemma default_ladder_ok:
  assumes "17 \<le> w"
  shows "ladder_ok w default_ladder"
proof -
  have "(2 :: nat) ^ 17 \<le> 2 ^ w" using assms by (rule power_increasing) simp
  then have "65584 < (2 :: nat) ^ w" by simp
  moreover have "\<exists>s p d. (16 :: nat) = 2 ^ s \<and> (8 :: nat) = 2 ^ p \<and> (65536 :: nat) = 2 ^ (s + p + d)"
    by (rule exI [of _ 4], rule exI [of _ 3], rule exI [of _ 9]) simp
  ultimately show ?thesis by (simp add: ladder_ok_def default_ladder_def)
qed

section \<open>The slot table is the search\<close>

definition first_row :: "nat list \<Rightarrow> nat \<Rightarrow> nat" where
  "first_row rows n = length (takeWhile (\<lambda>r. r < n) rows)"

lemma class_search_first_row:
  "class_search rows n = (if first_row rows n < length rows then rows ! first_row rows n else n)"
proof -
  have "find (\<lambda>r. n \<le> r) rows = (if first_row rows n < length rows then Some (rows ! first_row rows n) else None)"
    by (induction rows) (auto simp: first_row_def)
  then show ?thesis by (simp add: class_search_def)
qed

lemma first_row_mono: "n \<le> m \<Longrightarrow> first_row rows n \<le> first_row rows m"
  by (induction rows) (auto simp: first_row_def)

lemma first_row_le: "first_row rows n \<le> length rows"
  by (simp add: first_row_def length_takeWhile_le)

lemma slot_advance_first_row: "r \<le> first_row rows lim \<Longrightarrow> slot_advance rows lim r = first_row rows lim"
proof (induction rows lim r rule: slot_advance.induct)
  case (1 rows lim r)
  show ?case
  proof (cases "r < first_row rows lim")
    case True
    then have "rows ! r < lim" unfolding first_row_def by (metis nth_mem set_takeWhileD takeWhile_nth)
    moreover have "r < length rows" using True first_row_le less_le_trans by blast
    ultimately show ?thesis using 1 True by (subst slot_advance.simps) simp
  next
    case False
    then have r: "r = first_row rows lim" using "1.prems" by simp
    have "\<not> rows ! r < lim" if "r < length rows"
      using that nth_length_takeWhile [of "\<lambda>r. r < lim" rows] by (simp add: r first_row_def)
    then show ?thesis by (subst slot_advance.simps) (auto simp: r)
  qed
qed

lemma slot_fill_first_row:
  "sorted qs \<Longrightarrow> (\<And>q. q \<in> set qs \<Longrightarrow> r \<le> first_row rows (q * kClassGrain)) \<Longrightarrow>
   slot_fill rows r qs = map (\<lambda>q. of_nat (first_row rows (q * kClassGrain))) qs"
  by (induction qs arbitrary: r) (simp_all add: Let_def slot_advance_first_row first_row_mono)

lemma kSlot_nth:
  assumes "length rows < 255" and "q < kSlots rows"
  shows "unat (kSlot rows ! q) = (if q = kSlots rows - 1 then length rows else first_row rows (q * kClassGrain))"
proof -
  have fill: "slot_fill rows 0 [0..<kSlots rows - 1] = map (\<lambda>q. of_nat (first_row rows (q * kClassGrain))) [0..<kSlots rows - 1]"
    by (rule slot_fill_first_row) simp_all
  have "unat (of_nat n :: byte) = n" if "n \<le> length rows" for n using that assms(1) by (intro byte_of_nat_unat) simp
  then show ?thesis using assms(2) first_row_le [of rows] unfolding kSlot_def fill by (auto simp: nth_append)
qed

definition classes_ok :: "nat \<Rightarrow> nat list \<Rightarrow> bool" where
  "classes_ok w rows \<longleftrightarrow>
     size_classes_valid rows \<and> length rows < 255 \<and> list_all (\<lambda>r. kClassGrain dvd r \<and> r < 2 ^ w) rows"

lemma classes_valid_last:
  assumes "size_classes_valid rows" and "r \<in> set rows"
  shows "r \<le> last rows"
proof -
  have "rows ! i \<le> rows ! Suc i" if "Suc i < length rows" for i
    using assms(1) that bspec [of "set [1..<length rows]" "\<lambda>i. \<not> rows ! i \<le> rows ! (i - 1)" "Suc i"]
    by (simp add: size_classes_valid_def)
  then have "sorted rows" by (simp add: sorted_iff_nth_Suc)
  moreover obtain i where "i < length rows" "r = rows ! i" using assms(2) by (metis in_set_conv_nth)
  moreover have "last rows = rows ! (length rows - 1)" using \<open>i < length rows\<close> by (intro last_conv_nth) auto
  ultimately show ?thesis by (simp add: sorted_nth_mono)
qed

lemma first_row_grain:
  assumes "list_all (\<lambda>r. kClassGrain dvd r \<and> P r) rows"
  shows "first_row rows ((n + kClassGrain - 1) div kClassGrain * kClassGrain) = first_row rows n"
proof -
  have up: "(n + kClassGrain - 1) div kClassGrain * kClassGrain = round_up n kClassGrain" by (simp add: round_up_def kClassGrain_def)
  have "r < round_up n kClassGrain \<longleftrightarrow> r < n" if "r \<in> set rows" for r
  proof -
    obtain k where k: "r = kClassGrain * k" using assms \<open>r \<in> set rows\<close> by (auto simp: list_all_iff)
    obtain j where j: "round_up n kClassGrain = kClassGrain * j" using round_up_dvd by blast
    show ?thesis using round_up_ge [of kClassGrain n] round_up_less [of kClassGrain n] k j by (simp add: kClassGrain_def) linarith
  qed
  then show ?thesis unfolding up first_row_def by (metis (mono_tags, lifting) takeWhile_cong)
qed

lemma class_lookup_search:
  assumes "classes_ok w rows"
  shows "class_lookup_ceiling rows n = class_search rows n"
proof -
  have valid: "size_classes_valid rows" and few: "length rows < 255"
    and grain: "list_all (\<lambda>r. kClassGrain dvd r \<and> r < 2 ^ w) rows" using assms by (simp_all add: classes_ok_def)
  have ne: "rows \<noteq> []" using valid by (simp add: size_classes_valid_def)
  then have "last rows \<in> set rows" by simp
  then obtain m where m: "last rows = kClassGrain * m" using grain by (auto simp: list_all_iff)
  have slots: "kSlots rows = m + 2" by (simp add: kSlots_def m kClassGrain_def)
  define q where "q = (min n ((m + 1) * kClassGrain) + kClassGrain - 1) div kClassGrain"
  have look: "class_lookup_ceiling rows n = max ((rows @ [0]) ! unat (kSlot rows ! q)) n"
    by (simp add: class_lookup_ceiling_def Let_def slots q_def)
  show ?thesis
  proof (cases "n \<le> last rows")
    case True
    have q: "q = (n + kClassGrain - 1) div kClassGrain" using True by (simp add: q_def m kClassGrain_def min_def)
    have "q < m + 1" using True by (simp add: q m kClassGrain_def)
    then have "unat (kSlot rows ! q) = first_row rows n"
      using kSlot_nth [OF few, of q] first_row_grain [OF grain, of n] by (simp add: slots q)
    moreover have "first_row rows n < length rows"
    proof -
      have "takeWhile (\<lambda>r. r < n) rows \<noteq> rows" using True \<open>last rows \<in> set rows\<close> by (metis not_le set_takeWhileD)
      then show ?thesis unfolding first_row_def by (metis length_takeWhile_le order_le_less takeWhile_eq_take take_all_iff)
    qed
    moreover from this have "n \<le> rows ! first_row rows n"
      unfolding first_row_def using nth_length_takeWhile [of "\<lambda>r. r < n" rows] by simp
    ultimately show ?thesis by (simp add: look class_search_first_row nth_append max_def)
  next
    case False
    then have "q = m + 1" by (simp add: q_def m kClassGrain_def min_def) (intro impI div_nat_eqI, simp_all)
    then have "unat (kSlot rows ! q) = length rows" using kSlot_nth [OF few, of q] by (simp add: slots)
    moreover have "first_row rows n = length rows"
      unfolding first_row_def
      by (rule arg_cong [where f = length], subst takeWhile_eq_all_conv) (use False classes_valid_last [OF valid] in force)
    ultimately show ?thesis by (simp add: look class_search_first_row nth_append)
  qed
qed

section \<open>What the class of a block promises\<close>

lemma class_search_ge: "n \<le> class_search rows n"
  by (auto simp: class_search_def split: option.split dest: find_Some_iff [THEN iffD1])

lemma class_search_same:
  assumes "n \<le> m"
  shows "m \<le> class_search rows n \<longleftrightarrow> class_search rows m = class_search rows n"
proof
  assume le: "m \<le> class_search rows n"
  show "class_search rows m = class_search rows n"
  proof (cases "find (\<lambda>r. n \<le> r) rows")
    case None
    then have "m = n" using le assms by (simp add: class_search_def)
    then show ?thesis by simp
  next
    case (Some r)
    then have r: "class_search rows n = r" by (simp add: class_search_def)
    from Some obtain i where "i < length rows" "n \<le> rows ! i" "r = rows ! i" "\<forall>j < i. \<not> n \<le> rows ! j"
      by (auto simp: find_Some_iff)
    then have "find (\<lambda>r. m \<le> r) rows = Some r" using le r assms unfolding find_Some_iff by (metis order_trans)
    then have "class_search rows m = r" by (simp add: class_search_def)
    then show ?thesis using r by simp
  qed
next
  assume "class_search rows m = class_search rows n"
  then show "m \<le> class_search rows n" using class_search_ge [of m rows] by simp
qed

lemma class_search_less:
  assumes "list_all (\<lambda>r. P r \<and> r < k) rows" and "n < k"
  shows "class_search rows n < k"
proof (cases "find (\<lambda>r. n \<le> r) rows")
  case (Some r)
  then have "r \<in> set rows" by (auto simp: find_Some_iff)
  then show ?thesis using Some assms(1) by (simp add: class_search_def list_all_iff)
qed (simp add: class_search_def assms(2))

lemma class_ceiling_search:
  fixes bytes :: "'a::len word"
  assumes "17 \<le> LENGTH('a)" and "classes_ok LENGTH('a) (kSizeClasses cfg)"
  shows "unat (class_ceiling cfg bytes) = class_search (kSizeClasses cfg) (unat bytes)"
proof -
  have less: "class_search (kSizeClasses cfg) (unat bytes) < 2 ^ LENGTH('a)"
    by (rule class_search_less [where P = "\<lambda>r. kClassGrain dvd r"])
      (use assms(2) unat_less_pow [of bytes] in \<open>simp_all add: classes_ok_def\<close>)
  then have "unat (of_nat (class_search (kSizeClasses cfg) (unat bytes)) :: 'a word) = class_search (kSizeClasses cfg) (unat bytes)"
    by (rule unat_of_nat_word)
  then show ?thesis
    using ladder_ceiling_search [OF default_ladder_ok [OF assms(1)], of bytes] class_lookup_search [OF assms(2)]
    by (simp add: class_ceiling_def kDefaultLadder_def)
qed

text \<open>
  C33. Every build finds the same class. The default table is served by branch-free arithmetic on
  the ladder, an overridden table of a slab pool by a one-byte slot table, every other root by a
  binary search; for every table the static assertions admit and every request of any width, all
  three return the smallest row that holds the request, or the request itself above the last row.
\<close>

theorem class_ceiling_is_search:
  fixes bytes :: "'a::len word"
  assumes "17 \<le> LENGTH('a)" and "classes_ok LENGTH('a) (kSizeClasses cfg)"
  shows "unat (class_ceiling cfg bytes) = class_search (kSizeClasses cfg) (unat bytes)"
  by (rule class_ceiling_search [OF assms])

theorem class_ceiling_is_search_witness:
  "unat (class_ceiling \<lparr>kSlabPool = True, kHeapRoot = False, kSizeClasses = [64, 256, 1024]\<rparr> (65 :: 32 word)) = 256"
  using class_ceiling_is_search [where 'a = 32, of "\<lparr>kSlabPool = True, kHeapRoot = False, kSizeClasses = [64, 256, 1024]\<rparr>" 65]
  by (simp add: classes_ok_def size_classes_valid_def kClassGrain_def class_search_def upt_rec)



section \<open>A segment block is released as it was drawn\<close>

context block_source
begin

lemma alloc_in_block_owned:
  fixes abi :: "'a::len word abi_t"
  assumes "inv m L" and "alloc_in_block abi ops m sz align = (Some seg, m')"
    and "request_ok w (unat (segment_block_bytes abi sz align)) (unat (segment_block_align abi align))"
  defines "b \<equiv> (pl_at seg, unat (segment_block_bytes abi sz align), unat (segment_block_align abi align))"
  shows "inv m' (insert b L) \<and> b \<notin> L" and "pl_size seg = sz"
    and "inv (destroy_in_block abi ops m' seg align) L"
proof -
  obtain p where p: "try_alloc ops m (unat (segment_block_bytes abi sz align)) (unat (segment_block_align abi align)) = (Some p, m')"
    and seg: "seg = place_segment abi p sz align"
    using assms(2) by (auto simp: alloc_in_block_def split: prod.splits option.splits)
  have at: "pl_at seg = p" by (simp add: seg place_segment_def)
  show new: "inv m' (insert b L) \<and> b \<notin> L" using alloc_grant [OF assms(1,3) p] by (simp add: b_def at)
  show sz: "pl_size seg = sz" by (simp add: seg place_segment_def)
  have mem: "(pl_at seg, unat (segment_block_bytes abi sz align), unat (segment_block_align abi align)) \<in> insert b L"
    by (simp add: b_def)
  from release_live [OF conjunct1 [OF new] mem]
  have "inv (release ops m' (pl_at seg) (unat (segment_block_bytes abi sz align)) (unat (segment_block_align abi align))) (insert b L - {b})"
    by (simp only: b_def)
  moreover have "insert b L - {b} = L" using new by auto
  ultimately show "inv (destroy_in_block abi ops m' seg align) L" by (simp only: destroy_in_block_def sz)
qed

end

text \<open>The payload lies inside the block, past the header, on the boundary the backend promises.\<close>

lemma place_segment_inside:
  fixes abi :: "'a::len word abi_t"
  assumes "sizeof_segment abi \<le> segment_header_bytes abi align" and "sz \<noteq> 0"
    and "unat (segment_header_bytes abi align) + unat sz < 2 ^ LENGTH('a)"
  shows "p + unat (sizeof_segment abi) \<le> pl_payload (place_segment abi p sz align)"
    and "pl_payload (place_segment abi p sz align) + unat sz = p + unat (segment_block_bytes abi sz align)"
proof -
  show "p + unat (sizeof_segment abi) \<le> pl_payload (place_segment abi p sz align)"
    using assms(1,2) by (simp add: place_segment_def word_le_nat_alt)
  have "unat (segment_block_bytes abi sz align) = unat (segment_header_bytes abi align) + unat sz"
    unfolding segment_block_bytes_def using assms(3) by (subst unat_add_lem [THEN iffD1]) simp_all
  then show "pl_payload (place_segment abi p sz align) + unat sz = p + unat (segment_block_bytes abi sz align)"
    using assms(2) by (simp add: place_segment_def)
qed

lemma inline_block_of_place: "inline_block_of abi (place_inline abi block prefix len) prefix = block"
  by (simp add: inline_block_of_def place_inline_def Let_def)

end
