(* ===== verification/Framer.thy ===== *)
theory Framer
  imports Rope Placement Block_Array
begin

text \<open>
  Receiving frames from a byte stream: the receive block of \<^verbatim>\<open>mem_heap.hpp\<close> and the length-prefix
  reassembler of \<^verbatim>\<open>length_prefix_framer.hpp\<close>, with the sender's record. The receiver and the drop
  counter are arguments, and act on the segment store and on a state of their own. The lemmas show
  that a stream means the same however it is cut into chunks, that every frame of a well-formed
  stream is delivered or counted in order, and that the loop ends on every chunk.
\<close>

section \<open>Receive blocks\<close>

record backend_t =
  bk_alloc :: seg_alloc
  bk_space :: mem_space_t
  bk_alignment :: nat
  bk_max_segment_size :: nat

definition segment_alloc :: "backend_t \<Rightarrow> seg_store \<Rightarrow> nat \<Rightarrow> segment_ptr_t \<times> seg_store" where
  "segment_alloc bk s sz = bk_alloc bk s sz"

record rx_block_t =
  rx_seg :: segment_ptr_t
  rx_off :: nat

definition rx_frame :: "rx_block_t \<Rightarrow> seg_store \<Rightarrow> nat \<Rightarrow> bytes" where
  "rx_frame blk s len =
     (case rx_seg blk of None \<Rightarrow> [] | Some i \<Rightarrow> (case s i of None \<Rightarrow> [] | Some g \<Rightarrow> subspan (rx_off blk) len (seg_bytes g)))"

definition rx_take :: "rx_block_t \<Rightarrow> nat \<Rightarrow> view_t" where
  "rx_take blk len = \<lparr>v_owner = rx_seg blk, v_offset = rx_off blk, v_length = len\<rparr>"

text \<open>What the build fixes: the class table of its root, and the layout of a segment.\<close>

type_synonym 'sz build_t = "root_cfg_t \<times> 'sz abi_t"

definition alloc_rx :: "'a::len word build_t \<Rightarrow> backend_t \<Rightarrow> seg_store \<Rightarrow> nat \<Rightarrow> rx_block_t \<times> seg_store" where
  "alloc_rx bd bk s len =
     (let (cfg, abi) = bd;
          align = of_nat (bk_alignment bk);
          loan = bk_space bk = HOST \<and> rx_loan_free cfg abi (of_nat len) align \<and>
                 rx_loan_fits abi (of_nat len) (of_nat (bk_max_segment_size bk)) align
      in if \<not> loan then
           (case bk_alloc bk s len of (p, s') \<Rightarrow> (\<lparr>rx_seg = p, rx_off = 0\<rparr>, s'))
         else
           (case bk_alloc bk s (len + unat (kRxLoanBytes abi)) of
              (None, s') \<Rightarrow> (\<lparr>rx_seg = None, rx_off = 0\<rparr>, s')
            | (Some i, s') \<Rightarrow>
                (case s' i of
                   None \<Rightarrow> (\<lparr>rx_seg = None, rx_off = 0\<rparr>, s')
                 | Some g \<Rightarrow>
                     (\<lparr>rx_seg = Some i, rx_off = unat (kRxLoanBytes abi)\<rparr>,
                      s'(i \<mapsto> g\<lparr>seg_bytes := store_le (seg_bytes g) (0 :: 32 word) 4, seg_rx_loan := True\<rparr>)))))"

definition over_bytes :: "bytes \<Rightarrow> backend_t \<Rightarrow> seg_store \<Rightarrow> view_t option \<times> seg_store" where
  "over_bytes b bk s =
     (if b = [] then (Some view_null, s)
      else
        (case segment_alloc bk s (length b) of
           (None, s') \<Rightarrow> (None, s')
         | (Some i, s') \<Rightarrow>
             (case s' i of
                None \<Rightarrow> (None, s')
              | Some g \<Rightarrow>
                  let s'' = s'(i \<mapsto> g\<lparr>seg_bytes := b @ drop (length b) (seg_bytes g)\<rparr>)
                  in (Some (view_over s'' (Some i)), s''))))"

section \<open>The framing rules\<close>

definition kPrefixBytes :: nat where
  "kPrefixBytes = 4"

definition kDefaultMaxFrame :: nat where
  "kDefaultMaxFrame = 16 * 1024 * 1024"

definition configured_cap :: "nat \<Rightarrow> nat" where
  "configured_cap max_frame =
     (if max_frame = 0 then kDefaultMaxFrame
      else if max_frame < kDefaultMaxFrame then max_frame else kDefaultMaxFrame)"

definition effective_cap :: "backend_t \<Rightarrow> nat \<Rightarrow> nat" where
  "effective_cap bk max_frame =
     (let backend_cap = bk_max_segment_size bk in if max_frame < backend_cap then max_frame else backend_cap)"

datatype prefix_decision_t = EMPTY | MALFORMED | DROP | ACCEPT seg_id nat

definition on_prefix ::
  "'a::len word build_t \<Rightarrow> backend_t \<Rightarrow> nat \<Rightarrow> nat \<Rightarrow> bool \<Rightarrow> seg_store \<Rightarrow>
    prefix_decision_t \<times> seg_store" where
  "on_prefix bd bk max_frame len loan s =
     (if len = 0 then (EMPTY, s)
      else if max_frame < len then (MALFORMED, s)
      else if bk_max_segment_size bk < len then (DROP, s)
      else
        let (blk, s') = (if loan then alloc_rx bd bk s len
                         else (case segment_alloc bk s len of (p, s') \<Rightarrow> (\<lparr>rx_seg = p, rx_off = 0\<rparr>, s')))
        in (case rx_seg blk of None \<Rightarrow> (DROP, s') | Some i \<Rightarrow> (ACCEPT i (rx_off blk), s')))"

section \<open>The reassembler\<close>

record framer_t =
  fr_prefix :: bytes
  fr_have :: nat
  fr_seg :: segment_ptr_t
  fr_len :: nat
  fr_off :: nat
  fr_drain :: nat

definition framer_init :: framer_t where
  "framer_init = \<lparr>fr_prefix = [0, 0, 0, 0], fr_have = 0, fr_seg = None, fr_len = 0, fr_off = 0, fr_drain = 0\<rparr>"

record 'u sink_t =
  on_frame :: "seg_id \<Rightarrow> nat \<Rightarrow> seg_store \<times> 'u \<Rightarrow> seg_store \<times> 'u"
  on_drop :: "'u \<Rightarrow> 'u"

definition write_at :: "nat \<Rightarrow> bytes \<Rightarrow> bytes \<Rightarrow> bytes" where
  "write_at off b buf = take off buf @ b @ drop (off + length b) buf"

text \<open>
  One turn of the loop. \<open>Undef\<close> is a turn with no meaning in the source: a body branch with no
  segment (feeding on after a malformed prefix without \<^verbatim>\<open>reset\<close>), an empty rest, which would never
  advance, or a write past the segment.
\<close>

datatype 'u feed_step_t =
    Stop framer_t "seg_store \<times> 'u" bool
  | Next framer_t "seg_store \<times> 'u" bytes
  | Undef

definition feed_drain :: "framer_t \<Rightarrow> seg_store \<times> 'u \<Rightarrow> bytes \<Rightarrow> 'u feed_step_t" where
  "feed_drain fr st p =
     (let n = length p;
          t = (if fr_drain fr < n then fr_drain fr else n);
          left = fr_drain fr - t
      in Next (fr\<lparr>fr_drain := left, fr_have := (if left = 0 then 0 else fr_have fr)\<rparr>) st (drop t p))"

definition feed_decide ::
  "'a::len word build_t \<Rightarrow> backend_t \<Rightarrow> nat \<Rightarrow> 'u sink_t \<Rightarrow> framer_t \<Rightarrow> seg_store \<times> 'u \<Rightarrow> bytes \<Rightarrow> 'u feed_step_t" where
  "feed_decide bd bk max_frame sk fr st p =
     (let len = unat (load_le (fr_prefix fr) :: 32 word);
          (s, u) = st
      in (case on_prefix bd bk max_frame len False s of
            (EMPTY, s') \<Rightarrow> Next (fr\<lparr>fr_have := 0\<rparr>) (s', u) p
          | (MALFORMED, s') \<Rightarrow> Stop fr (s', u) True
          | (DROP, s') \<Rightarrow> Next (fr\<lparr>fr_drain := len\<rparr>) (s', on_drop sk u) p
          | (ACCEPT i off, s') \<Rightarrow> Next (fr\<lparr>fr_seg := Some i, fr_len := len, fr_off := 0\<rparr>) (s', u) p))"

definition feed_prefix ::
  "'a::len word build_t \<Rightarrow> backend_t \<Rightarrow> nat \<Rightarrow> 'u sink_t \<Rightarrow> framer_t \<Rightarrow> seg_store \<times> 'u \<Rightarrow> bytes \<Rightarrow> 'u feed_step_t" where
  "feed_prefix bd bk max_frame sk fr st p =
     (let n = length p;
          want = kPrefixBytes - fr_have fr;
          t = (if want < n then want else n);
          fr' = fr\<lparr>fr_prefix := write_at (fr_have fr) (take t p) (fr_prefix fr), fr_have := fr_have fr + t\<rparr>
      in if fr_have fr' < kPrefixBytes then Stop fr' st False
         else feed_decide bd bk max_frame sk fr' st (drop t p))"

definition feed_body :: "'u sink_t \<Rightarrow> framer_t \<Rightarrow> seg_store \<times> 'u \<Rightarrow> bytes \<Rightarrow> 'u feed_step_t" where
  "feed_body sk fr st p =
     (let n = length p;
          want = fr_len fr - fr_off fr;
          t = (if want < n then want else n);
          (s, u) = st
      in (case fr_seg fr of
            None \<Rightarrow> Undef
          | Some i \<Rightarrow>
              (case s i of
                 None \<Rightarrow> Undef
               | Some g \<Rightarrow>
                   if want = 0 \<or> length (seg_bytes g) < fr_off fr + t then Undef
                   else
                     let s' = s(i \<mapsto> g\<lparr>seg_bytes := write_at (fr_off fr) (take t p) (seg_bytes g)\<rparr>);
                         off = fr_off fr + t
                     in if off = fr_len fr then
                          Next (fr\<lparr>fr_seg := None, fr_have := 0, fr_len := 0, fr_off := 0\<rparr>)
                            (on_frame sk i (fr_len fr) (s', u)) (drop t p)
                        else Next (fr\<lparr>fr_off := off\<rparr>) (s', u) (drop t p))))"

definition feed_step ::
  "'a::len word build_t \<Rightarrow> backend_t \<Rightarrow> nat \<Rightarrow> 'u sink_t \<Rightarrow> framer_t \<Rightarrow> seg_store \<times> 'u \<Rightarrow> bytes \<Rightarrow> 'u feed_step_t" where
  "feed_step bd bk max_frame sk fr st p =
     (if 0 < fr_drain fr then feed_drain fr st p
      else if fr_have fr < kPrefixBytes then feed_prefix bd bk max_frame sk fr st p
      else feed_body sk fr st p)"

lemma feed_step_consumes:
  assumes "feed_step bd bk max_frame sk fr st p = Next fr' st' p'" and "p \<noteq> []"
  shows "length p' < length p"
  using assms
  by (auto simp: feed_step_def feed_drain_def feed_prefix_def feed_decide_def feed_body_def Let_def kPrefixBytes_def
      split: if_splits prod.splits option.splits prefix_decision_t.splits)

function feed ::
  "'a::len word build_t \<Rightarrow> backend_t \<Rightarrow> nat \<Rightarrow> 'u sink_t \<Rightarrow> framer_t \<Rightarrow> seg_store \<times> 'u \<Rightarrow> bytes \<Rightarrow>
    (framer_t \<times> (seg_store \<times> 'u) \<times> bool) option" where
  "feed bd bk max_frame sk fr st p =
     (if p = [] then Some (fr, st, False)
      else
        (case feed_step bd bk max_frame sk fr st p of
           Stop fr' st' malformed \<Rightarrow> Some (fr', st', malformed)
         | Next fr' st' p' \<Rightarrow> feed bd bk max_frame sk fr' st' p'
         | Undef \<Rightarrow> None))"
  by pat_completeness auto
termination
  by (relation "measure (\<lambda>(bd, bk, max_frame, sk, fr, st, p). length p)") (auto dest: feed_step_consumes)

declare feed.simps [simp del]

definition framer_reset :: "framer_t \<Rightarrow> framer_t" where
  "framer_reset fr = fr\<lparr>fr_have := 0, fr_seg := None, fr_len := 0, fr_off := 0, fr_drain := 0\<rparr>"

text \<open>The chunks a stream arrives in, fed in turn until one is malformed.\<close>

fun feed_chunks ::
  "'a::len word build_t \<Rightarrow> backend_t \<Rightarrow> nat \<Rightarrow> 'u sink_t \<Rightarrow> framer_t \<Rightarrow> seg_store \<times> 'u \<Rightarrow> bytes list \<Rightarrow>
    (framer_t \<times> (seg_store \<times> 'u) \<times> bool) option" where
  "feed_chunks bd bk max_frame sk fr st [] = Some (fr, st, False)"
| "feed_chunks bd bk max_frame sk fr st (p # ps) =
     (case feed bd bk max_frame sk fr st p of
        None \<Rightarrow> None
      | Some (fr', st', malformed) \<Rightarrow>
          if malformed then Some (fr', st', True) else feed_chunks bd bk max_frame sk fr' st' ps)"

section \<open>The sender's record\<close>

text \<open>
  A record on the wire: the length, little-endian, then the spans of the frame; nothing when the
  frame is above the link's cap.
\<close>

definition kMaxInlineIov :: nat where
  "kMaxInlineIov = 16"

text \<open>
  The gather table: the caller's stack array when it is large enough, else a block of the sending
  link's egress source. \<open>es\<close> and \<open>ea\<close> are the size and alignment of an entry.
\<close>

definition iov_acquire ::
  "'m source_ops \<Rightarrow> nat \<Rightarrow> nat \<Rightarrow> nat \<Rightarrow> bytes block_array_t \<Rightarrow> nat \<Rightarrow> 'm \<Rightarrow> bool \<times> bytes block_array_t \<times> 'm" where
  "iov_acquire src es ea inline_size overflow entries m =
     (if entries \<le> inline_size then (True, overflow, m) else ba_reserve src es ea entries overflow m)"

definition prefixed_iov ::
  "'m source_ops \<Rightarrow> nat \<Rightarrow> nat \<Rightarrow> bytes list \<Rightarrow> nat \<Rightarrow> 'm \<Rightarrow> bytes list option \<times> bytes block_array_t \<times> 'm" where
  "prefixed_iov src es ea iov cap m =
     (let total_len = sum_list (map length iov)
      in if cap < total_len then (None, ba_empty, m)
         else
           let prefix = store_le (replicate kPrefixBytes 0) (of_nat total_len :: 32 word) 4
           in case iov_acquire src es ea (kMaxInlineIov + 1) ba_empty (length iov + 1) m of
                (False, table, m') \<Rightarrow> (None, table, m')
              | (True, table, m') \<Rightarrow> (Some (prefix # filter (\<lambda>s. s \<noteq> []) iov), table, m'))"

section \<open>One byte at a time\<close>

lemma length_write_at [simp]: "off + length b \<le> length buf \<Longrightarrow> length (write_at off b buf) = length buf"
  by (simp add: write_at_def)

lemma write_at_write_at: "write_at (off + length a) b (write_at off a buf) = write_at off (a @ b) buf"
  by (cases "off \<le> length buf") (simp_all add: write_at_def drop_take min_def ac_simps)

lemma write_at_Cons: "write_at (Suc off) b (write_at off [x] buf) = write_at off (x # b) buf"
  using write_at_write_at [of off "[x]" b buf] by simp

lemma feed_nil [simp]: "feed bd bk max_frame sk fr st [] = Some (fr, st, False)"
  by (subst feed.simps) simp

lemma feed_nonempty:
  "p \<noteq> [] \<Longrightarrow> feed bd bk max_frame sk fr st p =
     (case feed_step bd bk max_frame sk fr st p of
        Stop fr' st' malformed \<Rightarrow> Some (fr', st', malformed)
      | Next fr' st' p' \<Rightarrow> feed bd bk max_frame sk fr' st' p'
      | Undef \<Rightarrow> None)"
  by (subst feed.simps) simp

definition feed_then ::
  "'a::len word build_t \<Rightarrow> backend_t \<Rightarrow> nat \<Rightarrow> 'u sink_t \<Rightarrow> (framer_t \<times> (seg_store \<times> 'u) \<times> bool) option \<Rightarrow> bytes \<Rightarrow>
    (framer_t \<times> (seg_store \<times> 'u) \<times> bool) option" where
  "feed_then bd bk max_frame sk r p =
     (case r of
        None \<Rightarrow> None
      | Some (fr, st, malformed) \<Rightarrow> if malformed then Some (fr, st, True) else feed bd bk max_frame sk fr st p)"

lemma feed_then_simps [simp]:
  "feed_then bd bk max_frame sk None p = None"
  "feed_then bd bk max_frame sk (Some (fr, st, True)) p = Some (fr, st, True)"
  "feed_then bd bk max_frame sk (Some (fr, st, False)) p = feed bd bk max_frame sk fr st p"
  by (simp_all add: feed_then_def)

text \<open>A turn that takes more than one byte is the turn for its first byte, then one for the rest.\<close>

lemma feed_by_step:
  assumes one: "feed_step bd bk max_frame sk fr st [b] = Next fr1 st1 []"
    and rest: "p \<noteq> [] \<Longrightarrow> feed_step bd bk max_frame sk fr st (b # p) = feed_step bd bk max_frame sk fr1 st1 p"
  shows "feed bd bk max_frame sk fr st (b # p) = feed_then bd bk max_frame sk (feed bd bk max_frame sk fr st [b]) p"
proof (cases "p = []")
  case True
  then show ?thesis using feed_nonempty [of "[b]" bd bk max_frame sk fr st] one by simp
next
  case False
  then show ?thesis
    using feed_nonempty [of "[b]" bd bk max_frame sk fr st] feed_nonempty [of "b # p" bd bk max_frame sk fr st]
      feed_nonempty [of p bd bk max_frame sk fr1 st1] one rest by simp
qed

lemma feed_Cons_drain:
  assumes "0 < fr_drain fr"
  shows "feed bd bk max_frame sk fr st (b # p) = feed_then bd bk max_frame sk (feed bd bk max_frame sk fr st [b]) p"
proof (cases "fr_drain fr = 1")
  case True
  then have "feed_step bd bk max_frame sk fr st (b # q) = Next (fr\<lparr>fr_drain := 0, fr_have := 0\<rparr>) st q" for q
    by (auto simp: feed_step_def feed_drain_def Let_def)
  then have "feed bd bk max_frame sk fr st (b # q) = feed bd bk max_frame sk (fr\<lparr>fr_drain := 0, fr_have := 0\<rparr>) st q" for q
    using feed_nonempty [of "b # q" bd bk max_frame sk fr st] by simp
  then show ?thesis by simp
next
  case False
  define fr1 where "fr1 = fr\<lparr>fr_drain := fr_drain fr - 1\<rparr>"
  show ?thesis
  proof (rule feed_by_step)
    show "feed_step bd bk max_frame sk fr st [b] = Next fr1 st []"
      using assms False by (simp add: feed_step_def feed_drain_def Let_def fr1_def)
    assume "p \<noteq> []"
    define t where "t = (if fr_drain fr1 < length p then fr_drain fr1 else length p)"
    have t: "(if fr_drain fr < length (b # p) then fr_drain fr else length (b # p)) = Suc t"
      using assms by (auto simp: t_def fr1_def)
    have "feed_drain fr st (b # p) = feed_drain fr1 st p"
      unfolding feed_drain_def Let_def t t_def [symmetric] by (simp add: fr1_def)
    then show "feed_step bd bk max_frame sk fr st (b # p) = feed_step bd bk max_frame sk fr1 st p"
      using assms False by (simp add: feed_step_def fr1_def)
  qed
qed

lemma feed_decide_cases:
  "(\<exists>f s. \<forall>p. feed_decide bd bk max_frame sk fr st p = Stop f s True) \<or>
   (\<exists>f s. \<forall>p. feed_decide bd bk max_frame sk fr st p = Next f s p)"
proof -
  obtain s u where st: "st = (s, u)" by fastforce
  define len where "len = unat (load_le (fr_prefix fr) :: 32 word)"
  obtain d s' where d: "on_prefix bd bk max_frame len False s = (d, s')" by fastforce
  show ?thesis by (cases d) (simp_all add: feed_decide_def Let_def st d len_def [symmetric])
qed

lemma feed_Cons_prefix:
  assumes "fr_drain fr = 0" and "fr_have fr < kPrefixBytes"
  shows "feed bd bk max_frame sk fr st (b # p) = feed_then bd bk max_frame sk (feed bd bk max_frame sk fr st [b]) p"
proof -
  define fr1 where "fr1 = fr\<lparr>fr_prefix := write_at (fr_have fr) [b] (fr_prefix fr), fr_have := fr_have fr + 1\<rparr>"
  show ?thesis
  proof (cases "fr_have fr + 1 < kPrefixBytes")
    case True
    have one: "feed bd bk max_frame sk fr st [b] = Some (fr1, st, False)"
      using assms True by (simp add: feed_nonempty feed_step_def feed_prefix_def Let_def fr1_def)
    have "feed_prefix bd bk max_frame sk fr st (b # p) = feed_prefix bd bk max_frame sk fr1 st p"
    proof -
      define n where "n = length p"
      define t where "t = (if kPrefixBytes - fr_have fr1 < n then kPrefixBytes - fr_have fr1 else n)"
      have t: "(if kPrefixBytes - fr_have fr < length (b # p) then kPrefixBytes - fr_have fr else length (b # p)) = Suc t"
        using True by (auto simp: t_def fr1_def n_def)
      have "fr\<lparr>fr_prefix := write_at (fr_have fr) (take (Suc t) (b # p)) (fr_prefix fr), fr_have := fr_have fr + Suc t\<rparr>
          = fr1\<lparr>fr_prefix := write_at (fr_have fr1) (take t p) (fr_prefix fr1), fr_have := fr_have fr1 + t\<rparr>"
        by (simp add: fr1_def write_at_Cons)
      then show ?thesis
        unfolding feed_prefix_def Let_def t t_def [unfolded n_def, symmetric] by (simp only: drop_Suc_Cons)
    qed
    then have "p \<noteq> [] \<Longrightarrow> feed_step bd bk max_frame sk fr st (b # p) = feed_step bd bk max_frame sk fr1 st p"
      using assms True by (simp add: feed_step_def fr1_def)
    then have "p \<noteq> [] \<Longrightarrow> feed bd bk max_frame sk fr st (b # p) = feed bd bk max_frame sk fr1 st p"
      using feed_nonempty [of "b # p" bd bk max_frame sk fr st] feed_nonempty [of p bd bk max_frame sk fr1 st] by simp
    then show ?thesis by (cases "p = []") (simp_all add: one)
  next
    case False
    then have want: "kPrefixBytes - fr_have fr = 1" using assms(2) by simp
    have step: "feed_step bd bk max_frame sk fr st (b # q) = feed_decide bd bk max_frame sk fr1 st q" for q
      using assms want False by (simp add: feed_step_def feed_prefix_def Let_def fr1_def)
    then have all: "feed bd bk max_frame sk fr st (b # q) =
        (case feed_decide bd bk max_frame sk fr1 st q of
           Stop f s m \<Rightarrow> Some (f, s, m) | Next f s p' \<Rightarrow> feed bd bk max_frame sk f s p' | Undef \<Rightarrow> None)" for q
      using feed_nonempty [of "b # q" bd bk max_frame sk fr st] by simp
    show ?thesis using feed_decide_cases [of bd bk max_frame sk fr1 st] by (auto simp: all)
  qed
qed

lemma feed_Cons_body:
  assumes "fr_drain fr = 0" and "\<not> fr_have fr < kPrefixBytes"
  shows "feed bd bk max_frame sk fr st (b # p) = feed_then bd bk max_frame sk (feed bd bk max_frame sk fr st [b]) p"
proof -
  obtain s u where st: "st = (s, u)" by fastforce
  have step: "feed_step bd bk max_frame sk fr st' q = feed_body sk fr st' q" for st' q
    using assms by (simp add: feed_step_def)
  have undef: ?thesis if u: "\<And>q. q \<noteq> [] \<Longrightarrow> feed_body sk fr st q = Undef"
  proof -
    have "feed bd bk max_frame sk fr st (b # q) = None" for q
      using u feed_nonempty [of "b # q" bd bk max_frame sk fr st] by (simp add: step)
    then show ?thesis by simp
  qed
  consider "fr_seg fr = None" | i where "fr_seg fr = Some i" "s i = None"
    | i g where "fr_seg fr = Some i" "s i = Some g" "fr_len fr - fr_off fr = 0 \<or> length (seg_bytes g) < fr_off fr + 1"
    | i g where "fr_seg fr = Some i" "s i = Some g" "0 < fr_len fr - fr_off fr" "fr_off fr + 1 \<le> length (seg_bytes g)"
    by fastforce
  then show ?thesis
  proof cases
    case 4
    define s1 where "s1 = s(i \<mapsto> g\<lparr>seg_bytes := write_at (fr_off fr) [b] (seg_bytes g)\<rparr>)"
    show ?thesis
    proof (cases "fr_len fr - fr_off fr = 1")
      case True
      then have len: "fr_len fr = Suc (fr_off fr)" by simp
      have "feed_body sk fr st (b # q) =
          Next (fr\<lparr>fr_seg := None, fr_have := 0, fr_len := 0, fr_off := 0\<rparr>) (on_frame sk i (fr_len fr) (s1, u)) q" for q
        using 4 by (auto simp: feed_body_def Let_def st s1_def len)
      then have "feed bd bk max_frame sk fr st (b # q) =
          feed bd bk max_frame sk (fr\<lparr>fr_seg := None, fr_have := 0, fr_len := 0, fr_off := 0\<rparr>) (on_frame sk i (fr_len fr) (s1, u)) q" for q
        using feed_nonempty [of "b # q" bd bk max_frame sk fr st] by (simp add: step)
      then show ?thesis by simp
    next
      case False
      define fr1 where "fr1 = fr\<lparr>fr_off := fr_off fr + 1\<rparr>"
      show ?thesis
      proof (rule feed_by_step)
        show "feed_step bd bk max_frame sk fr st [b] = Next fr1 (s1, u) []"
          using 4 False by (auto simp: step feed_body_def Let_def st s1_def fr1_def)
        assume p: "p \<noteq> []"
        define t where "t = (if fr_len fr1 - fr_off fr1 < length p then fr_len fr1 - fr_off fr1 else length p)"
        have t: "(if fr_len fr - fr_off fr < length (b # p) then fr_len fr - fr_off fr else length (b # p)) = Suc t"
          using 4(3) by (auto simp: t_def fr1_def)
        have s1: "s1 i = Some (g\<lparr>seg_bytes := write_at (fr_off fr) [b] (seg_bytes g)\<rparr>)" by (simp add: s1_def)
        have sums: "fr_off fr1 + t = fr_off fr + Suc t" "fr_len fr1 = fr_len fr" "fr_seg fr1 = fr_seg fr" by (simp_all add: fr1_def)
        have zero: "\<not> fr_len fr \<le> fr_off fr" "\<not> fr_len fr \<le> fr_off fr1" using 4(3) False by (simp_all add: fr1_def)
        have len1: "length (write_at (fr_off fr) [b] (seg_bytes g)) = length (seg_bytes g)" using 4(4) by simp
        have w: "write_at (fr_off fr1) (take t p) (write_at (fr_off fr) [b] (seg_bytes g)) = write_at (fr_off fr) (take (Suc t) (b # p)) (seg_bytes g)"
          by (simp add: fr1_def write_at_Cons)
        have upd: "s1(i \<mapsto> g\<lparr>seg_bytes := x\<rparr>) = s(i \<mapsto> g\<lparr>seg_bytes := x\<rparr>)" for x by (simp add: s1_def)
        have recs: "fr1\<lparr>fr_seg := None, fr_have := 0, fr_len := 0, fr_off := 0\<rparr> = fr\<lparr>fr_seg := None, fr_have := 0, fr_len := 0, fr_off := 0\<rparr>"
          "fr1\<lparr>fr_off := x\<rparr> = fr\<lparr>fr_off := x\<rparr>" for x by (simp_all add: fr1_def)
        have "feed_body sk fr st (b # p) = feed_body sk fr1 (s1, u) p"
          unfolding feed_body_def Let_def st t t_def [symmetric]
          by (simp add: 4(1,2) s1 sums zero len1 w upd recs)
        then show "feed_step bd bk max_frame sk fr st (b # p) = feed_step bd bk max_frame sk fr1 (s1, u) p"
          using assms by (simp add: feed_step_def fr1_def)
      qed
    qed
  next
    case 1
    then show ?thesis by (intro undef) (simp add: feed_body_def Let_def st)
  next
    case 2
    then show ?thesis by (intro undef) (simp add: feed_body_def Let_def st)
  next
    case 3
    have "feed_body sk fr st q = Undef" if "q \<noteq> []" for q
    proof -
      have "fr_len fr - fr_off fr = 0 \<or>
          length (seg_bytes g) < fr_off fr + (if fr_len fr - fr_off fr < length q then fr_len fr - fr_off fr else length q)"
        using 3(3) that by (cases q) auto
      then show ?thesis unfolding feed_body_def Let_def st by (simp only: prod.case 3(1,2) option.case if_True)
    qed
    then show ?thesis by (rule undef)
  qed
qed

lemma feed_Cons:
  "feed bd bk max_frame sk fr st (b # p) = feed_then bd bk max_frame sk (feed bd bk max_frame sk fr st [b]) p"
proof (cases "fr_drain fr = 0")
  case True
  then show ?thesis by (cases "fr_have fr < kPrefixBytes") (rule feed_Cons_prefix feed_Cons_body, assumption, assumption)+
next
  case False
  then show ?thesis by (intro feed_Cons_drain) simp
qed

lemma feed_append: "feed bd bk max_frame sk fr st (a @ b) = feed_then bd bk max_frame sk (feed bd bk max_frame sk fr st a) b"
proof (induction a arbitrary: fr st)
  case (Cons x a)
  show ?case
  proof (cases "feed bd bk max_frame sk fr st [x]")
    case None
    then show ?thesis
      using feed_Cons [of bd bk max_frame sk fr st x "a @ b"] feed_Cons [of bd bk max_frame sk fr st x a] by simp
  next
    case (Some r)
    obtain fr' st' m where r: "r = (fr', st', m)" by (metis prod_cases3)
    show ?thesis
      using feed_Cons [of bd bk max_frame sk fr st x "a @ b"] feed_Cons [of bd bk max_frame sk fr st x a] Some r Cons.IH [of fr' st']
      by (cases m) simp_all
  qed
qed simp

lemma feed_chunks_concat: "feed_chunks bd bk max_frame sk fr st ps = feed bd bk max_frame sk fr st (concat ps)"
proof (induction ps arbitrary: fr st)
  case (Cons p ps)
  show ?case by (auto simp: feed_append feed_then_def Cons.IH split: option.split)
qed simp

section \<open>What a well-formed stream delivers\<close>

definition framer_ready :: "framer_t \<Rightarrow> bool" where
  "framer_ready fr \<longleftrightarrow>
     length (fr_prefix fr) = kPrefixBytes \<and> fr_have fr = 0 \<and> fr_seg fr = None \<and> fr_len fr = 0 \<and> fr_off fr = 0 \<and> fr_drain fr = 0"

definition record_of :: "bytes \<Rightarrow> bytes" where
  "record_of x = le_bytes (of_nat (length x) :: 32 word) 4 @ x"

text \<open>
  The specification: an empty frame is skipped, a frame the backend cannot hold is counted, every
  other frame reaches the receiver whole in a segment of its own.
\<close>

definition deliver_one :: "backend_t \<Rightarrow> 'u sink_t \<Rightarrow> bytes \<Rightarrow> seg_store \<times> 'u \<Rightarrow> seg_store \<times> 'u" where
  "deliver_one bk sk x st =
     (let (s, u) = st
      in if x = [] then (s, u)
         else if bk_max_segment_size bk < length x then (s, on_drop sk u)
         else
           (case bk_alloc bk s (length x) of
              (None, s') \<Rightarrow> (s', on_drop sk u)
            | (Some i, s') \<Rightarrow>
                (case s' i of
                   None \<Rightarrow> (s', u)
                 | Some g \<Rightarrow> on_frame sk i (length x) (s'(i \<mapsto> g\<lparr>seg_bytes := x\<rparr>), u))))"

lemma write_at_whole: "length buf = length b \<Longrightarrow> write_at 0 b buf = b"
  by (simp add: write_at_def)

lemma feed_record:
  assumes fresh: "alloc_fresh (bk_alloc bk)" and ready: "framer_ready fr"
    and len: "length x \<le> max_frame" "max_frame < 2 ^ 32"
  shows "feed bd bk max_frame sk fr st (record_of x @ rest) =
    feed bd bk max_frame sk (fr\<lparr>fr_prefix := le_bytes (of_nat (length x) :: 32 word) 4\<rparr>) (deliver_one bk sk x st) rest"
proof -
  obtain s u where st: "st = (s, u)" by fastforce
  define L where "L = le_bytes (of_nat (length x) :: 32 word) 4"
  define fr1 where "fr1 = fr\<lparr>fr_prefix := L, fr_have := 4\<rparr>"
  have L: "length L = 4" by (simp add: L_def)
  have ul: "unat (load_le L :: 32 word) = length x" unfolding L_def by (rule unat_load_le_le_bytes) (use len in simp_all)
  note r = ready [unfolded framer_ready_def kPrefixBytes_def]
  have out: "fr1\<lparr>fr_have := 0\<rparr> = fr\<lparr>fr_prefix := L\<rparr>" "fr1\<lparr>fr_drain := 0, fr_have := 0\<rparr> = fr\<lparr>fr_prefix := L\<rparr>"
    "fr1\<lparr>fr_seg := None, fr_have := 0, fr_len := 0, fr_off := 0\<rparr> = fr\<lparr>fr_prefix := L\<rparr>"
    using r by (simp_all add: fr1_def)
  have "feed_step bd bk max_frame sk fr st (record_of x @ rest) = feed_decide bd bk max_frame sk fr1 st (x @ rest)"
    using r L by (simp add: feed_step_def feed_prefix_def Let_def kPrefixBytes_def record_of_def L_def [symmetric] write_at_whole fr1_def)
  moreover have ne: "record_of x @ rest \<noteq> []" using L by (auto simp: record_of_def L_def [symmetric])
  ultimately have head: "feed bd bk max_frame sk fr st (record_of x @ rest) =
      (case feed_decide bd bk max_frame sk fr1 st (x @ rest) of
         Stop f t m \<Rightarrow> Some (f, t, m) | Next f t p \<Rightarrow> feed bd bk max_frame sk f t p | Undef \<Rightarrow> None)"
    using feed_nonempty [of "record_of x @ rest" bd bk max_frame sk fr st] ne by simp
  have drained: "feed bd bk max_frame sk (fr1\<lparr>fr_drain := length x\<rparr>) t (x @ rest) = feed bd bk max_frame sk (fr\<lparr>fr_prefix := L\<rparr>) t rest"
    if "x \<noteq> []" for t
    using that feed_nonempty [of "x @ rest" bd bk max_frame sk "fr1\<lparr>fr_drain := length x\<rparr>" t] out(2)
    by (auto simp: feed_step_def feed_drain_def Let_def)
  have p1: "fr_prefix fr1 = L" by (simp add: fr1_def)
  have decide: "feed_decide bd bk max_frame sk fr1 st (x @ rest) =
      (case on_prefix bd bk max_frame (length x) False s of
            (EMPTY, s') \<Rightarrow> Next (fr1\<lparr>fr_have := 0\<rparr>) (s', u) (x @ rest)
          | (MALFORMED, s') \<Rightarrow> Stop fr1 (s', u) True
          | (DROP, s') \<Rightarrow> Next (fr1\<lparr>fr_drain := length x\<rparr>) (s', on_drop sk u) (x @ rest)
          | (ACCEPT i off, s') \<Rightarrow> Next (fr1\<lparr>fr_seg := Some i, fr_len := length x, fr_off := 0\<rparr>) (s', u) (x @ rest))"
    unfolding feed_decide_def Let_def st p1 ul prod.case ..
  have body: "feed bd bk max_frame sk (fr1\<lparr>fr_seg := Some i, fr_len := length x, fr_off := 0\<rparr>) (s', u) (x @ rest) =
      feed bd bk max_frame sk (fr\<lparr>fr_prefix := L\<rparr>) (on_frame sk i (length x) (s'(i \<mapsto> g\<lparr>seg_bytes := x\<rparr>), u)) rest"
    if "x \<noteq> []" "s' i = Some g" "length (seg_bytes g) = length x" for i s' g
    using that feed_nonempty [of "x @ rest" bd bk max_frame sk "fr1\<lparr>fr_seg := Some i, fr_len := length x, fr_off := 0\<rparr>" "(s', u)"] r
    by (auto simp: feed_step_def feed_body_def Let_def kPrefixBytes_def write_at_whole out(3) [unfolded fr1_def, simplified] fr1_def)
  show ?thesis unfolding L_def [symmetric]
  proof (cases "x = [] \<or> bk_max_segment_size bk < length x")
    case True
    then show "feed bd bk max_frame sk fr st (record_of x @ rest) = feed bd bk max_frame sk (fr\<lparr>fr_prefix := L\<rparr>) (deliver_one bk sk x st) rest"
      unfolding head decide using len drained out(1) by (auto simp: on_prefix_def deliver_one_def st)
  next
    case False
    then have x: "x \<noteq> []" by simp
    obtain p s' where p: "bk_alloc bk s (length x) = (p, s')" by fastforce
    show "feed bd bk max_frame sk fr st (record_of x @ rest) = feed bd bk max_frame sk (fr\<lparr>fr_prefix := L\<rparr>) (deliver_one bk sk x st) rest"
    proof (cases p)
      case None
      then show ?thesis
        unfolding head decide using len drained [OF x] False p by (simp add: on_prefix_def deliver_one_def st segment_alloc_def)
    next
      case (Some i)
      obtain g where "s' i = Some g" "length (seg_bytes g) = length x"
        using alloc_freshD [OF fresh p [unfolded Some]] by (metis fun_upd_same)
      then show ?thesis
        unfolding head decide using len body [OF x] False p Some by (simp add: on_prefix_def deliver_one_def st segment_alloc_def)
    qed
  qed
qed

lemma feed_records:
  assumes "alloc_fresh (bk_alloc bk)" and "framer_ready fr" and "\<And>x. x \<in> set xs \<Longrightarrow> length x \<le> max_frame" and "max_frame < 2 ^ 32"
  obtains fr' where "framer_ready fr'"
    and "feed bd bk max_frame sk fr st (concat (map record_of xs)) = Some (fr', fold (deliver_one bk sk) xs st, False)"
  using assms(2,3)
proof (induction xs arbitrary: fr st thesis)
  case (Cons x xs)
  define fr1 where "fr1 = fr\<lparr>fr_prefix := le_bytes (of_nat (length x) :: 32 word) 4\<rparr>"
  have "framer_ready fr1" using Cons.prems(2) by (simp add: framer_ready_def fr1_def kPrefixBytes_def)
  from Cons.IH [OF _ this, of "deliver_one bk sk x st"] Cons.prems(3)
  obtain fr' where "framer_ready fr'"
    "feed bd bk max_frame sk fr1 (deliver_one bk sk x st) (concat (map record_of xs)) = Some (fr', fold (deliver_one bk sk) xs (deliver_one bk sk x st), False)"
    by auto
  moreover have "feed bd bk max_frame sk fr st (concat (map record_of (x # xs))) =
      feed bd bk max_frame sk fr1 (deliver_one bk sk x st) (concat (map record_of xs))"
    using feed_record [OF assms(1) Cons.prems(2) _ assms(4), of x] Cons.prems(3) by (simp add: fr1_def)
  ultimately show ?case using Cons.prems(1) by simp
qed simp

lemma prefixed_iov_record:
  "fst (prefixed_iov src es ea iov cap m) = Some r \<Longrightarrow> length (concat iov) \<le> cap \<and> concat r = record_of (concat iov)"
proof -
  assume r: "fst (prefixed_iov src es ea iov cap m) = Some r"
  have "concat (filter (\<lambda>s. s \<noteq> []) iov) = concat iov" by (induction iov) auto
  moreover have "store_le (replicate kPrefixBytes 0) (of_nat n :: 32 word) 4 = le_bytes (of_nat n :: 32 word) 4" for n
    by (simp add: store_le_def kPrefixBytes_def)
  ultimately show ?thesis using r by (auto simp: prefixed_iov_def Let_def record_of_def length_concat split: if_splits prod.splits bool.splits)
qed

section \<open>Every chunk is read to its end\<close>

definition framer_ok :: "seg_store \<Rightarrow> framer_t \<Rightarrow> bool" where
  "framer_ok s fr \<longleftrightarrow>
     length (fr_prefix fr) = kPrefixBytes \<and> fr_have fr \<le> kPrefixBytes \<and>
     (0 < fr_drain fr \<or> fr_have fr < kPrefixBytes \<or>
      (\<exists>i g. fr_seg fr = Some i \<and> s i = Some g \<and> fr_off fr < fr_len fr \<and> fr_len fr \<le> length (seg_bytes g)))"

lemma on_prefix_accept:
  assumes "alloc_fresh (bk_alloc bk)" and "on_prefix bd bk max_frame len False s = (ACCEPT i off, s')"
  shows "0 < len \<and> (\<exists>g. s' i = Some g \<and> length (seg_bytes g) = len)"
proof -
  have "bk_alloc bk s len = (Some i, s')" "len \<noteq> 0"
    using assms(2) by (auto simp: on_prefix_def segment_alloc_def split: if_splits prod.splits option.splits)
  moreover from alloc_freshD [OF assms(1) this(1)] have "\<exists>g. s' i = Some g \<and> length (seg_bytes g) = len"
    by (metis fun_upd_same)
  ultimately show ?thesis by simp
qed

lemma feed_step_ok:
  assumes fresh: "alloc_fresh (bk_alloc bk)" and ok: "framer_ok (fst st) fr" and p: "p \<noteq> []"
  shows "case feed_step bd bk max_frame sk fr st p of
      Undef \<Rightarrow> False
    | Stop fr' st' m \<Rightarrow> m \<or> framer_ok (fst st') fr'
    | Next fr' st' p' \<Rightarrow> framer_ok (fst st') fr'"
proof -
  consider "0 < fr_drain fr" | "fr_drain fr = 0" "fr_have fr < kPrefixBytes" | "fr_drain fr = 0" "\<not> fr_have fr < kPrefixBytes"
    by auto
  then show ?thesis
  proof cases
    case 1
    then show ?thesis using ok by (auto simp: feed_step_def feed_drain_def Let_def framer_ok_def kPrefixBytes_def)
  next
    case 2
    define n where "n = length p"
    define t where "t = (if kPrefixBytes - fr_have fr < n then kPrefixBytes - fr_have fr else n)"
    define fr1 where "fr1 = fr\<lparr>fr_prefix := write_at (fr_have fr) (take t p) (fr_prefix fr), fr_have := fr_have fr + t\<rparr>"
    have step: "feed_step bd bk max_frame sk fr st p =
        (if fr_have fr1 < kPrefixBytes then Stop fr1 st False else feed_decide bd bk max_frame sk fr1 st (drop t p))"
      using 2 by (simp add: feed_step_def feed_prefix_def Let_def fr1_def t_def n_def)
    have pre: "length (fr_prefix fr1) = kPrefixBytes" "fr_have fr1 \<le> kPrefixBytes" "fr_drain fr1 = 0"
      using ok 2 by (auto simp: fr1_def t_def n_def framer_ok_def)
    obtain s u where st: "st = (s, u)" by fastforce
    obtain d s' where d: "on_prefix bd bk max_frame (unat (load_le (fr_prefix fr1) :: 32 word)) False s = (d, s')" by fastforce
    show ?thesis
    proof (cases "fr_have fr1 < kPrefixBytes")
      case True
      then show ?thesis using pre by (simp add: step framer_ok_def)
    next
      case False
      show ?thesis
      proof (cases d)
        case (ACCEPT i off)
        then show ?thesis
          using False pre d on_prefix_accept [OF fresh d [unfolded ACCEPT]]
          by (auto simp: step [unfolded st] feed_decide_def st framer_ok_def)
      next
        case DROP
        then have "0 < unat (load_le (fr_prefix fr1) :: 32 word)" using d by (simp add: on_prefix_def split: if_splits)
        then show ?thesis using False pre d DROP by (simp add: step [unfolded st] feed_decide_def st framer_ok_def)
      qed (use False pre d in \<open>simp_all add: step [unfolded st] feed_decide_def st framer_ok_def kPrefixBytes_def\<close>)
    qed
  next
    case 3
    then obtain i g where seg: "fr_seg fr = Some i" "fst st i = Some g" "fr_off fr < fr_len fr" "fr_len fr \<le> length (seg_bytes g)"
      using ok by (auto simp: framer_ok_def)
    obtain s u where st: "st = (s, u)" by fastforce
    define n where "n = length p"
    define t where "t = (if fr_len fr - fr_off fr < n then fr_len fr - fr_off fr else n)"
    have t: "fr_off fr + t \<le> fr_len fr" using seg(3) by (simp add: t_def) linarith
    have fits: "\<not> (fr_len fr - fr_off fr = 0 \<or> length (seg_bytes g) < fr_off fr + t)" using seg(3,4) t by linarith
    have len: "length (write_at (fr_off fr) (take t p) (seg_bytes g)) = length (seg_bytes g)"
      using t seg(4) by (intro length_write_at) simp
    have "feed_step bd bk max_frame sk fr st p =
        (if fr_off fr + t = fr_len fr then
           Next (fr\<lparr>fr_seg := None, fr_have := 0, fr_len := 0, fr_off := 0\<rparr>)
             (on_frame sk i (fr_len fr) (s(i \<mapsto> g\<lparr>seg_bytes := write_at (fr_off fr) (take t p) (seg_bytes g)\<rparr>), u)) (drop t p)
         else Next (fr\<lparr>fr_off := fr_off fr + t\<rparr>) (s(i \<mapsto> g\<lparr>seg_bytes := write_at (fr_off fr) (take t p) (seg_bytes g)\<rparr>), u) (drop t p))"
      unfolding feed_step_def feed_body_def Let_def t_def [unfolded n_def, symmetric] st
      using 3 seg(1,2) fits by (simp only: less_irrefl if_False prod.case option.case fst_conv st if_not_P)
    then show ?thesis using ok 3 seg t len by (auto simp: framer_ok_def kPrefixBytes_def)
  qed
qed

lemma feed_ends:
  assumes "alloc_fresh (bk_alloc bk)" and "framer_ok (fst st) fr"
  shows "\<exists>fr' st' m. feed bd bk max_frame sk fr st p = Some (fr', st', m) \<and> (m \<or> framer_ok (fst st') fr')"
  using assms(2)
proof (induction "length p" arbitrary: fr st p rule: less_induct)
  case less
  show ?case
  proof (cases "p = []")
    case False
    note unfold = feed_nonempty [OF False, of bd bk max_frame sk fr st]
    note ok = feed_step_ok [OF assms(1) less.prems False, of bd max_frame sk]
    show ?thesis
    proof (cases "feed_step bd bk max_frame sk fr st p")
      case (Stop f t m)
      then show ?thesis using unfold ok by auto
    next
      case (Next f t q)
      then show ?thesis using unfold ok less.hyps [of q t f] feed_step_consumes [OF Next False] by simp
    next
      case Undef
      then show ?thesis using ok by simp
    qed
  qed (use less.prems in auto)
qed

section \<open>Properties\<close>

text \<open>A backend with room for every frame up to a kibibyte, and a receiver that keeps what it is given.\<close>

definition example_alloc :: seg_alloc where
  "example_alloc s n =
     (if s 0 = None then (Some 0, s(0 \<mapsto> \<lparr>seg_refcount = 1, seg_bytes = replicate n 0, seg_space = HOST, seg_rx_loan = False\<rparr>))
      else (None, s))"

lemma example_alloc_fresh: "alloc_fresh example_alloc"
  by (auto simp: alloc_fresh_def example_alloc_def)

definition example_backend :: backend_t where
  "example_backend = \<lparr>bk_alloc = example_alloc, bk_space = HOST, bk_alignment = 8, bk_max_segment_size = 1024\<rparr>"

definition example_sink :: "(bytes option list) sink_t" where
  "example_sink =
     \<lparr>on_frame = (\<lambda>i len (s, u). (s, u @ [map_option (\<lambda>g. take len (seg_bytes g)) (s i)])), on_drop = (\<lambda>u. u @ [None])\<rparr>"

definition example_build :: "32 word build_t" where
  "example_build = (\<lparr>kSlabPool = True, kHeapRoot = False, kSizeClasses = [64, 256]\<rparr>,
     \<lparr>sizeof_segment = 32, alignof_segment = 8, sizeof_ptr = 4, alignof_ptr = 4\<rparr>)"

text \<open>
  C35. The stream decides, not the chunks. However the bytes of a stream are cut into reads, prefixes
  and bodies split anywhere, the framer calls the receiver and the drop counter in the same order
  with the same segments, and ends in the same state, as if the stream had arrived at once.
\<close>

theorem framer_chunking:
  "feed_chunks bd bk max_frame sk fr st ps = feed bd bk max_frame sk fr st (concat ps)"
  by (rule feed_chunks_concat)

text \<open>
  C36. Every frame sent arrives. When a sender under the receiver's cap writes frames one after
  the other and the stream is cut into reads in any way, a framer between frames takes each frame in
  order: an empty one is skipped, one the backend refuses is counted before anything later is
  delivered, every other one is handed over whole in a segment of its own; the stream is never
  called malformed and the framer is between frames again.
\<close>

theorem framer_delivers:
  assumes "alloc_fresh (bk_alloc bk)" and "framer_ready fr" and "cap \<le> max_frame" and "max_frame < 2 ^ 32"
    and "list_all2 (\<lambda>iov r. \<exists>m. fst (prefixed_iov src es ea iov cap m) = Some r) iovs recs" and "concat ps = concat (map concat recs)"
  shows "\<exists>fr'. feed_chunks bd bk max_frame sk fr st ps = Some (fr', fold (deliver_one bk sk) (map concat iovs) st, False) \<and> framer_ready fr'"
proof -
  have recs: "map concat recs = map record_of (map concat iovs) \<and> (\<forall>x \<in> set (map concat iovs). length x \<le> cap)"
    using assms(5) by induction (auto dest: prefixed_iov_record)
  then have "x \<in> set (map concat iovs) \<Longrightarrow> length x \<le> max_frame" for x using assms(3) by fastforce
  from feed_records [OF assms(1,2) this assms(4), of _ bd sk st] show ?thesis
    using recs assms(6) unfolding feed_chunks_concat by metis
qed

theorem framer_delivers_witness:
  "\<exists>fr'. feed_chunks example_build example_backend 100 example_sink framer_init (Map.empty, []) [[2, 0], [0, 0, 7], [8]] =
      Some (fr', fold (deliver_one example_backend example_sink) [[7, 8]] (Map.empty, []), False) \<and> framer_ready fr'"
  using framer_delivers [where src = null_source and es = 16 and ea = 8 and bk = example_backend and fr = framer_init and cap = 100 and max_frame = 100 and
      iovs = "[[[7], [8]]]" and recs = "[[[2, 0, 0, 0], [7], [8]]]" and ps = "[[2, 0], [0, 0, 7], [8]]"]
  by (simp add: example_backend_def example_alloc_fresh framer_ready_def framer_init_def kPrefixBytes_def prefixed_iov_def
      iov_acquire_def kMaxInlineIov_def store_le_def le_bytes_def upt_rec)

text \<open>
  C37. Feeding ends. From every state the framer can be in between two reads, and for every chunk,
  hostile ones included, the loop returns and leaves such a state, unless it reports the stream
  malformed; every write it made lay inside the segment it had drawn.
\<close>

theorem feed_terminates:
  assumes "alloc_fresh (bk_alloc bk)" and "framer_ok (fst st) fr"
  shows "\<exists>fr' st' m. feed bd bk max_frame sk fr st p = Some (fr', st', m) \<and> (m \<or> framer_ok (fst st') fr')"
  by (rule feed_ends [OF assms])

theorem feed_terminates_witness:
  "\<exists>fr' st' m. feed example_build example_backend 100 example_sink framer_init (Map.empty, []) [200, 1, 0, 0, 9] = Some (fr', st', m)"
  using feed_terminates [where bk = example_backend and st = "(Map.empty, [])" and fr = framer_init and bd = example_build
      and sk = example_sink and max_frame = 100 and p = "[200, 1, 0, 0, 9]"]
  by (auto simp: example_backend_def example_alloc_fresh framer_ok_def framer_init_def kPrefixBytes_def)

lemma framer_reset_ok: "length (fr_prefix fr) = kPrefixBytes \<Longrightarrow> framer_ok s (framer_reset fr)"
  by (simp add: framer_ok_def framer_reset_def kPrefixBytes_def)

end
