(* ===== verification/Ws_Frame.thy ===== *)
theory Ws_Frame
  imports Block_Array
begin

text \<open>
  The WebSocket frame codec of \<^verbatim>\<open>ws.hpp\<close> (RFC 6455): masking, header decoding, decoding a frame in
  place, and the server's and the client's encoders. The lemmas show that the masking done eight
  bytes at a time is the byte-wise one whatever the buffer's alignment, that every encoded frame
  decodes to what was encoded, that decoding a buffer twice gives one answer, and that a verdict on
  a header never changes when more bytes arrive.
\<close>

unbundle bit_operations_syntax

section \<open>Opcodes\<close>

text \<open>A nibble off the wire need not be one of the enumerators.\<close>

datatype opcode_t = CONT | TEXT | BINARY | CLOSE | PING | PONG | RESERVED byte

definition opcode_of :: "byte \<Rightarrow> opcode_t" where
  "opcode_of b =
     (if b = 0 then CONT else if b = 1 then TEXT else if b = 2 then BINARY
      else if b = 8 then CLOSE else if b = 9 then PING else if b = 10 then PONG else RESERVED b)"

primrec opcode_byte :: "opcode_t \<Rightarrow> byte" where
  "opcode_byte CONT = 0"
| "opcode_byte TEXT = 1"
| "opcode_byte BINARY = 2"
| "opcode_byte CLOSE = 8"
| "opcode_byte PING = 9"
| "opcode_byte PONG = 10"
| "opcode_byte (RESERVED b) = b"

definition is_control_opcode :: "opcode_t \<Rightarrow> bool" where
  "is_control_opcode op \<longleftrightarrow> opcode_byte op AND 0x08 \<noteq> 0"

definition is_defined_opcode :: "opcode_t \<Rightarrow> bool" where
  "is_defined_opcode op = (case op of RESERVED b \<Rightarrow> False | _ \<Rightarrow> True)"

definition kMaxControlPayload :: nat where
  "kMaxControlPayload = 125"

section \<open>Masking\<close>

text \<open>The loops over single bytes: byte \<open>i\<close> is combined with byte \<^verbatim>\<open>(phase + i) % 4\<close> of the key.\<close>

primrec mask_bytes :: "bytes \<Rightarrow> nat \<Rightarrow> bytes \<Rightarrow> bytes" where
  "mask_bytes key phase [] = []"
| "mask_bytes key phase (b # bs) = (b XOR key ! (phase mod 4)) # mask_bytes key (Suc phase) bs"

text \<open>
  The aligned loop: eight bytes are copied into a word, combined with the word of the rotated key and
  copied back. Both copies use the host's byte order, so it cancels; little-endian is written here.
\<close>

function mask_words :: "64 word \<Rightarrow> bytes \<Rightarrow> bytes" where
  "mask_words word_key src =
     (if 8 \<le> length src then le_bytes (load_le (take 8 src) XOR word_key) 8 @ mask_words word_key (drop 8 src) else [])"
  by pat_completeness auto
termination by (relation "measure (\<lambda>(word_key, src). length src)") auto

declare mask_words.simps [simp del]

definition rotated :: "bytes \<Rightarrow> nat \<Rightarrow> bytes" where
  "rotated key r =
     [key ! r, key ! ((r + 1) mod 4), key ! ((r + 2) mod 4), key ! ((r + 3) mod 4),
      key ! r, key ! ((r + 1) mod 4), key ! ((r + 2) mod 4), key ! ((r + 3) mod 4)]"

text \<open>\<open>dst\<close> is the address written to; the result is the bytes written and the next phase.\<close>

definition mask_copy :: "nat \<Rightarrow> bytes \<Rightarrow> bytes \<Rightarrow> nat \<Rightarrow> bytes \<times> nat" where
  "mask_copy dst src key phase =
     (let n = length src;
          to_aligned = (8 - dst mod 8) mod 8;
          head = (if to_aligned < n then to_aligned else n);
          word_key = load_le (rotated key ((phase + head) mod 4));
          mid = drop head src;
          words = length mid div 8 * 8
      in (mask_bytes key phase (take head src) @ mask_words word_key mid
            @ mask_bytes key (phase + head + words) (drop words mid),
          phase + n))"

definition xor_mask :: "nat \<Rightarrow> bytes \<Rightarrow> bytes \<Rightarrow> bytes" where
  "xor_mask dst data key = fst (mask_copy dst data key 0)"

section \<open>Decoding\<close>

datatype decode_status_t = OK | NEED_MORE | PROTOCOL_ERROR

record ws_header_t =
  hd_status :: decode_status_t
  hd_op :: opcode_t
  hd_fin :: bool
  hd_masked :: bool
  hd_mask_key :: bytes
  hd_len :: nat
  hd_size :: nat

definition header_init :: ws_header_t where
  "header_init =
     \<lparr>hd_status = NEED_MORE, hd_op = CONT, hd_fin = False, hd_masked = False, hd_mask_key = [0, 0, 0, 0],
      hd_len = 0, hd_size = 2\<rparr>"

definition load_be_loop :: "bytes \<Rightarrow> 64 word" where
  "load_be_loop bs = foldl (\<lambda>len b. push_bit 8 len OR ucast b) 0 bs"

text \<open>The bytes of the extended length the second byte announces, and the length it declares.\<close>

definition ext_len :: "byte \<Rightarrow> nat" where
  "ext_len b1 = (let len7 = b1 AND 0x7F in if len7 < 126 then 0 else if len7 = 126 then 2 else 8)"

definition wire_len :: "byte \<Rightarrow> bytes \<Rightarrow> nat" where
  "wire_len b1 ext = unat (if ext_len b1 \<noteq> 0 then load_be_loop ext else ucast (b1 AND 0x7F) :: 64 word)"

definition decode_header :: "bool \<Rightarrow> nat \<Rightarrow> bytes \<Rightarrow> ws_header_t" where
  "decode_header fail_on_violation max_payload buf =
     (if length buf < 2 then header_init
      else
        let b0 = buf ! 0; b1 = buf ! 1;
            h = header_init\<lparr>hd_fin := (b0 AND 0x80 \<noteq> 0), hd_op := opcode_of (b0 AND 0x0F), hd_masked := (b1 AND 0x80 \<noteq> 0)\<rparr>
        in if fail_on_violation \<and> \<not> is_defined_opcode (hd_op h) then h\<lparr>hd_status := PROTOCOL_ERROR\<rparr>
           else
             let ext = ext_len b1;
                 h = h\<lparr>hd_size := 2 + ext + (if hd_masked h then 4 else 0)\<rparr>
             in if length buf < 2 + ext then h
                else
                  let len = wire_len b1 (subspan 2 ext buf);
                      control_breach = fail_on_violation \<and> is_control_opcode (hd_op h) \<and> (kMaxControlPayload < len \<or> \<not> hd_fin h)
                  in if control_breach \<or> max_payload < len then h\<lparr>hd_status := PROTOCOL_ERROR\<rparr>
                     else if length buf < hd_size h then h
                     else h\<lparr>hd_mask_key := (let n = hd_size h - 2 - ext in subspan (2 + ext) n buf @ drop n (hd_mask_key h)),
                            hd_len := len, hd_status := OK\<rparr>)"

record ws_frame_t =
  fm_op :: opcode_t
  fm_fin :: bool
  fm_payload :: bytes

text \<open>The outcome of one decode; on success the payload is what the span into the buffer shows.\<close>

datatype decode_result_t = Decoded ws_frame_t nat | Need_more | Protocol_error

text \<open>\<open>at\<close> is the address of the buffer; the buffer is returned as the unmasking leaves it.\<close>

definition decode_one :: "bool \<Rightarrow> nat \<Rightarrow> nat \<Rightarrow> bytes \<Rightarrow> decode_result_t \<times> bytes" where
  "decode_one fail_on_violation max_payload at buf =
     (let h = decode_header fail_on_violation max_payload buf
      in case hd_status h of
           NEED_MORE \<Rightarrow> (Need_more, buf)
         | PROTOCOL_ERROR \<Rightarrow> (Protocol_error, buf)
         | OK \<Rightarrow>
             if length buf - hd_size h < hd_len h then (Need_more, buf)
             else
               let payload = subspan (hd_size h) (hd_len h) buf;
                   tail = drop (hd_size h + hd_len h) buf;
                   (payload', buf') =
                     (if hd_masked h then
                        let p = xor_mask (at + hd_size h) payload (hd_mask_key h)
                        in (p, take (hd_size h - 4) buf @ [0, 0, 0, 0] @ p @ tail)
                      else (payload, buf))
               in (Decoded \<lparr>fm_op = hd_op h, fm_fin = hd_fin h, fm_payload = payload'\<rparr> (hd_size h + hd_len h), buf'))"

definition decode_frame_checked :: "nat \<Rightarrow> nat \<Rightarrow> bytes \<Rightarrow> decode_result_t \<times> bytes" where
  "decode_frame_checked max_payload at buf = decode_one True max_payload at buf"

text \<open>\<open>w\<close> is the width of \<^verbatim>\<open>std::size_t\<close>: the tolerant decoder's cap is its largest value.\<close>

definition decode_frame :: "nat \<Rightarrow> nat \<Rightarrow> bytes \<Rightarrow> (ws_frame_t \<times> nat) option \<times> bytes" where
  "decode_frame w at buf =
     (case decode_one False (2 ^ w - 1) at buf of
        (Decoded f consumed, buf') \<Rightarrow> (Some (f, consumed), buf')
      | (_, buf') \<Rightarrow> (None, buf'))"

section \<open>Encoding\<close>

text \<open>The bytes written to the front of \<^verbatim>\<open>out\<close>; their number is the result of the source's function.\<close>

definition len_be8 :: "nat \<Rightarrow> bytes" where
  "len_be8 len = map (\<lambda>i. ucast (drop_bit ((7 - i) * 8) (of_nat len :: 64 word))) [0..<8]"

definition encode_frame_header :: "opcode_t \<Rightarrow> nat \<Rightarrow> bool \<Rightarrow> bytes" where
  "encode_frame_header op len fin =
     ((if fin then 0x80 else 0) OR opcode_byte op) #
     (if len < 126 then [of_nat len]
      else if len \<le> 0xFFFF then [126, of_nat (len div 256 mod 256), of_nat (len mod 256)]
      else 127 # len_be8 len)"

definition try_encode_frame ::
  "'m source_ops \<Rightarrow> bytes_t \<Rightarrow> opcode_t \<Rightarrow> bytes \<Rightarrow> bool \<Rightarrow> 'm \<Rightarrow> bool \<times> bytes_t \<times> 'm" where
  "try_encode_frame src out op payload fin m =
     (let header = encode_frame_header op (length payload) fin;
          fail = (\<lambda>(out, m). (False, ba_clear out, m))
      in case ba_reserve src 1 1 (length header + length payload) (ba_clear out) m of
           (False, out1, m1) \<Rightarrow> fail (out1, m1)
         | (True, out1, m1) \<Rightarrow>
             (case ba_append src 1 1 header out1 m1 of
                (False, out2, m2) \<Rightarrow> fail (out2, m2)
              | (True, out2, m2) \<Rightarrow>
                  (case ba_append src 1 1 payload out2 m2 of
                     (False, out3, m3) \<Rightarrow> fail (out3, m3)
                   | (True, out3, m3) \<Rightarrow> (True, out3, m3))))"

definition encode_server_control :: "opcode_t \<Rightarrow> bytes \<Rightarrow> bytes" where
  "encode_server_control op payload =
     (if kMaxControlPayload < length payload then []
      else encode_frame_header op (length payload) True @ payload)"

definition mask_key_bytes :: "32 word \<Rightarrow> bytes" where
  "mask_key_bytes mask_key =
     [ucast (drop_bit 24 mask_key), ucast (drop_bit 16 mask_key), ucast (drop_bit 8 mask_key), ucast mask_key]"

definition encode_client_control :: "nat \<Rightarrow> opcode_t \<Rightarrow> bytes \<Rightarrow> 32 word \<Rightarrow> bytes" where
  "encode_client_control at op payload mask_key =
     (if kMaxControlPayload < length payload then []
      else
        let mk = mask_key_bytes mask_key
        in [0x80 OR opcode_byte op, 0x80 OR of_nat (length payload)] @ mk @ xor_mask (at + 6) payload mk)"

definition client_frame_bytes :: "nat \<Rightarrow> nat" where
  "client_frame_bytes payload_len =
     (let hlen = (if payload_len < 126 then 2 else if payload_len \<le> 0xFFFF then 4 else 10)
      in hlen + 4 + payload_len)"

text \<open>The parts are masked one after the other, the phase running on from part to part.\<close>

fun mask_parts :: "nat \<Rightarrow> bytes \<Rightarrow> nat \<Rightarrow> bytes list \<Rightarrow> bytes" where
  "mask_parts dst key at [] = []"
| "mask_parts dst key at (part # parts) =
     (let (b, at') = mask_copy (dst + at) part key at in b @ mask_parts dst key at' parts)"

definition put_client_frame :: "nat \<Rightarrow> opcode_t \<Rightarrow> bytes list \<Rightarrow> 32 word \<Rightarrow> bool \<Rightarrow> bytes" where
  "put_client_frame out op parts mask_key fin =
     (let len = sum_list (map length parts);
          head = ((if fin then 0x80 else 0) OR opcode_byte op) #
                 (if len < 126 then [0x80 OR of_nat len]
                  else if len \<le> 0xFFFF then [0x80 OR 126, of_nat (len div 256 mod 256), of_nat (len mod 256)]
                  else (0x80 OR 127) # len_be8 len);
          mk = mask_key_bytes mask_key
      in head @ mk @ mask_parts (out + length (head @ mk)) mk 0 parts)"

text \<open>The frame is written into the reserved block, from its address; \<open>None\<close> when the reserve is refused.\<close>

definition try_encode_client_frame ::
  "'m source_ops \<Rightarrow> bytes_t \<Rightarrow> opcode_t \<Rightarrow> bytes list \<Rightarrow> 32 word \<Rightarrow> bool \<Rightarrow> 'm \<Rightarrow> bytes option \<times> bytes_t \<times> 'm" where
  "try_encode_client_frame src out op parts mask_key fin m =
     (let want = client_frame_bytes (sum_list (map length parts))
      in case ba_reserve src 1 1 want out m of
           (False, out', m') \<Rightarrow> (None, out', m')
         | (True, out', m') \<Rightarrow> (Some (put_client_frame (ba_data out') op parts mask_key fin), out', m'))"

section \<open>Masking is byte-wise\<close>

lemma length_mask_bytes [simp]: "length (mask_bytes key phase src) = length src"
  by (induction src arbitrary: phase) simp_all

lemma mask_bytes_append: "mask_bytes key phase (a @ b) = mask_bytes key phase a @ mask_bytes key (phase + length a) b"
  by (induction a arbitrary: phase) simp_all

lemma mask_bytes_cong: "p mod 4 = q mod 4 \<Longrightarrow> mask_bytes key p src = mask_bytes key q src"
proof (induction src arbitrary: p q)
  case (Cons b src)
  have "Suc p mod 4 = Suc q mod 4" using mod_add_cong [OF Cons.prems refl, of 1] by (simp only: Suc_eq_plus1)
  note ih = Cons.IH [OF this]
  show ?case unfolding mask_bytes.simps ih Cons.prems by (rule refl)
qed simp

lemma mask_bytes_self: "mask_bytes key phase (mask_bytes key phase src) = src"
  by (induction src arbitrary: phase) (simp_all add: xor.assoc)

lemma mask_bytes_zero: "mask_bytes [0, 0, 0, 0] phase src = src"
proof (induction src arbitrary: phase)
  case (Cons b src)
  have "[0, 0, 0, 0] = replicate 4 (0 :: byte)" by (simp add: numeral_eq_Suc)
  moreover have "replicate 4 (0 :: byte) ! (phase mod 4) = 0" by (rule nth_replicate) simp
  ultimately have "[0, 0, 0, 0] ! (phase mod 4) = (0 :: byte)" by (simp only:)
  then show ?case using Cons by simp
qed simp

lemma le_bytes_xor: "le_bytes (x XOR y) n = map2 (XOR) (le_bytes x n) (le_bytes y n)"
  by (rule nth_equalityI) (simp_all add: le_bytes_def drop_bit_xor, rule bit_word_eqI, simp add: bit_simps)

lemma mask_bytes_rotated:
  assumes "length src = 8"
  shows "mask_bytes key phase src = map2 (XOR) src (rotated key (phase mod 4))"
proof (rule nth_equalityI)
  show "length (mask_bytes key phase src) = length (map2 (XOR) src (rotated key (phase mod 4)))"
    using assms by (simp add: rotated_def)
  fix i assume "i < length (mask_bytes key phase src)"
  then have i: "i < 8" using assms by simp
  have nth: "mask_bytes key phase src ! i = src ! i XOR key ! ((phase + i) mod 4)" if "i < length src" for i phase src
    using that by (induction src arbitrary: phase i) (auto simp: nth_Cons split: nat.split)
  have rot: "rotated key (phase mod 4) ! i = key ! ((phase + i) mod 4)"
  proof -
    have "i \<in> {0, 1, 2, 3, 4, 5, 6, 7}" using i by auto
    moreover have per: "(phase + k + 4) mod 4 = (phase + k) mod 4" for k by (rule mod_add_self2)
    moreover have "(phase + 4) mod 4 = phase mod 4" "(phase + 5) mod 4 = (phase + 1) mod 4"
      "(phase + 6) mod 4 = (phase + 2) mod 4" "(phase + 7) mod 4 = (phase + 3) mod 4"
      using per [of 0] per [of 1] per [of 2] per [of 3] by (simp_all add: ac_simps)
    ultimately show ?thesis by (auto simp: rotated_def mod_simps)
  qed
  show "mask_bytes key phase src ! i = map2 (XOR) src (rotated key (phase mod 4)) ! i"
    using i assms nth [of i src phase] rot by (simp add: rotated_def)
qed

lemma mask_words_bytes:
  "mask_words (load_le (rotated key (phase mod 4))) src = mask_bytes key phase (take (length src div 8 * 8) src)"
proof (induction "load_le (rotated key (phase mod 4)) :: 64 word" src rule: mask_words.induct)
  case (1 src)
  show ?case
  proof (cases "8 \<le> length src")
    case True
    have "le_bytes (load_le (take 8 src) XOR load_le (rotated key (phase mod 4)) :: 64 word) 8
        = map2 (XOR) (take 8 src) (rotated key (phase mod 4))"
      using True le_bytes_load_le [of "take 8 src" 8, where 'a = 64] le_bytes_load_le [of "rotated key (phase mod 4)" 8, where 'a = 64]
      by (simp add: le_bytes_xor rotated_def)
    also have "\<dots> = mask_bytes key phase (take 8 src)" using True by (simp add: mask_bytes_rotated)
    finally have first: "le_bytes (load_le (take 8 src) XOR load_le (rotated key (phase mod 4)) :: 64 word) 8 = mask_bytes key phase (take 8 src)" .
    have "mask_bytes key phase xs = mask_bytes key (phase + 8) xs" for xs by (rule mask_bytes_cong) (simp add: mod_add_right_eq [of phase 8 4, symmetric])
    moreover have "take (length src div 8 * 8) src = take 8 src @ take (length (drop 8 src) div 8 * 8) (drop 8 src)"
    proof -
      have "length src div 8 * 8 = 8 + (length src - 8) div 8 * 8" using True by (simp add: le_div_geq)
      then show ?thesis by (simp add: take_add)
    qed
    ultimately show ?thesis using "1.hyps" [OF True] True first
      by (subst mask_words.simps) (simp add: mask_bytes_append)
  next
    case False
    then show ?thesis by (subst mask_words.simps) simp
  qed
qed

lemma mask_copy_bytes: "mask_copy dst src key phase = (mask_bytes key phase src, phase + length src)"
proof -
  define head where "head = (if (8 - dst mod 8) mod 8 < length src then (8 - dst mod 8) mod 8 else length src)"
  define mid where "mid = drop head src"
  have h: "head \<le> length src" by (simp add: head_def)
  have split: "src = take head src @ take (length mid div 8 * 8) mid @ drop (length mid div 8 * 8) mid"
    by (simp only: append_take_drop_id mid_def)
  have "mask_copy dst src key phase =
      (mask_bytes key phase (take head src) @ mask_bytes key (phase + head) (take (length mid div 8 * 8) mid)
        @ mask_bytes key (phase + head + length mid div 8 * 8) (drop (length mid div 8 * 8) mid), phase + length src)"
    unfolding mask_copy_def Let_def head_def [symmetric] mid_def [symmetric] mask_words_bytes by (rule refl)
  also have "mask_bytes key phase (take head src) @ mask_bytes key (phase + head) (take (length mid div 8 * 8) mid)
        @ mask_bytes key (phase + head + length mid div 8 * 8) (drop (length mid div 8 * 8) mid) = mask_bytes key phase src"
    unfolding arg_cong [OF split, of "mask_bytes key phase"] mask_bytes_append
    using h by (simp add: mask_bytes_append min_def mid_def)
  finally show ?thesis .
qed

lemma xor_mask_bytes: "xor_mask dst data key = mask_bytes key 0 data"
  by (simp add: xor_mask_def mask_copy_bytes)

lemma mask_parts_bytes: "mask_parts dst key at parts = mask_bytes key at (concat parts)"
  by (induction parts arbitrary: at) (simp_all add: mask_copy_bytes mask_bytes_append)

section \<open>Big-endian lengths\<close>

lemma load_be_loop_rev: "length bs \<le> 8 \<Longrightarrow> load_be_loop bs = load_le (rev bs)"
proof (induction bs rule: rev_induct)
  case Nil
  then show ?case by (simp add: load_be_loop_def load_le_def)
next
  case (snoc b bs)
  have "push_bit 8 (load_le (rev bs)) OR ucast b = (load_le (b # rev bs) :: 64 word)"
  proof (rule bit_word_eqI)
    fix k assume "k < LENGTH(64)"
    then have k: "k < 64" by simp
    show "bit (push_bit 8 (load_le (rev bs)) OR ucast b :: 64 word) k = bit (load_le (b # rev bs) :: 64 word) k"
    proof (cases "k < 8")
      case True
      then show ?thesis by (simp add: bit_simps bit_load_le)
    next
      case False
      define j where "j = k - 8"
      have j: "k = j + 8" using False by (simp add: j_def)
      have "k div 8 = Suc (j div 8)" "k mod 8 = j mod 8" unfolding j by simp_all
      moreover have "\<not> bit (ucast b :: 64 word) k" using False bit_imp_le_length [of b k] by (auto simp: bit_simps)
      moreover have "j < 8 * length bs \<longleftrightarrow> k < 8 * length (b # rev bs)" unfolding j by simp
      ultimately show ?thesis using k snoc.prems by (simp add: bit_or_iff bit_push_bit_iff bit_load_le min_def j)
    qed
  qed
  then show ?case using snoc by (simp add: load_be_loop_def)
qed

lemma len_be8_rev: "len_be8 len = rev (le_bytes (of_nat len :: 64 word) 8)"
  by (simp add: len_be8_def le_bytes_def upt_rec)

lemma load_len_be8: "len < 2 ^ 64 \<Longrightarrow> unat (load_be_loop (len_be8 len)) = len"
  using unat_load_le_le_bytes [where 'a = 64 and 'b = 64, of 8 len]
  by (simp add: load_be_loop_rev len_be8_rev)

lemma load_len_be2:
  assumes "len \<le> 0xFFFF"
  shows "unat (load_be_loop [of_nat (len div 256 mod 256), of_nat (len mod 256)]) = len"
proof -
  have "unat (ucast (of_nat len :: 64 word) :: byte) = len mod 256"
    using assms by (simp add: unsigned_ucast_eq unat_of_nat_word take_bit_eq_mod)
  then have lo: "ucast (of_nat len :: 64 word) = (of_nat (len mod 256) :: byte)"
    by (simp add: word_unat_eq_iff byte_of_nat_unat)
  have "unat (ucast (drop_bit 8 (of_nat len :: 64 word)) :: byte) = len div 256 mod 256"
    using assms by (simp add: unsigned_ucast_eq unat_drop_bit_eq drop_bit_eq_div unat_of_nat_word take_bit_eq_mod unat_div_distrib)
  then have hi: "ucast (drop_bit 8 (of_nat len :: 64 word)) = (of_nat (len div 256 mod 256) :: byte)"
    by (simp add: word_unat_eq_iff byte_of_nat_unat)
  have "rev [of_nat (len div 256 mod 256), of_nat (len mod 256)] = le_bytes (of_nat len :: 64 word) 2"
    by (simp add: le_bytes_def upt_rec lo hi)
  then show ?thesis
    using unat_load_le_le_bytes [where 'a = 64 and 'b = 64, of 2 len] assms by (simp add: load_be_loop_rev)
qed

section \<open>The shape of a header\<close>

definition header_fits :: "bool \<Rightarrow> nat \<Rightarrow> byte \<Rightarrow> byte \<Rightarrow> bytes \<Rightarrow> bytes \<Rightarrow> bool" where
  "header_fits fail_on_violation max_payload b0 b1 ext key \<longleftrightarrow>
     length ext = ext_len b1 \<and> length key = (if b1 AND 0x80 \<noteq> 0 then 4 else 0) \<and> wire_len b1 ext \<le> max_payload \<and>
     (fail_on_violation \<longrightarrow>
        is_defined_opcode (opcode_of (b0 AND 0x0F)) \<and>
        (is_control_opcode (opcode_of (b0 AND 0x0F)) \<longrightarrow> wire_len b1 ext \<le> kMaxControlPayload \<and> b0 AND 0x80 \<noteq> 0))"

definition header_of :: "byte \<Rightarrow> byte \<Rightarrow> bytes \<Rightarrow> bytes \<Rightarrow> ws_header_t" where
  "header_of b0 b1 ext key =
     \<lparr>hd_status = OK, hd_op = opcode_of (b0 AND 0x0F), hd_fin = (b0 AND 0x80 \<noteq> 0), hd_masked = (b1 AND 0x80 \<noteq> 0),
      hd_mask_key = (if b1 AND 0x80 \<noteq> 0 then key else [0, 0, 0, 0]), hd_len = wire_len b1 ext,
      hd_size = 2 + ext_len b1 + (if b1 AND 0x80 \<noteq> 0 then 4 else 0)\<rparr>"

lemma decode_header_unfold:
  assumes "2 \<le> length buf"
  defines "b0 \<equiv> buf ! 0" and "b1 \<equiv> buf ! 1"
  defines "h \<equiv> header_init\<lparr>hd_fin := (b0 AND 0x80 \<noteq> 0), hd_op := opcode_of (b0 AND 0x0F), hd_masked := (b1 AND 0x80 \<noteq> 0)\<rparr>"
  defines "h' \<equiv> h\<lparr>hd_size := 2 + ext_len b1 + (if b1 AND 0x80 \<noteq> 0 then 4 else 0)\<rparr>"
  shows "decode_header f mp buf =
    (if f \<and> \<not> is_defined_opcode (opcode_of (b0 AND 0x0F)) then h\<lparr>hd_status := PROTOCOL_ERROR\<rparr>
     else if length buf < 2 + ext_len b1 then h'
     else if (f \<and> is_control_opcode (opcode_of (b0 AND 0x0F)) \<and>
                (kMaxControlPayload < wire_len b1 (subspan 2 (ext_len b1) buf) \<or> \<not> b0 AND 0x80 \<noteq> 0)) \<or>
             mp < wire_len b1 (subspan 2 (ext_len b1) buf) then h'\<lparr>hd_status := PROTOCOL_ERROR\<rparr>
     else if length buf < hd_size h' then h'
     else header_of b0 b1 (subspan 2 (ext_len b1) buf) (subspan (2 + ext_len b1) 4 buf))"
proof -
  have n: "\<not> length buf < 2" using assms(1) by simp
  have m: "hd_masked h = (b1 AND 0x80 \<noteq> 0)" "hd_op h = opcode_of (b0 AND 0x0F)" "hd_fin h = (b0 AND 0x80 \<noteq> 0)" by (simp_all add: h_def)
  have m': "hd_op h' = opcode_of (b0 AND 0x0F)" "hd_fin h' = (b0 AND 0x80 \<noteq> 0)" by (simp_all add: h'_def m)
  have fin: "h'\<lparr>hd_mask_key := subspan (2 + ext_len b1) (hd_size h' - 2 - ext_len b1) buf @ drop (hd_size h' - 2 - ext_len b1) (hd_mask_key h'),
      hd_len := wire_len b1 (subspan 2 (ext_len b1) buf), hd_status := OK\<rparr>
    = header_of b0 b1 (subspan 2 (ext_len b1) buf) (subspan (2 + ext_len b1) 4 buf)"
    by (simp add: h'_def h_def header_of_def header_init_def)
  show ?thesis
    unfolding decode_header_def Let_def if_not_P [OF n] b0_def [symmetric] b1_def [symmetric] h_def [symmetric] m h'_def [symmetric] m' fin
    by (rule refl)
qed

lemma decode_header_wire:
  assumes "header_fits f mp b0 b1 ext key"
  shows "decode_header f mp (b0 # b1 # ext @ key @ rest) = header_of b0 b1 ext key"
proof -
  have len: "length ext = ext_len b1" "length key = (if b1 AND 0x80 \<noteq> 0 then 4 else 0)" using assms by (simp_all add: header_fits_def)
  have e: "subspan 2 (ext_len b1) (b0 # b1 # ext @ key @ rest) = ext" using len(1) by (simp add: subspan_def)
  have k: "b1 AND 0x80 \<noteq> 0 \<Longrightarrow> subspan (2 + ext_len b1) 4 (b0 # b1 # ext @ key @ rest) = key" using len by (simp add: subspan_def)
  have "header_of b0 b1 ext (subspan (2 + ext_len b1) 4 (b0 # b1 # ext @ key @ rest)) = header_of b0 b1 ext key"
    using k by (simp add: header_of_def)
  then show ?thesis
    using assms len by (subst decode_header_unfold) (auto simp: e header_fits_def)
qed

lemma decode_header_wireD:
  assumes "hd_status (decode_header f mp buf) = OK"
  obtains b0 b1 ext key rest where "buf = b0 # b1 # ext @ key @ rest" and "header_fits f mp b0 b1 ext key"
proof -
  have two: "2 \<le> length buf"
  proof (rule ccontr)
    assume "\<not> 2 \<le> length buf"
    then show False using assms by (simp add: decode_header_def header_init_def)
  qed
  then obtain b0 b1 r where buf: "buf = b0 # b1 # r" by (metis Suc_le_length_iff numeral_2_eq_2)
  define e where "e = take (ext_len b1) r"
  define n where "n = (if b1 AND 0x80 \<noteq> 0 then 4 else 0 :: nat)"
  have nth: "buf ! 0 = b0" "buf ! 1 = b1" by (simp_all add: buf)
  have s: "subspan 2 (ext_len b1) buf = e" by (simp add: buf e_def subspan_def)
  have c: "\<not> (f \<and> \<not> is_defined_opcode (opcode_of (b0 AND 0x0F)))" "\<not> length buf < 2 + ext_len b1"
    "\<not> ((f \<and> is_control_opcode (opcode_of (b0 AND 0x0F)) \<and> (kMaxControlPayload < wire_len b1 e \<or> \<not> b0 AND 0x80 \<noteq> 0)) \<or> mp < wire_len b1 e)"
    "\<not> length buf < 2 + ext_len b1 + n"
    using assms [unfolded decode_header_unfold [OF two] nth s] by (auto simp: header_init_def n_def split: if_splits)
  have "buf = b0 # b1 # e @ take n (drop (ext_len b1) r) @ drop n (drop (ext_len b1) r)" by (simp only: buf e_def append_take_drop_id)
  moreover have "header_fits f mp b0 b1 e (take n (drop (ext_len b1) r))"
    using c by (auto simp: header_fits_def e_def n_def buf)
  ultimately show ?thesis by (rule that)
qed

section \<open>A verdict stands\<close>

lemma decode_header_append:
  assumes "hd_status (decode_header f mp a) \<noteq> NEED_MORE"
  shows "decode_header f mp (a @ b) = decode_header f mp a"
proof -
  have two: "2 \<le> length a"
  proof (rule ccontr)
    assume "\<not> 2 \<le> length a"
    then show False using assms by (simp add: decode_header_def header_init_def)
  qed
  then have two': "2 \<le> length (a @ b)" by simp
  have nth: "(a @ b) ! 0 = a ! 0" "(a @ b) ! 1 = a ! 1" using two by (auto simp: nth_append)
  have e: "2 + ext_len (a ! 1) \<le> length a \<Longrightarrow> subspan 2 (ext_len (a ! 1)) (a @ b) = subspan 2 (ext_len (a ! 1)) a"
    by (rule subspan_append_left)
  have k: "2 + ext_len (a ! 1) + 4 \<le> length a \<Longrightarrow> subspan (2 + ext_len (a ! 1)) 4 (a @ b) = subspan (2 + ext_len (a ! 1)) 4 a"
    by (rule subspan_append_left) simp
  define h where "h = header_init\<lparr>hd_fin := (a ! 0 AND 0x80 \<noteq> 0), hd_op := opcode_of (a ! 0 AND 0x0F), hd_masked := (a ! 1 AND 0x80 \<noteq> 0)\<rparr>"
  define h' where "h' = h\<lparr>hd_size := 2 + ext_len (a ! 1) + (if a ! 1 AND 0x80 \<noteq> 0 then 4 else 0)\<rparr>"
  have more: "hd_status h' = NEED_MORE" by (simp add: h'_def h_def header_init_def)
  note ua = decode_header_unfold [OF two, of f mp, folded h_def, folded h'_def]
  note ub = decode_header_unfold [OF two', of f mp, unfolded nth, folded h_def, folded h'_def]
  show ?thesis
  proof (cases "f \<and> \<not> is_defined_opcode (opcode_of (a ! 0 AND 0x0F))")
    case True
    show ?thesis unfolding ua ub if_P [OF True] by (rule refl)
  next
    case False
    then have len: "\<not> length a < 2 + ext_len (a ! 1)" using assms more by (auto simp only: ua if_not_P if_P)
    then have len': "\<not> length (a @ b) < 2 + ext_len (a ! 1)" by simp
    have e': "subspan 2 (ext_len (a ! 1)) (a @ b) = subspan 2 (ext_len (a ! 1)) a" using e len by simp
    show ?thesis
    proof (cases "(f \<and> is_control_opcode (opcode_of (a ! 0 AND 0x0F)) \<and>
        (kMaxControlPayload < wire_len (a ! 1) (subspan 2 (ext_len (a ! 1)) a) \<or> \<not> a ! 0 AND 0x80 \<noteq> 0)) \<or>
        mp < wire_len (a ! 1) (subspan 2 (ext_len (a ! 1)) a)")
      case True
      show ?thesis unfolding ua ub e' if_not_P [OF False] if_not_P [OF len] if_not_P [OF len'] if_P [OF True] by (rule refl)
    next
      case breach: False
      then have sz: "\<not> length a < hd_size h'"
        using assms more unfolding ua if_not_P [OF False] if_not_P [OF len] if_not_P [OF breach] by (auto simp only: if_P)
      then have sz': "\<not> length (a @ b) < hd_size h'" by simp
      have "header_of b0 (a ! 1) ext (subspan (2 + ext_len (a ! 1)) 4 (a @ b)) = header_of b0 (a ! 1) ext (subspan (2 + ext_len (a ! 1)) 4 a)" for b0 ext
      proof (cases "a ! 1 AND 0x80 \<noteq> 0")
        case True
        then have "2 + ext_len (a ! 1) + 4 \<le> length a" using sz by (simp add: h'_def)
        from k [OF this] show ?thesis by (simp only:)
      qed (simp add: header_of_def)
      then show ?thesis
        unfolding ua ub e' if_not_P [OF False] if_not_P [OF len] if_not_P [OF len'] if_not_P [OF breach] if_not_P [OF sz] if_not_P [OF sz'] .
    qed
  qed
qed

lemma decode_header_more:
  assumes "hd_status (decode_header f mp a) = NEED_MORE"
  shows "length a < hd_size (decode_header f mp a)"
proof (cases "length a < 2")
  case True
  then show ?thesis by (simp add: decode_header_def header_init_def)
next
  case False
  then have two: "2 \<le> length a" by simp
  define h where "h = header_init\<lparr>hd_fin := (a ! 0 AND 0x80 \<noteq> 0), hd_op := opcode_of (a ! 0 AND 0x0F), hd_masked := (a ! 1 AND 0x80 \<noteq> 0)\<rparr>"
  define h' where "h' = h\<lparr>hd_size := 2 + ext_len (a ! 1) + (if a ! 1 AND 0x80 \<noteq> 0 then 4 else 0)\<rparr>"
  note u = decode_header_unfold [OF two, of f mp, folded h_def, folded h'_def]
  have sz: "2 + ext_len (a ! 1) \<le> hd_size h'" by (simp add: h'_def)
  have "hd_status (header_of b0 b1 ext key) \<noteq> NEED_MORE" for b0 b1 ext key by (simp add: header_of_def)
  then show ?thesis using assms sz unfolding u by (auto split: if_split_asm)
qed

section \<open>Encoded frames decode\<close>

lemma first_byte:
  assumes "is_defined_opcode op"
  shows "((if fin then 0x80 else 0) OR opcode_byte op) AND 0x80 \<noteq> 0 \<longleftrightarrow> fin"
    and "opcode_of (((if fin then 0x80 else 0) OR opcode_byte op) AND 0x0F) = op"
  using assms by (cases op; cases fin; simp add: is_defined_opcode_def opcode_of_def)+

lemma small_len_byte:
  assumes "len < 128"
  shows "(of_nat len :: byte) AND 0x7F = of_nat len" and "(of_nat len :: byte) AND 0x80 = 0"
    and "(0x80 OR of_nat len :: byte) AND 0x7F = of_nat len" and "(0x80 OR of_nat len :: byte) AND 0x80 = 0x80"
proof -
  define x :: byte where "x = of_nat len"
  have "unat (take_bit 7 x) = unat x"
    unfolding unsigned_take_bit_eq using assms by (simp add: x_def byte_of_nat_unat take_bit_nat_eq_self)
  then have "take_bit 7 x = x" by (simp only: word_unat_eq_iff)
  then have low: "bit x n \<Longrightarrow> n < 7" for n by (metis bit_take_bit_iff)
  define h :: byte where "h = push_bit 7 1"
  have m: "(0x7F :: byte) = mask 7" "(0x80 :: byte) = h" by (simp_all add: mask_eq_exp_minus_1 push_bit_eq_mult h_def)
  have one: "bit h n \<longleftrightarrow> n = 7" for n
    by (simp only: h_def bit_push_bit_iff bit_1_iff possible_bit_word) auto
  note bits = bit_and_iff bit_or_iff bit_mask_iff one
  have "x AND mask 7 = x" "x AND h = 0" "(h OR x) AND mask 7 = x" "(h OR x) AND h = h"
    by (rule bit_word_eqI, use low in \<open>auto simp: bits\<close>)+
  then show "(of_nat len :: byte) AND 0x7F = of_nat len" "(of_nat len :: byte) AND 0x80 = 0"
    "(0x80 OR of_nat len :: byte) AND 0x7F = of_nat len" "(0x80 OR of_nat len :: byte) AND 0x80 = 0x80"
    by (simp_all only: m x_def [symmetric])
qed

text \<open>The second byte and the extended length both encoders write; \<open>msk\<close> is the mask bit.\<close>

definition len_field :: "byte \<Rightarrow> nat \<Rightarrow> bytes" where
  "len_field msk len =
     (if len < 126 then [msk OR of_nat len]
      else if len \<le> 0xFFFF then [msk OR 126, of_nat (len div 256 mod 256), of_nat (len mod 256)]
      else (msk OR 127) # len_be8 len)"

lemma len_field_shape:
  assumes "len < 2 ^ 64" and "msk = 0 \<or> msk = 0x80"
  obtains b1 ext where "len_field msk len = b1 # ext" and "length ext = ext_len b1" and "wire_len b1 ext = len" and "b1 AND 0x80 = msk"
proof -
  consider "len < 126" | "126 \<le> len" "len \<le> 0xFFFF" | "0xFFFF < len" by linarith
  then show ?thesis
  proof cases
    case 1
    then have m: "(msk OR of_nat len) AND 0x7F = of_nat len" "(msk OR of_nat len) AND 0x80 = msk"
      using assms(2) small_len_byte [of len] by auto
    have lt: "(of_nat len :: byte) < 126" using 1 by (simp add: word_less_nat_alt byte_of_nat_unat)
    then have e: "ext_len (msk OR of_nat len) = 0" by (simp add: ext_len_def m)
    have "wire_len (msk OR of_nat len) [] = len" using 1 by (simp add: wire_len_def e m unsigned_ucast_eq byte_of_nat_unat take_bit_nat_eq_self)
    then show ?thesis using that [of "msk OR of_nat len" "[]"] 1 e m(2) by (simp add: len_field_def)
  next
    case 2
    then have m: "(msk OR 126) AND 0x7F = 126" "(msk OR 126) AND 0x80 = msk" using assms(2) by auto
    then have e: "ext_len (msk OR 126) = 2" by (simp add: ext_len_def)
    show ?thesis
      using that [of "msk OR 126" "[of_nat (len div 256 mod 256), of_nat (len mod 256)]"] 2 e m(2) load_len_be2 [of len]
      by (simp add: len_field_def wire_len_def)
  next
    case 3
    then have m: "(msk OR 127) AND 0x7F = 127" "(msk OR 127) AND 0x80 = msk" using assms(2) by auto
    then have e: "ext_len (msk OR 127) = 8" by (simp add: ext_len_def)
    show ?thesis
      using that [of "msk OR 127" "len_be8 len"] 3 e m(2) load_len_be8 [of len] assms(1)
      by (simp add: len_field_def wire_len_def) (simp add: len_be8_def)
  qed
qed

definition frame_allowed :: "opcode_t \<Rightarrow> bool \<Rightarrow> nat \<Rightarrow> nat \<Rightarrow> bool" where
  "frame_allowed op fin len max_payload \<longleftrightarrow>
     is_defined_opcode op \<and> len \<le> max_payload \<and> len < 2 ^ 64 \<and> (is_control_opcode op \<longrightarrow> len \<le> kMaxControlPayload \<and> fin)"

lemma encoded_header:
  assumes "frame_allowed op fin len mp" and "msk = 0 \<and> key = [] \<or> msk = 0x80 \<and> length key = 4"
  shows "decode_header f mp ((((if fin then 0x80 else 0) OR opcode_byte op) # len_field msk len) @ key @ rest) =
    \<lparr>hd_status = OK, hd_op = op, hd_fin = fin, hd_masked = (msk \<noteq> 0), hd_mask_key = (if msk \<noteq> 0 then key else [0, 0, 0, 0]),
     hd_len = len, hd_size = 1 + length (len_field msk len) + length key\<rparr>"
proof -
  define b0 where "b0 = (if fin then 0x80 else 0) OR opcode_byte op"
  note fa = assms(1) [unfolded frame_allowed_def]
  have op: "is_defined_opcode op" using fa by simp
  have b0: "(b0 AND 0x80 \<noteq> 0) = fin" "opcode_of (b0 AND 0x0F) = op"
    unfolding b0_def using first_byte [OF op] by blast+
  obtain b1 ext where l: "len_field msk len = b1 # ext" "length ext = ext_len b1" "wire_len b1 ext = len" "b1 AND 0x80 = msk"
    by (rule len_field_shape [of len msk]) (use fa assms(2) in auto)
  have "header_fits f mp b0 b1 ext key" unfolding header_fits_def b0 l using fa assms(2) by auto
  then have "decode_header f mp (b0 # b1 # ext @ key @ rest) = header_of b0 b1 ext key" by (rule decode_header_wire)
  moreover have "(b0 # len_field msk len) @ key @ rest = b0 # b1 # ext @ key @ rest" by (simp add: l)
  ultimately show ?thesis unfolding b0_def [symmetric] using assms(2) by (auto simp: header_of_def b0 l)
qed

lemma length_mask_key_bytes [simp]: "length (mask_key_bytes k) = 4"
  by (simp add: mask_key_bytes_def)

lemma put_client_frame_shape:
  "put_client_frame out op parts mask_key fin =
     (((if fin then 0x80 else 0) OR opcode_byte op) # len_field 0x80 (length (concat parts))) @ mask_key_bytes mask_key
       @ mask_bytes (mask_key_bytes mask_key) 0 (concat parts)"
  by (simp add: put_client_frame_def len_field_def Let_def mask_parts_bytes length_concat)

lemma server_frame_shape:
  "encode_frame_header op len fin = ((if fin then 0x80 else 0) OR opcode_byte op) # len_field 0 len"
  by (simp add: encode_frame_header_def len_field_def)

lemma decode_client:
  assumes "frame_allowed op fin (length payload) mp"
    and "wire = (((if fin then 0x80 else 0) OR opcode_byte op) # len_field 0x80 (length payload)) @ key @ mask_bytes key 0 payload"
    and "length key = 4"
  shows "decode_one f mp at (wire @ rest) =
    (Decoded \<lparr>fm_op = op, fm_fin = fin, fm_payload = payload\<rparr> (length wire),
     (((if fin then 0x80 else 0) OR opcode_byte op) # len_field 0x80 (length payload)) @ [0, 0, 0, 0] @ payload @ rest)"
proof -
  define hd where "hd = ((if fin then 0x80 else 0) OR opcode_byte op) # len_field 0x80 (length payload)"
  define body where "body = mask_bytes key 0 payload"
  have b: "length body = length payload" by (simp add: body_def)
  have w: "wire @ rest = hd @ key @ body @ rest" by (simp add: assms(2) hd_def body_def)
  have h: "decode_header f mp (wire @ rest) =
      \<lparr>hd_status = OK, hd_op = op, hd_fin = fin, hd_masked = True, hd_mask_key = key, hd_len = length payload, hd_size = length hd + 4\<rparr>"
    unfolding w hd_def using encoded_header [OF assms(1), of "0x80" key f "body @ rest"] assms(3) by simp
  have p: "subspan (length hd + 4) (length payload) (wire @ rest) = body"
    unfolding w using b assms(3) by (simp add: subspan_def)
  have t: "take (length hd) (wire @ rest) = hd" "drop (length hd + 4 + length payload) (wire @ rest) = rest"
    unfolding w using b assms(3) by simp_all
  have l: "length (wire @ rest) - (length hd + 4) = length payload + length rest" "length wire = length hd + 4 + length payload"
    using b assms(3) by (simp_all add: assms(2) hd_def body_def)
  have x: "xor_mask a body key = payload" for a by (simp add: xor_mask_bytes body_def mask_bytes_self)
  show ?thesis
    unfolding hd_def [symmetric] decode_one_def h Let_def
    using t(1) by (simp add: p t(2) l x)
qed

lemma decode_server:
  assumes "frame_allowed op fin (length payload) mp"
  shows "decode_one f mp at (encode_frame_header op (length payload) fin @ payload @ rest) =
    (Decoded \<lparr>fm_op = op, fm_fin = fin, fm_payload = payload\<rparr> (length (encode_frame_header op (length payload) fin @ payload)),
     encode_frame_header op (length payload) fin @ payload @ rest)"
proof -
  define hd where "hd = encode_frame_header op (length payload) fin"
  have h: "decode_header f mp (hd @ payload @ rest) =
      \<lparr>hd_status = OK, hd_op = op, hd_fin = fin, hd_masked = False, hd_mask_key = [0, 0, 0, 0], hd_len = length payload, hd_size = length hd\<rparr>"
    unfolding hd_def server_frame_shape using encoded_header [OF assms, of 0 "[]" f "payload @ rest"] by simp
  show ?thesis unfolding hd_def [symmetric] decode_one_def h Let_def by (simp add: subspan_def)
qed

lemma decode_one_again:
  assumes "decode_one f mp at buf = (Decoded fr n, buf')"
  shows "decode_one f mp at buf' = (Decoded fr n, buf')" and "length buf' = length buf" and "drop n buf' = drop n buf"
proof -
  have ok: "hd_status (decode_header f mp buf) = OK"
    using assms by (auto simp: decode_one_def Let_def split: decode_status_t.splits)
  from decode_header_wireD [OF ok] obtain b0 b1 ext key rest where
    buf: "buf = b0 # b1 # ext @ key @ rest" and fits: "header_fits f mp b0 b1 ext key" by metis
  have len: "length ext = ext_len b1" "length key = (if b1 AND 0x80 \<noteq> 0 then 4 else 0)" using fits by (simp_all add: header_fits_def)
  note h = decode_header_wire [OF fits, of rest, folded buf]
  show "decode_one f mp at buf' = (Decoded fr n, buf')" "length buf' = length buf" "drop n buf' = drop n buf"
  proof (atomize (full), cases "b1 AND 0x80 \<noteq> 0")
    case False
    then have "buf' = buf" using assms unfolding decode_one_def h Let_def by (simp add: header_of_def split: if_splits)
    then show "decode_one f mp at buf' = (Decoded fr n, buf') \<and> length buf' = length buf \<and> drop n buf' = drop n buf" using assms by simp
  next
    case True
    define L where "L = wire_len b1 ext"
    define sz where "sz = 2 + ext_len b1 + 4"
    have sz4: "sz - 4 = 2 + ext_len b1" by (simp add: sz_def)
    define p where "p = xor_mask (at + (sz)) (take L rest) key"
    have len': "length ext = ext_len b1" "length key = 4" using len True by simp_all
    have d: "drop (sz) (b0 # b1 # ext @ k @ r) = r" if "length k = 4" for k r
    proof -
      have "length (b0 # b1 # ext @ k) = sz" using that len' by (simp add: sz_def)
      then show ?thesis by (metis append_Cons append_assoc append_eq_conv_conj)
    qed
    then have d': "drop (sz + n) (b0 # b1 # ext @ k @ r) = drop n r" if "length k = 4" for k r n
      using that by (metis add.commute drop_drop)
    have pl: "subspan (sz) L buf = take L rest" "drop (sz + L) buf = drop L rest"
      "take (2 + ext_len b1) buf = b0 # b1 # ext" "length buf - (sz) = length rest"
      unfolding subspan_def buf d [OF len'(2)] d' [OF len'(2)] using len' by (simp_all add: sz_def)
    have tk: "take (sz - 4) buf = b0 # b1 # ext" unfolding sz4 by (rule pl(3))
    have hdr: "header_of b0 b1 ext k = \<lparr>hd_status = OK, hd_op = opcode_of (b0 AND 0x0F), hd_fin = (b0 AND 0x80 \<noteq> 0), hd_masked = True,
        hd_mask_key = k, hd_len = L, hd_size = sz\<rparr>" for k
      using True by (simp add: header_of_def L_def sz_def)
    have r: "\<not> length rest < L" "fr = \<lparr>fm_op = opcode_of (b0 AND 0x0F), fm_fin = (b0 AND 0x80 \<noteq> 0), fm_payload = p\<rparr>"
      "n = sz + L" "buf' = b0 # b1 # ext @ [0, 0, 0, 0] @ p @ drop L rest"
      using assms unfolding decode_one_def h hdr Let_def by (auto simp: pl tk p_def split: if_splits)
    have lp: "length p = L" using r(1) by (simp add: p_def xor_mask_bytes)
    have fits': "header_fits f mp b0 b1 ext [0, 0, 0, 0]" using fits True by (simp add: header_fits_def)
    have h': "decode_header f mp buf' = header_of b0 b1 ext [0, 0, 0, 0]"
      unfolding r(4) by (rule decode_header_wire [OF fits'])
    have pl': "subspan (sz) L buf' = p" "drop (sz + L) buf' = drop L rest"
      "take (2 + ext_len b1) buf' = b0 # b1 # ext" "length buf' - (sz) = L + (length rest - L)"
      unfolding subspan_def r(4) using d [of "[0, 0, 0, 0]" "p @ drop L rest"] d' [of "[0, 0, 0, 0]" L "p @ drop L rest"] len' lp by (simp_all add: sz_def)
    have tk': "take (sz - 4) buf' = b0 # b1 # ext" unfolding sz4 by (rule pl'(3))
    have same: "take (sz - 4) buf' @ [0, 0, 0, 0] @ p @ drop (sz + L) buf' = buf'"
      unfolding tk' pl'(2) by (simp add: r(4))
    have "decode_one f mp at buf' = (Decoded fr n, buf')"
      unfolding decode_one_def h' hdr Let_def using r(1-3) same by (simp add: pl'(1,4) xor_mask_bytes mask_bytes_zero)
    then show "decode_one f mp at buf' = (Decoded fr n, buf') \<and> length buf' = length buf \<and> drop n buf' = drop n buf"
      using r lp len' pl pl' by (simp add: buf)
  qed
qed

section \<open>Properties\<close>



text \<open>
  C39. Decoding in place can be repeated. A decode unmasks the payload where it lies and zeroes the
  key; decoding the buffer it leaves gives the same frame and leaves the buffer as it is, and no byte
  past the frame is touched.
\<close>

theorem ws_decode_repeats:
  assumes "decode_one strict max_payload at buf = (Decoded fr n, buf')"
  shows "decode_one strict max_payload at buf' = (Decoded fr n, buf') \<and> length buf' = length buf \<and> drop n buf' = drop n buf"
  using decode_one_again [OF assms] by simp

theorem ws_decode_repeats_witness:
  "decode_one True 100 0 [0x81, 0x81, 0, 0, 0, 0, 4, 7] = (Decoded \<lparr>fm_op = TEXT, fm_fin = True, fm_payload = [4]\<rparr> 7, [0x81, 0x81, 0, 0, 0, 0, 4, 7])"
proof -
  have "decode_one True 100 0 [0x81, 0x81, 1, 2, 3, 4, 5, 7] =
      (Decoded \<lparr>fm_op = TEXT, fm_fin = True, fm_payload = [4]\<rparr> 7, [0x81, 0x81, 0, 0, 0, 0, 4, 7])"
    by (simp add: decode_one_def decode_header_def header_init_def Let_def opcode_of_def is_defined_opcode_def is_control_opcode_def
        ext_len_def wire_len_def kMaxControlPayload_def subspan_def xor_mask_bytes)
  then show ?thesis by (rule ws_decode_repeats [THEN conjunct1])
qed

text \<open>
  C40. Masking eight bytes at a time is masking byte by byte. For every source, key, phase and address
  of the destination, the copy with an unaligned head, whole words of the rotated key and a tail writes
  what combining byte \<open>i\<close> with key byte \<open>(phase + i) mod 4\<close> gives, and returns the phase after it.
\<close>

theorem ws_mask_bytewise: "mask_copy dst src key phase = (mask_bytes key phase src, phase + length src)"
  by (rule mask_copy_bytes)

text \<open>
  A verdict on a header stands. Once the decoder has accepted or refused the bytes at the front of
  a stream, no byte that follows changes the answer; until then it reports a size it has not yet got.
\<close>

theorem ws_verdict_stands:
  "(hd_status (decode_header strict max_payload a) \<noteq> NEED_MORE \<longrightarrow> decode_header strict max_payload (a @ b) = decode_header strict max_payload a) \<and>
   (hd_status (decode_header strict max_payload a) = NEED_MORE \<longrightarrow> length a < hd_size (decode_header strict max_payload a))"
  using decode_header_append decode_header_more by blast

theorem ws_verdict_stands_witness:
  "decode_header True 100 ([0x83, 0] @ [1, 2]) = decode_header True 100 [0x83, 0]"
  using ws_verdict_stands [of True 100 "[0x83, 0]" "[1, 2]"]
  by (simp add: decode_header_def header_init_def Let_def opcode_of_def is_defined_opcode_def)

lemma server_control_decodes:
  assumes "is_defined_opcode op" and "length payload \<le> kMaxControlPayload" and "kMaxControlPayload \<le> max_payload"
  shows "fst (decode_one strict max_payload at (encode_server_control op payload @ rest)) =
    Decoded \<lparr>fm_op = op, fm_fin = True, fm_payload = payload\<rparr> (length (encode_server_control op payload))"
proof -
  have "frame_allowed op True (length payload) max_payload" using assms by (simp add: frame_allowed_def kMaxControlPayload_def)
  from decode_server [OF this, of strict at rest] show ?thesis using assms(2) by (simp add: encode_server_control_def)
qed

lemma client_control_decodes:
  assumes "is_defined_opcode op" and "length payload \<le> kMaxControlPayload" and "kMaxControlPayload \<le> max_payload"
  shows "fst (decode_one strict max_payload at (encode_client_control out op payload mask_key @ rest)) =
    Decoded \<lparr>fm_op = op, fm_fin = True, fm_payload = payload\<rparr> (length (encode_client_control out op payload mask_key))"
proof -
  have "frame_allowed op True (length payload) max_payload" using assms by (simp add: frame_allowed_def kMaxControlPayload_def)
  moreover have "encode_client_control out op payload mask_key =
      (((if True then 0x80 else 0) OR opcode_byte op) # len_field 0x80 (length payload)) @ mask_key_bytes mask_key
        @ mask_bytes (mask_key_bytes mask_key) 0 payload"
    using assms(2) by (simp add: encode_client_control_def len_field_def kMaxControlPayload_def xor_mask_bytes Let_def)
  ultimately show ?thesis using decode_client [of op True payload max_payload] by simp
qed

lemma client_frame_bytes_length:
  "length (put_client_frame out op parts mask_key fin) = client_frame_bytes (length (concat parts))"
  by (simp add: put_client_frame_shape client_frame_bytes_def len_field_def len_be8_def)

lemma try_encode_frame_spec:
  assumes "try_encode_frame src out op payload fin m = (ok, out', m')"
  shows "ba_elems out' = (if ok then encode_frame_header op (length payload) fin @ payload else [])"
  using assms
  by (auto simp: try_encode_frame_def Let_def ba_clear_def split: prod.splits bool.splits dest!: ba_reserve_spec ba_append_spec)

end
