(* ===== verification/Plain_Tlv.thy ===== *)
theory Plain_Tlv
  imports Codec
begin

text \<open>
  Trees without trailers, which is what the library's own builders write: a leaf of bytes and a group
  of children. The lemmas give the bytes of such a tree in the emitters' terms and what the reader
  shows of them, so that a builder and a parser of one message can be related.
\<close>

section \<open>Leaves and groups\<close>

definition leaf :: "type_t \<Rightarrow> bytes \<Rightarrow> tlv_t" where
  "leaf t b = Tlv t opt_zero b [] None"

definition group :: "type_t \<Rightarrow> tlv_t list \<Rightarrow> tlv_t" where
  "group t cs = Tlv t (opt_zero\<lparr>opt_pl := True\<rparr>) [] cs None"

lemma opt_zero_simps [simp]:
  "opt_pl opt_zero = False" "opt_ts opt_zero = False" "opt_cr opt_zero = False" "opt_ll opt_zero = False"
  "opt_cw opt_zero = False" "opt_tf opt_zero = False"
  by (simp_all add: opt_zero_def)

lemma leaf_image: "tlv_image (leaf t b) = header_image t (opt_zero\<lparr>opt_ll := (length b > 0xFFFF)\<rparr>) (length b) @ b"
proof -
  have "widen opt_zero (length b) = opt_zero\<lparr>opt_ll := (length b > 0xFFFF)\<rparr>" by (simp add: widen_def opt_zero_def)
  then show ?thesis by (simp add: leaf_def wire_image_def stamp_image_def crc_image_def)
qed

lemma group_image:
  "tlv_image (group t cs) =
     header_image t (opt_zero\<lparr>opt_pl := True, opt_ll := (length (children_image cs) > 0xFFFF)\<rparr>) (length (children_image cs)) @ children_image cs"
proof -
  have "widen (opt_zero\<lparr>opt_pl := True\<rparr>) n = opt_zero\<lparr>opt_pl := True, opt_ll := (n > 0xFFFF)\<rparr>" for n
    by (simp add: widen_def opt_zero_def)
  then show ?thesis by (simp add: group_def wire_image_def stamp_image_def crc_image_def)
qed

lemma emit_tlv_vec_leaf: "emit_tlv_vec out t opt_zero b = out @ tlv_image (leaf t b)"
proof -
  have "without_trailer opt_zero = opt_zero" by (simp add: without_trailer_def opt_zero_def)
  then have "emit_tlv_vec out t opt_zero b = out @ header_image t (widen opt_zero (length b)) (length b) @ b"
    by (simp add: emit_tlv_vec_def Let_def emit_header_vec_image widen_def)
  then show ?thesis by (simp add: leaf_def wire_image_def stamp_image_def crc_image_def)
qed

lemma length_leaf_image: "length (tlv_image (leaf t b)) = (if length b > 0xFFFF then 6 else 4) + length b"
  by (simp add: leaf_image header_bytes_def)

lemma length_group_image:
  "length (tlv_image (group t cs)) = (if length (children_image cs) > 0xFFFF then 6 else 4) + length (children_image cs)"
  by (simp add: group_image header_bytes_def)

lemma children_image_append: "children_image (xs @ ys) = children_image xs @ children_image ys"
  by (induction xs) simp_all

lemma children_bytes_all: "children_bytes cs \<noteq> None \<longleftrightarrow> (\<forall>c \<in> set cs. tlv_bytes c \<noteq> None)"
  by (induction cs) (auto split: option.splits)

lemma tlvs_typed_all: "tlvs_typed cs \<longleftrightarrow> (\<forall>c \<in> set cs. tlv_typed c)"
  by (induction cs) simp_all

lemma tlvs_depth_le: "(\<And>c. c \<in> set cs \<Longrightarrow> tlv_depth c \<le> n) \<Longrightarrow> tlvs_depth cs \<le> n"
  by (induction cs) simp_all

lemma leaf_bytes: "\<not> is_path_ref_type t \<Longrightarrow> tlv_bytes (leaf t b) \<noteq> None"
  by (simp add: leaf_def body_bytes_of_def ts_incoherent_def)

lemma group_bytes: "\<not> is_path_ref_type t \<Longrightarrow> (\<And>c. c \<in> set cs \<Longrightarrow> tlv_bytes c \<noteq> None) \<Longrightarrow> tlv_bytes (group t cs) \<noteq> None"
  using children_bytes_all [of cs] by (auto simp: group_def body_bytes_of_def ts_incoherent_def split: option.splits)

lemma leaf_typed: "tlv_typed (leaf t b) \<longleftrightarrow> t \<noteq> 0"
  by (simp add: leaf_def)

lemma group_typed: "tlv_typed (group t cs) \<longleftrightarrow> t \<noteq> 0 \<and> (\<forall>c \<in> set cs. tlv_typed c)"
  by (simp add: group_def tlvs_typed_all)

lemma leaf_depth: "tlv_depth (leaf t b) = 0"
  by (simp add: leaf_def)

lemma group_depth: "tlv_depth (group t cs) = Suc (tlvs_depth cs)"
  by (simp add: group_def)

lemmas plain_simps = leaf_typed group_typed leaf_depth group_depth

section \<open>Reading them\<close>

definition image_node :: "tlv_t \<Rightarrow> tlv_node_t" where
  "image_node v = tree_node (image_tree v)"

lemma image_node_leaf [simp]:
  "nd_type (image_node (leaf t b)) = t" "node_payload (image_node (leaf t b)) = b" "node_body (image_node (leaf t b)) = b"
proof -
  show "nd_type (image_node (leaf t b)) = t" by (simp add: image_node_def leaf_def tree_node_def node_of_def image_header_def)
  show body: "node_body (image_node (leaf t b)) = b"
    by (simp add: image_node_def leaf_def tree_node_def node_of_def image_header_def node_body_def wire_image_def stamp_image_def
        crc_image_def subspan_def ts_size_of_def crc_size_of_def)
  have "\<not> opt_pl (nd_opt (image_node (leaf t b)))"
    by (simp add: image_node_def leaf_def tree_node_def node_of_def image_header_def widen_def)
  then show "node_payload (image_node (leaf t b)) = b" using body by (simp add: node_payload_def)
qed

lemma image_node_group [simp]:
  "nd_type (image_node (group t cs)) = t" "opt_pl (nd_opt (image_node (group t cs)))" "node_payload (image_node (group t cs)) = []"
  by (simp_all add: image_node_def group_def tree_node_def node_of_def image_header_def widen_def node_payload_def Let_def)

lemma image_node_children:
  assumes "target_ok tgt" and "tlv_bytes (group t cs) \<noteq> None" and "tlv_typed (group t cs)" and "length (tlv_image (group t cs)) < 2 ^ 32"
  shows "children_visit tgt (children_begin tgt (image_node (group t cs))) = Some (map image_node cs)"
proof -
  have "(2 :: nat) ^ 32 \<le> 2 ^ size_bits tgt" using assms(1) by (intro power_increasing) (simp_all add: target_ok_def)
  then have "length (tlv_image (group t cs)) < 2 ^ size_bits tgt" using assms(4) by linarith
  from children_visit_tree [OF assms(1) this parse_image [OF assms(2-4)]] show ?thesis
    by (simp add: image_node_def group_def comp_def Let_def)
qed

lemma over_image:
  assumes "target_ok tgt" and "tlv_bytes v \<noteq> None" and "tlv_typed v" and "length (tlv_image v) < 2 ^ 32" and "tlv_depth v \<le> 8"
  shows "over tgt src (tlv_image v) m = Some (Inr (image_node v), m)"
proof -
  have "(2 :: nat) ^ 32 \<le> 2 ^ size_bits tgt" using assms(1) by (intro power_increasing) (simp_all add: target_ok_def)
  then have len: "length (tlv_image v) < 2 ^ size_bits tgt" using assms(4) by linarith
  note p = parse_image [OF assms(2-4)]
  have "frame_events VERIFY (tlv_image v) = (tree_events (image_tree v), None)"
    using frame_events_parse [of VERIFY "tlv_image v"] p by simp
  from over_inline [OF assms(1) len this, of src m] show ?thesis
    using assms(5) p by (simp add: event_depth_tree_0 image_tree_depth image_node_def tree_node_def image_tree_bytes)
qed

end
