(* ===== verification/Acl.thy ===== *)
theory Acl
  imports Plain_Tlv Status
begin

text \<open>
  Access control, from \<^verbatim>\<open>acl_ace.hpp\<close> and \<^verbatim>\<open>security_acl.hpp\<close>: the access-control entries (ACEs), the
  two evaluation policies, the owning table and the merge of a vertex's list with its ancestors', and
  the strict parser and the builder of the wire form. A subject token is the bytes its view shows. The
  lemmas show that the parser stores only what the evaluator honours and reads back what the builder
  wrote, that one pass over the merge is the walk over the separate lists, and that a missing clock
  never grants what a clock would refuse.
\<close>

unbundle bit_operations_syntax

section \<open>Entries\<close>

definition ascii :: "string \<Rightarrow> bytes" where
  "ascii s = map of_char s"

datatype ace_type_t = ACE_ALLOW | ACE_DENY

abbreviation RIGHT_READ :: "32 word" where "RIGHT_READ \<equiv> 0x01"
abbreviation RIGHT_WRITE :: "32 word" where "RIGHT_WRITE \<equiv> 0x02"

definition kAceRights :: "32 word" where
  "kAceRights = 0x03"

definition kAceInherit :: byte where
  "kAceInherit = 0x1"

record ace_t =
  ace_type :: ace_type_t
  ace_flags :: byte
  ace_subject :: bytes
  ace_mask :: "32 word"
  ace_expires :: "64 word"

definition kAceNowUnknown :: "64 word" where
  "kAceNowUnknown = NOT 0"

section \<open>Evaluation\<close>

datatype acl_verdict_t = V_ALLOW | V_DENY | V_NO_MATCH

definition kEveryoneSubject :: bytes where
  "kEveryoneSubject = ascii ''EVERYONE@''"

definition is_reserved_subject :: "bytes \<Rightarrow> bool" where
  "is_reserved_subject subject \<longleftrightarrow> subject = kEveryoneSubject"

definition ace_applies :: "ace_t \<Rightarrow> bytes \<Rightarrow> 32 word \<Rightarrow> 64 word \<Rightarrow> byte \<Rightarrow> bool" where
  "ace_applies ace subject b now required_flags \<longleftrightarrow>
     (if ace_flags ace AND required_flags \<noteq> required_flags then False
      else if ace_mask ace AND b = 0 then False
      else if ace_expires ace \<noteq> 0 \<and> ace_expires ace \<le> now \<and> (now \<noteq> kAceNowUnknown \<or> ace_type ace \<noteq> ACE_DENY) then False
      else if is_reserved_subject (ace_subject ace) then True
      else ace_subject ace = subject)"

text \<open>A policy is what its struct is: whether it accepts DENY at parse time, and its evaluation.\<close>

record acl_policy_t =
  kAcceptsDeny :: bool
  policy_allows :: "bytes \<Rightarrow> 32 word \<Rightarrow> ace_t list \<Rightarrow> 64 word \<Rightarrow> byte \<Rightarrow> acl_verdict_t"

fun allow_only_loop :: "bytes \<Rightarrow> 32 word \<Rightarrow> ace_t list \<Rightarrow> 64 word \<Rightarrow> byte \<Rightarrow> acl_verdict_t" where
  "allow_only_loop subject b [] now required_flags = V_NO_MATCH"
| "allow_only_loop subject b (ace # aces) now required_flags =
     (if ace_applies ace subject b now required_flags then V_ALLOW
      else allow_only_loop subject b aces now required_flags)"

definition allow_only_allows :: "bytes \<Rightarrow> 32 word \<Rightarrow> ace_t list \<Rightarrow> 64 word \<Rightarrow> byte \<Rightarrow> acl_verdict_t" where
  "allow_only_allows subject b aces now required_flags =
     (if is_reserved_subject subject then V_NO_MATCH else allow_only_loop subject b aces now required_flags)"

fun full_acl_loop :: "bytes \<Rightarrow> 32 word \<Rightarrow> ace_t list \<Rightarrow> 64 word \<Rightarrow> byte \<Rightarrow> acl_verdict_t" where
  "full_acl_loop subject b [] now required_flags = V_NO_MATCH"
| "full_acl_loop subject b (ace # aces) now required_flags =
     (if \<not> ace_applies ace subject b now required_flags then full_acl_loop subject b aces now required_flags
      else if ace_type ace = ACE_DENY then V_DENY else V_ALLOW)"

definition full_acl_allows :: "bytes \<Rightarrow> 32 word \<Rightarrow> ace_t list \<Rightarrow> 64 word \<Rightarrow> byte \<Rightarrow> acl_verdict_t" where
  "full_acl_allows subject b aces now required_flags =
     (if is_reserved_subject subject then V_NO_MATCH else full_acl_loop subject b aces now required_flags)"

definition allow_only_policy :: acl_policy_t where
  "allow_only_policy = \<lparr>kAcceptsDeny = False, policy_allows = allow_only_allows\<rparr>"

definition full_acl_policy :: acl_policy_t where
  "full_acl_policy = \<lparr>kAcceptsDeny = True, policy_allows = full_acl_allows\<rparr>"

section \<open>The owning table and the merge\<close>

text \<open>
  The table's block holds the entries and, behind them, the subject bytes they view; the block's
  elements are the entries. \<open>es\<close> and \<open>ea\<close> are the size and alignment of \<^verbatim>\<open>ace_t\<close>.
\<close>

type_synonym ace_table_t = "ace_t block_array_t"

definition carries :: "byte \<Rightarrow> ace_t \<Rightarrow> bool" where
  "carries required_flags a \<longleftrightarrow> ace_flags a AND required_flags = required_flags"

definition table_append ::
  "'m source_ops \<Rightarrow> nat \<Rightarrow> nat \<Rightarrow> ace_table_t \<Rightarrow> ace_t list \<Rightarrow> byte \<Rightarrow> 'm \<Rightarrow> bool \<times> ace_table_t \<times> 'm" where
  "table_append src es ea tb from_aces required_flags m =
     (let added = filter (carries required_flags) from_aces;
          n = ba_size tb + length added;
          text_len = sum_list (map (\<lambda>a. length (ace_subject a)) (ba_elems tb)) + sum_list (map (\<lambda>a. length (ace_subject a)) added)
      in if n = ba_size tb then (True, tb, m)
         else
           case ba_reserve src es ea (n + (text_len + es - 1) div es) ba_empty m of
             (False, nxt, m') \<Rightarrow> (False, tb, m')
           | (True, nxt, m') \<Rightarrow> (True, nxt\<lparr>ba_elems := ba_elems tb @ added\<rparr>, ba_destroy src es ea tb m'))"

definition append_own_aces ::
  "'m source_ops \<Rightarrow> nat \<Rightarrow> nat \<Rightarrow> ace_table_t \<Rightarrow> ace_t list \<Rightarrow> 'm \<Rightarrow> bool \<times> ace_table_t \<times> 'm" where
  "append_own_aces src es ea merged aces m = table_append src es ea merged aces 0 m"

definition append_ancestor ::
  "'m source_ops \<Rightarrow> nat \<Rightarrow> nat \<Rightarrow> ace_table_t \<Rightarrow> ace_t list \<Rightarrow> 'm \<Rightarrow> bool \<times> ace_table_t \<times> 'm" where
  "append_ancestor src es ea merged aces m = table_append src es ea merged aces kAceInherit m"

definition effective_allows :: "acl_policy_t \<Rightarrow> ace_t list \<Rightarrow> bytes \<Rightarrow> 32 word \<Rightarrow> 64 word \<Rightarrow> byte \<Rightarrow> bool" where
  "effective_allows pol merged subject b now required_flags =
     (case policy_allows pol subject b merged now required_flags of
        V_ALLOW \<Rightarrow> True
      | V_DENY \<Rightarrow> False
      | V_NO_MATCH \<Rightarrow>
          if required_flags = 0 then merged = []
          else \<not> list_ex (\<lambda>a. ace_flags a AND required_flags = required_flags) merged)"

section \<open>Parsing\<close>

definition ace_field_ok :: "bytes \<Rightarrow> nat option \<Rightarrow> bool" where
  "ace_field_ok payload width \<longleftrightarrow> payload \<noteq> [] \<and> (case width of None \<Rightarrow> True | Some w \<Rightarrow> length payload \<le> w)"

text \<open>The keys in slot order; the opaque subject has no width.\<close>

definition kAceKeys :: "(bytes \<times> nat option) list" where
  "kAceKeys =
     [(ascii ''type'', Some 1), (ascii ''flags'', Some 1), (ascii ''subject'', None),
      (ascii ''access_mask'', Some 4), (ascii ''expires_ns'', Some 8)]"

abbreviation kAceType :: nat where "kAceType \<equiv> 0"
abbreviation kAceFlags :: nat where "kAceFlags \<equiv> 1"
abbreviation kAceSubject :: nat where "kAceSubject \<equiv> 2"
abbreviation kAceMask :: nat where "kAceMask \<equiv> 3"
abbreviation kAceExpires :: nat where "kAceExpires \<equiv> 4"

definition kAceRequired :: "32 word" where
  "kAceRequired = push_bit kAceType 1 OR push_bit kAceSubject 1 OR push_bit kAceMask 1"

fun key_slot :: "bytes \<Rightarrow> (bytes \<times> nat option) list \<Rightarrow> nat" where
  "key_slot k [] = 0"
| "key_slot k ((n, w) # rows) = (if n = k then 0 else Suc (key_slot k rows))"

text \<open>The walk over the children of one entry, a (key, value) pair at a time.\<close>

fun ace_pairs :: "tlv_node_t list \<Rightarrow> 32 word \<Rightarrow> bytes list \<Rightarrow> status_t + (32 word \<times> bytes list)" where
  "ace_pairs [] seen raw = Inr (seen, raw)"
| "ace_pairs [key] seen raw = Inl S_TYPE_MISMATCH"
| "ace_pairs (key # val # rest) seen raw =
     (if nd_type key \<noteq> NAME then Inl S_TYPE_MISMATCH
      else
        let k = key_slot (node_payload key) kAceKeys
        in if k = length kAceKeys then Inl S_TYPE_MISMATCH
           else
             let width = snd (kAceKeys ! k)
             in if seen AND push_bit k 1 \<noteq> 0 \<or> (nd_type val \<noteq> VALUE \<and> width \<noteq> None) \<or> \<not> ace_field_ok (node_payload val) width
                then Inl S_TYPE_MISMATCH
                else ace_pairs rest (seen OR push_bit k 1) (raw[k := node_payload val]))"

definition ace_build :: "acl_policy_t \<Rightarrow> 32 word \<Rightarrow> bytes list \<Rightarrow> status_t + ace_t" where
  "ace_build pol seen raw =
     (let type = (load_le (raw ! kAceType) :: 64 word);
          flags = (load_le (raw ! kAceFlags) :: 64 word);
          msk = (load_le (raw ! kAceMask) :: 64 word)
      in if seen AND kAceRequired \<noteq> kAceRequired \<or> (if kAcceptsDeny pol then 1 else 0) < type \<or>
            (flags AND NOT (ucast kAceInherit)) OR (msk AND NOT (ucast kAceRights)) \<noteq> 0
         then Inl S_TYPE_MISMATCH
         else Inr \<lparr>ace_type = (if type = 1 then ACE_DENY else ACE_ALLOW), ace_flags = ucast flags, ace_subject = raw ! kAceSubject,
                   ace_mask = ucast msk, ace_expires = load_le (raw ! kAceExpires)\<rparr>)"

text \<open>\<open>None\<close> would be a walk over children that does not return.\<close>

definition ace_entry :: "target \<Rightarrow> acl_policy_t \<Rightarrow> tlv_node_t \<Rightarrow> (status_t + ace_t) option" where
  "ace_entry tgt pol entry =
     (if nd_type entry \<noteq> ACL \<or> \<not> opt_pl (nd_opt entry) then Some (Inl S_TYPE_MISMATCH)
      else
        case children_visit tgt (children_begin tgt entry) of
          None \<Rightarrow> None
        | Some ch \<Rightarrow>
            Some (case ace_pairs ch 0 (replicate (length kAceKeys) []) of
                    Inl e \<Rightarrow> Inl e
                  | Inr (seen, raw) \<Rightarrow> ace_build pol seen raw))"

text \<open>The slots were reserved, so no append is refused.\<close>

fun ace_entries ::
  "'m source_ops \<Rightarrow> nat \<Rightarrow> nat \<Rightarrow> target \<Rightarrow> acl_policy_t \<Rightarrow> tlv_node_t list \<Rightarrow> ace_table_t \<Rightarrow> 'm \<Rightarrow>
    (status_t option \<times> ace_table_t \<times> 'm) option" where
  "ace_entries src es ea tgt pol [] out m = Some (None, out, m)"
| "ace_entries src es ea tgt pol (entry # rest) out m =
     (case ace_entry tgt pol entry of
        None \<Rightarrow> None
      | Some (Inl e) \<Rightarrow> Some (Some e, out, m)
      | Some (Inr a) \<Rightarrow> (case ba_push_back src es ea a out m of (_, out', m') \<Rightarrow> ace_entries src es ea tgt pol rest out' m'))"

definition parse_acl ::
  "'m source_ops \<Rightarrow> nat \<Rightarrow> nat \<Rightarrow> target \<Rightarrow> acl_policy_t \<Rightarrow> tlv_node_t \<Rightarrow> ace_table_t \<Rightarrow> 'm \<Rightarrow>
    (status_t option \<times> ace_table_t \<times> 'm) option" where
  "parse_acl src es ea tgt pol acl out m =
     (case children_visit tgt (children_begin tgt acl) of
        None \<Rightarrow> None
      | Some entries \<Rightarrow>
          (case ba_reserve src es ea (length entries) (ba_clear out) m of
             (False, out', m') \<Rightarrow> Some (Some S_BACKPRESSURE, out', m')
           | (True, out', m') \<Rightarrow>
               (case ace_entries src es ea tgt pol entries out' m' of
                  None \<Rightarrow> None
                | Some (None, out'', m'') \<Rightarrow> Some (None, out'', m'')
                | Some (Some e, out'', m'') \<Rightarrow> Some (Some e, ba_clear out'', m''))))"

section \<open>Building\<close>

definition pair_bytes :: "nat \<Rightarrow> nat \<Rightarrow> nat" where
  "pair_bytes key_len value_len =
     header_bytes opt_zero + key_len + header_bytes (opt_zero\<lparr>opt_ll := (value_len > 0xFFFF)\<rparr>) + value_len"

definition ace_entry_bytes :: "ace_t \<Rightarrow> nat" where
  "ace_entry_bytes ace =
     pair_bytes 4 1 + pair_bytes 5 1 + pair_bytes 7 (length (ace_subject ace)) + pair_bytes 11 4
       + (if ace_expires ace \<noteq> 0 then pair_bytes 10 8 else 0)"

text \<open>Sequencing of steps that may refuse: the \<^verbatim>\<open>&&\<close> chain.\<close>

definition and_then ::
  "('s \<Rightarrow> bool \<times> 's) \<Rightarrow> ('s \<Rightarrow> bool \<times> 's) \<Rightarrow> 's \<Rightarrow> bool \<times> 's" where
  "and_then f g s = (case f s of (False, s') \<Rightarrow> (False, s') | (True, s') \<Rightarrow> g s')"

definition put_u :: "'m source_ops \<Rightarrow> bytes \<Rightarrow> 64 word \<Rightarrow> nat \<Rightarrow> bytes_t \<times> 'm \<Rightarrow> bool \<times> bytes_t \<times> 'm" where
  "put_u src key v width =
     and_then (\<lambda>(out, m). emit_name src key out m)
       (\<lambda>(out, m). emit_tlv src VALUE opt_zero (take width (store_le (replicate 8 0) v width)) out m)"

definition put_ace :: "'m source_ops \<Rightarrow> ace_t \<Rightarrow> bytes_t \<times> 'm \<Rightarrow> bool \<times> bytes_t \<times> 'm" where
  "put_ace src ace =
     (let entry = ace_entry_bytes ace
      in and_then (\<lambda>(out, m). emit_header src ACL (opt_zero\<lparr>opt_pl := True, opt_ll := (entry > 0xFFFF)\<rparr>) entry out m)
           (and_then (put_u src (ascii ''type'') (case ace_type ace of ACE_ALLOW \<Rightarrow> 0 | ACE_DENY \<Rightarrow> 1) 1)
             (and_then (put_u src (ascii ''flags'') (ucast (ace_flags ace)) 1)
               (and_then (\<lambda>(out, m). emit_name src (ascii ''subject'') out m)
                 (and_then (\<lambda>(out, m). emit_tlv src VALUE opt_zero (ace_subject ace) out m)
                   (and_then (put_u src (ascii ''access_mask'') (ucast (ace_mask ace)) 4)
                     (\<lambda>s. if ace_expires ace = 0 then (True, s) else put_u src (ascii ''expires_ns'') (ace_expires ace) 8 s)))))))"

fun put_aces :: "'m source_ops \<Rightarrow> ace_t list \<Rightarrow> bytes_t \<times> 'm \<Rightarrow> bool \<times> bytes_t \<times> 'm" where
  "put_aces src [] s = (True, s)"
| "put_aces src (ace # aces) s = and_then (put_ace src ace) (put_aces src aces) s"

definition acl_body_bytes :: "ace_t list \<Rightarrow> nat" where
  "acl_body_bytes aces =
     sum_list (map (\<lambda>ace. let entry = ace_entry_bytes ace in header_bytes (opt_zero\<lparr>opt_ll := (entry > 0xFFFF)\<rparr>) + entry) aces)"

definition encode_acl :: "'m source_ops \<Rightarrow> ace_t list \<Rightarrow> bytes_t \<Rightarrow> 'm \<Rightarrow> bool \<times> bytes_t \<times> 'm" where
  "encode_acl src aces out m =
     (let body = acl_body_bytes aces
      in case bytes_reserve src (ba_size out + header_bytes (opt_zero\<lparr>opt_ll := (body > 0xFFFF)\<rparr>) + body) out m of
           (False, out', m') \<Rightarrow> (False, out', m')
         | (True, out', m') \<Rightarrow>
             and_then (\<lambda>(out, m). emit_header src ACL (opt_zero\<lparr>opt_pl := True, opt_ll := (body > 0xFFFF)\<rparr>) body out m)
               (put_aces src aces) (out', m'))"

section \<open>Evaluation without a clock\<close>

definition storable :: "acl_policy_t \<Rightarrow> ace_t \<Rightarrow> bool" where
  "storable pol a \<longleftrightarrow>
     (ace_type a = ACE_DENY \<longrightarrow> kAcceptsDeny pol) \<and> ace_flags a AND NOT kAceInherit = 0 \<and>
     ace_mask a AND NOT kAceRights = 0 \<and> ace_subject a \<noteq> []"

lemma le_unknown: "t \<le> kAceNowUnknown"
  by (simp add: kAceNowUnknown_def)

lemma allow_without_clock:
  "ace_applies a subject b kAceNowUnknown rf \<Longrightarrow> ace_type a = ACE_ALLOW \<Longrightarrow> ace_applies a subject b now rf"
  using le_unknown by (auto simp: ace_applies_def split: if_splits)

lemma deny_without_clock:
  "ace_applies a subject b now rf \<Longrightarrow> ace_type a = ACE_DENY \<Longrightarrow> ace_applies a subject b kAceNowUnknown rf"
  by (auto simp: ace_applies_def split: if_splits)

lemma not_deny [simp]: "t \<noteq> ACE_DENY \<longleftrightarrow> t = ACE_ALLOW"
  by (cases t) simp_all

lemma full_without_clock:
  "full_acl_loop subject b aces kAceNowUnknown rf = V_ALLOW \<Longrightarrow> full_acl_loop subject b aces now rf = V_ALLOW"
proof (induction aces)
  case (Cons a aces)
  show ?case
  proof (cases "ace_applies a subject b kAceNowUnknown rf")
    case True
    then have "ace_type a = ACE_ALLOW" using Cons.prems by (cases "ace_type a") simp_all
    then show ?thesis using allow_without_clock [OF True] by simp
  next
    case False
    then have "full_acl_loop subject b aces now rf = V_ALLOW" using Cons by simp
    moreover have "ace_applies a subject b now rf \<Longrightarrow> ace_type a = ACE_ALLOW"
      using False deny_without_clock by (cases "ace_type a") blast+
    ultimately show ?thesis by auto
  qed
qed simp

lemma allow_only_without_clock:
  "list_all (\<lambda>a. ace_type a = ACE_ALLOW) aces \<Longrightarrow> allow_only_loop subject b aces kAceNowUnknown rf = V_ALLOW \<Longrightarrow>
   allow_only_loop subject b aces now rf = V_ALLOW"
  by (induction aces) (auto dest: allow_without_clock split: if_splits)

lemma allow_only_verdict: "allow_only_loop subject b aces now rf \<noteq> V_DENY"
  by (induction aces) simp_all

lemma nothing_applies:
  assumes "if rf = 0 then aces = [] else \<not> list_ex (\<lambda>a. ace_flags a AND rf = rf) aces"
  shows "allow_only_loop subject b aces now rf = V_NO_MATCH" and "full_acl_loop subject b aces now rf = V_NO_MATCH"
proof -
  have "a \<in> set aces \<Longrightarrow> \<not> ace_applies a subject b now rf" for a
    using assms by (auto simp: ace_applies_def list_ex_iff split: if_splits)
  then show "allow_only_loop subject b aces now rf = V_NO_MATCH" "full_acl_loop subject b aces now rf = V_NO_MATCH"
    by (induction aces) simp_all
qed

section \<open>One pass over the merge\<close>

text \<open>The specification: the lists one by one, own first, the first verdict deciding.\<close>

fun lists_verdict :: "acl_policy_t \<Rightarrow> bytes \<Rightarrow> 32 word \<Rightarrow> 64 word \<Rightarrow> (ace_t list \<times> byte) list \<Rightarrow> acl_verdict_t" where
  "lists_verdict pol subject b now [] = V_NO_MATCH"
| "lists_verdict pol subject b now ((aces, rf) # rest) =
     (case policy_allows pol subject b aces now rf of V_NO_MATCH \<Rightarrow> lists_verdict pol subject b now rest | v \<Rightarrow> v)"

definition lists_allow :: "acl_policy_t \<Rightarrow> bytes \<Rightarrow> 32 word \<Rightarrow> 64 word \<Rightarrow> ace_t list \<Rightarrow> ace_t list list \<Rightarrow> bool" where
  "lists_allow pol subject b now own ancestors =
     (case lists_verdict pol subject b now ((own, 0) # map (\<lambda>aces. (aces, kAceInherit)) ancestors) of
        V_ALLOW \<Rightarrow> True
      | V_DENY \<Rightarrow> False
      | V_NO_MATCH \<Rightarrow> own = [] \<and> list_all (\<lambda>aces. \<not> list_ex (carries kAceInherit) aces) ancestors)"

definition effective :: "ace_t list \<Rightarrow> ace_t list list \<Rightarrow> ace_t list" where
  "effective own ancestors = own @ concat (map (filter (carries kAceInherit)) ancestors)"

lemma applies_carried: "carries rf a \<Longrightarrow> ace_applies a subject b now 0 = ace_applies a subject b now rf"
  by (simp add: ace_applies_def carries_def)

lemma applies_not_carried: "\<not> carries rf a \<Longrightarrow> \<not> ace_applies a subject b now rf"
  by (simp add: ace_applies_def carries_def)

lemma loop_append:
  "full_acl_loop subject b (xs @ ys) now rf =
     (case full_acl_loop subject b xs now rf of V_NO_MATCH \<Rightarrow> full_acl_loop subject b ys now rf | v \<Rightarrow> v)"
  "allow_only_loop subject b (xs @ ys) now rf =
     (case allow_only_loop subject b xs now rf of V_NO_MATCH \<Rightarrow> allow_only_loop subject b ys now rf | v \<Rightarrow> v)"
  by (induction xs) simp_all

lemma loop_filter:
  "full_acl_loop subject b (filter (carries rf) xs) now 0 = full_acl_loop subject b xs now rf"
  "allow_only_loop subject b (filter (carries rf) xs) now 0 = allow_only_loop subject b xs now rf"
  by (induction xs) (simp_all add: applies_carried applies_not_carried)

text \<open>What the two policies share: a verdict composes over concatenation and over the flag filter.\<close>

locale list_policy =
  fixes pol :: acl_policy_t
  assumes allows_nil: "policy_allows pol subject b [] now rf = V_NO_MATCH"
    and allows_append: "policy_allows pol subject b (xs @ ys) now rf =
      (case policy_allows pol subject b xs now rf of V_NO_MATCH \<Rightarrow> policy_allows pol subject b ys now rf | v \<Rightarrow> v)"
    and allows_filter: "policy_allows pol subject b (filter (carries rf) xs) now 0 = policy_allows pol subject b xs now rf"
begin

lemma lists_verdict_concat:
  "lists_verdict pol subject b now (map (\<lambda>aces. (aces, rf)) ls)
    = policy_allows pol subject b (concat (map (filter (carries rf)) ls)) now 0"
  by (induction ls) (simp_all add: allows_nil allows_append allows_filter split: acl_verdict_t.split)

lemma merge_is_walk: "effective_allows pol (effective own ancestors) subject b now 0 = lists_allow pol subject b now own ancestors"
proof -
  have "concat (map (filter (carries kAceInherit)) ancestors) = [] \<longleftrightarrow> list_all (\<lambda>aces. \<not> list_ex (carries kAceInherit) aces) ancestors"
    by (auto simp: list_all_iff list_ex_iff filter_empty_conv)
  then show ?thesis
    by (simp add: effective_allows_def lists_allow_def effective_def allows_append lists_verdict_concat split: acl_verdict_t.split)
qed

lemma filter_in_place: "effective_allows pol aces subject b now rf = effective_allows pol (filter (carries rf) aces) subject b now 0"
proof -
  have "(if rf = 0 then aces = [] else \<not> list_ex (\<lambda>a. ace_flags a AND rf = rf) aces) = (filter (carries rf) aces = [])"
    by (cases "rf = 0") (auto simp: carries_def list_ex_iff filter_empty_conv)
  then show ?thesis unfolding effective_allows_def allows_filter by (simp only: if_True refl)
qed

end

interpretation full_pol: list_policy full_acl_policy
  by unfold_locales (simp_all add: full_acl_policy_def full_acl_allows_def loop_append loop_filter split: acl_verdict_t.split)

interpretation allow_pol: list_policy allow_only_policy
  by unfold_locales (simp_all add: allow_only_policy_def allow_only_allows_def loop_append loop_filter split: acl_verdict_t.split)

lemma table_append_spec:
  assumes "table_append src es ea tb aces rf m = (ok, tb', m')"
  shows "ba_elems tb' = (if ok then ba_elems tb @ filter (carries rf) aces else ba_elems tb)"
  using assms by (auto simp: table_append_def Let_def filter_empty_conv split: if_splits prod.splits bool.splits)

lemma filter_carries_0: "filter (carries 0) aces = aces"
  by (simp add: carries_def)

fun append_ancestors ::
  "'m source_ops \<Rightarrow> nat \<Rightarrow> nat \<Rightarrow> ace_table_t \<Rightarrow> ace_t list list \<Rightarrow> 'm \<Rightarrow> bool \<times> ace_table_t \<times> 'm" where
  "append_ancestors src es ea tb [] m = (True, tb, m)"
| "append_ancestors src es ea tb (aces # rest) m =
     (case append_ancestor src es ea tb aces m of
        (False, tb', m') \<Rightarrow> (False, tb', m')
      | (True, tb', m') \<Rightarrow> append_ancestors src es ea tb' rest m')"

lemma append_ancestors_spec:
  "append_ancestors src es ea tb ls m = (True, tb', m') \<Longrightarrow>
   ba_elems tb' = ba_elems tb @ concat (map (filter (carries kAceInherit)) ls)"
proof (induction ls arbitrary: tb m)
  case (Cons aces ls)
  obtain ok tb1 m1 where r: "append_ancestor src es ea tb aces m = (ok, tb1, m1)" by (metis prod_cases3)
  then have ok: "ok" "append_ancestors src es ea tb1 ls m1 = (True, tb', m')" using Cons.prems by (auto split: bool.splits)
  show ?case using Cons.IH [OF ok(2)] table_append_spec [OF r [unfolded append_ancestor_def]] ok(1) by simp
qed simp

section \<open>What the parser stores\<close>

definition raw_ok :: "32 word \<Rightarrow> bytes list \<Rightarrow> bool" where
  "raw_ok seen raw \<longleftrightarrow>
     length raw = 5 \<and>
     (\<forall>k < 5. if bit seen k then ace_field_ok (raw ! k) (snd (kAceKeys ! k)) else raw ! k = [])"

lemma length_kAceKeys [simp]: "length kAceKeys = 5"
  by (simp add: kAceKeys_def)

lemma key_slot_le: "key_slot k rows \<le> length rows"
  by (induction k rows rule: key_slot.induct) simp_all

lemma bit_or_exp: "bit (seen OR 2 ^ k :: 'a::len word) j \<longleftrightarrow> bit seen j \<or> (j = k \<and> k < LENGTH('a))"
  by (auto simp: bit_or_iff bit_exp_iff)

lemma ace_pairs_ok:
  "ace_pairs ch seen raw = Inr (seen', raw') \<Longrightarrow> raw_ok seen raw \<Longrightarrow> raw_ok seen' raw'"
proof (induction ch seen raw rule: ace_pairs.induct)
  case (3 key val rest seen raw)
  define k where "k = key_slot (node_payload key) kAceKeys"
  define width where "width = snd (kAceKeys ! k)"
  from "3.prems"(1) have c: "nd_type key = NAME" "k \<noteq> length kAceKeys" "ace_field_ok (node_payload val) width"
    and rec: "ace_pairs rest (seen OR push_bit k 1) (raw[k := node_payload val]) = Inr (seen', raw')"
    and neg: "\<not> (seen AND push_bit k 1 \<noteq> 0 \<or> (nd_type val \<noteq> VALUE \<and> width \<noteq> None) \<or> \<not> ace_field_ok (node_payload val) width)"
    by (auto simp: Let_def k_def width_def split: if_splits)
  have k5: "k < 5" using c(2) key_slot_le [of "node_payload key" kAceKeys] by (simp add: k_def)
  have len: "length raw = 5" using "3.prems"(2) by (simp add: raw_ok_def)
  have "raw_ok (seen OR push_bit k 1) (raw[k := node_payload val])"
    using "3.prems"(2) c(3) k5 len by (auto simp: raw_ok_def bit_or_exp width_def nth_list_update)
  with "3.IH" [OF _ k_def _ width_def] c(1,2) neg rec show ?case by blast
qed simp_all

lemma raw_ok_init: "raw_ok 0 (replicate 5 [])"
  by (simp add: raw_ok_def)

lemma required_bits: "seen AND kAceRequired = kAceRequired \<Longrightarrow> bit seen kAceSubject"
proof -
  assume "seen AND kAceRequired = kAceRequired"
  then have "bit (seen AND kAceRequired) kAceSubject = bit kAceRequired kAceSubject" by simp
  moreover have "bit kAceRequired kAceSubject" by (simp add: kAceRequired_def bit_or_iff)
  ultimately show ?thesis by (simp add: bit_and_iff)
qed

lemma ucast_and_not_zero:
  fixes f :: "64 word" and c :: "'a::len word"
  assumes "f AND NOT (ucast c) = 0"
  shows "(ucast f :: 'a word) AND NOT c = 0"
proof (rule bit_word_eqI)
  fix n assume n: "n < LENGTH('a)"
  have "bit f n \<Longrightarrow> bit (ucast c :: 64 word) n"
  proof -
    assume f: "bit f n"
    then have "n < 64" using bit_imp_le_length [of f n] by simp
    then have "bit (f AND NOT (ucast c)) n \<longleftrightarrow> \<not> bit (ucast c :: 64 word) n" using f by (simp add: bit_and_iff bit_not_iff)
    then show ?thesis by (simp add: assms)
  qed
  then show "bit ((ucast f :: 'a word) AND NOT c) n = bit (0 :: 'a word) n"
    using n by (auto simp: bit_and_iff bit_not_iff bit_ucast_iff)
qed

lemma ace_build_storable:
  assumes "ace_build pol seen raw = Inr a" and "raw_ok seen raw"
  shows "storable pol a"
proof -
  define flags where "flags = (load_le (raw ! kAceFlags) :: 64 word)"
  define msk where "msk = (load_le (raw ! kAceMask) :: 64 word)"
  define type where "type = (load_le (raw ! kAceType) :: 64 word)"
  have c: "seen AND kAceRequired = kAceRequired" "\<not> (if kAcceptsDeny pol then 1 else 0) < type"
    "(flags AND NOT (ucast kAceInherit)) OR (msk AND NOT (ucast kAceRights)) = 0"
    and a: "a = \<lparr>ace_type = (if type = 1 then ACE_DENY else ACE_ALLOW), ace_flags = ucast flags, ace_subject = raw ! kAceSubject,
                   ace_mask = ucast msk, ace_expires = load_le (raw ! kAceExpires)\<rparr>"
    using assms(1) by (simp_all add: ace_build_def Let_def flags_def msk_def type_def split: if_splits)
  have z: "flags AND NOT (ucast kAceInherit) = 0" "msk AND NOT (ucast kAceRights) = 0" using c(3) by (simp_all add: or_eq_0_iff)
  have "raw ! kAceSubject \<noteq> []"
    using assms(2) required_bits [OF c(1)] by (auto simp: raw_ok_def ace_field_ok_def dest: spec [of _ 2])
  moreover have "type = 1 \<Longrightarrow> kAcceptsDeny pol" using c(2) by (auto split: if_splits)
  ultimately show ?thesis
    using ucast_and_not_zero [OF z(1)] ucast_and_not_zero [OF z(2)] by (simp add: storable_def a)
qed

lemma ace_entry_storable: "ace_entry tgt pol entry = Some (Inr a) \<Longrightarrow> storable pol a"
  by (auto simp: ace_entry_def split: if_splits option.splits sum.splits
      intro: ace_build_storable dest!: ace_pairs_ok [OF _ raw_ok_init])

lemma ace_entries_storable:
  "ace_entries src es ea tgt pol entries out m = Some (r, out', m') \<Longrightarrow> list_all (storable pol) (ba_elems out) \<Longrightarrow>
   list_all (storable pol) (ba_elems out')"
proof (induction entries arbitrary: out m)
  case (Cons e entries)
  show ?case
  proof (cases "ace_entry tgt pol e")
    case (Some x)
    show ?thesis
    proof (cases x)
      case (Inl st)
      then show ?thesis using Cons.prems Some by simp
    next
      case (Inr a)
      obtain ok out1 m1 where p: "ba_push_back src es ea a out m = (ok, out1, m1)" by (metis prod_cases3)
      have "list_all (storable pol) (ba_elems out1)"
        using ba_push_back_spec [OF p] Cons.prems(2) ace_entry_storable [OF Some [unfolded Inr]] by (cases ok) simp_all
      then show ?thesis using Cons.IH [of out1 m1] Cons.prems(1) Some Inr p by simp
    qed
  qed (use Cons.prems in simp)
qed simp

lemma parse_acl_storable:
  assumes "parse_acl src es ea tgt pol acl out m = Some (r, out', m')"
  shows "list_all (storable pol) (ba_elems out') \<and> (r \<noteq> None \<longrightarrow> ba_elems out' = [])"
  using assms
  by (auto simp: parse_acl_def ba_clear_def split: option.splits prod.splits bool.splits
      dest!: ace_entries_storable ba_reserve_spec)

section \<open>What the builder writes\<close>

text \<open>A step that appends the given bytes, asking the source for nothing, wherever they fit.\<close>

definition fills :: "(bytes_t \<times> 'm \<Rightarrow> bool \<times> bytes_t \<times> 'm) \<Rightarrow> bytes \<Rightarrow> bool" where
  "fills f b \<longleftrightarrow>
     (\<forall>out m. ba_size out + length b \<le> ba_cap out \<longrightarrow> f (out, m) = (True, out\<lparr>ba_elems := ba_elems out @ b\<rparr>, m))"

lemma fills_and_then: "fills f a \<Longrightarrow> fills g b \<Longrightarrow> fills (and_then f g) (a @ b)"
  by (simp add: fills_def and_then_def)

lemma fills_emit_tlv: "fills (\<lambda>(out, m). emit_tlv src t opt_zero b out m) (tlv_image (leaf t b))"
proof -
  have "without_trailer opt_zero = opt_zero" by (simp add: without_trailer_def opt_zero_def)
  moreover have "tlv_image (leaf t b) = header_image t (widen opt_zero (length b)) (length b) @ b"
    by (simp add: leaf_def wire_image_def stamp_image_def crc_image_def)
  ultimately show ?thesis
    by (auto simp: fills_def emit_tlv_def Let_def emit_header_image ba_reserve_def array_simps widen_def)
qed

lemma fills_emit_name: "fills (\<lambda>(out, m). emit_name src b out m) (tlv_image (leaf NAME b))"
  using fills_emit_tlv [of src NAME b] by (simp add: emit_name_def)

lemma fills_emit_header: "fills (\<lambda>(out, m). emit_header src t opt n out m) (header_image t opt n)"
  by (simp add: fills_def emit_header_image array_simps)

definition u_bytes :: "64 word \<Rightarrow> nat \<Rightarrow> bytes" where
  "u_bytes v width = take width (store_le (replicate 8 0) v width)"

lemma fills_put_u: "fills (put_u src key v width) (tlv_image (leaf NAME key) @ tlv_image (leaf VALUE (u_bytes v width)))"
  unfolding put_u_def u_bytes_def by (intro fills_and_then fills_emit_name fills_emit_tlv)

definition type_word :: "ace_t \<Rightarrow> 64 word" where
  "type_word a = (case ace_type a of ACE_ALLOW \<Rightarrow> 0 | ACE_DENY \<Rightarrow> 1)"

definition ace_kids :: "ace_t \<Rightarrow> tlv_t list" where
  "ace_kids a =
     [leaf NAME (ascii ''type''), leaf VALUE (u_bytes (type_word a) 1),
      leaf NAME (ascii ''flags''), leaf VALUE (u_bytes (ucast (ace_flags a)) 1),
      leaf NAME (ascii ''subject''), leaf VALUE (ace_subject a),
      leaf NAME (ascii ''access_mask''), leaf VALUE (u_bytes (ucast (ace_mask a)) 4)]
     @ (if ace_expires a = 0 then [] else [leaf NAME (ascii ''expires_ns''), leaf VALUE (u_bytes (ace_expires a) 8)])"

definition ace_tlv :: "ace_t \<Rightarrow> tlv_t" where
  "ace_tlv a = group ACL (ace_kids a)"

definition acl_tlv :: "ace_t list \<Rightarrow> tlv_t" where
  "acl_tlv aces = group ACL (map ace_tlv aces)"

lemma length_u_bytes: "width \<le> 8 \<Longrightarrow> length (u_bytes v width) = width"
  by (simp add: u_bytes_def store_le_def)

lemma length_ascii [simp]: "length (ascii s) = length s"
  by (simp add: ascii_def)

lemma ace_entry_bytes_image: "ace_entry_bytes a = length (children_image (ace_kids a))"
  by (simp add: ace_entry_bytes_def pair_bytes_def ace_kids_def length_leaf_image length_u_bytes header_bytes_def)

lemma fills_optional: "fills f b \<Longrightarrow> fills (\<lambda>s. if c then (True, s) else f s) (if c then [] else b)"
  by (simp add: fills_def)

lemma fills_put_ace: "fills (put_ace src a) (tlv_image (ace_tlv a))"
proof -
  define n where "n = length (children_image (ace_kids a))"
  have "tlv_image (ace_tlv a) =
    header_image ACL (opt_zero\<lparr>opt_pl := True, opt_ll := (n > 0xFFFF)\<rparr>) n @
    (tlv_image (leaf NAME (ascii ''type'')) @ tlv_image (leaf VALUE (u_bytes (type_word a) 1))) @
    (tlv_image (leaf NAME (ascii ''flags'')) @ tlv_image (leaf VALUE (u_bytes (ucast (ace_flags a)) 1))) @
    tlv_image (leaf NAME (ascii ''subject'')) @ tlv_image (leaf VALUE (ace_subject a)) @
    (tlv_image (leaf NAME (ascii ''access_mask'')) @ tlv_image (leaf VALUE (u_bytes (ucast (ace_mask a)) 4))) @
    (if ace_expires a = 0 then [] else tlv_image (leaf NAME (ascii ''expires_ns'')) @ tlv_image (leaf VALUE (u_bytes (ace_expires a) 8)))"
    by (simp add: ace_tlv_def group_image n_def [symmetric]) (simp add: ace_kids_def)
  then show ?thesis
    unfolding put_ace_def Let_def ace_entry_bytes_image n_def [symmetric] type_word_def
    by (simp only:) (intro fills_and_then fills_emit_header fills_emit_name fills_emit_tlv fills_put_u fills_optional)
qed

lemma fills_put_aces: "fills (put_aces src aces) (children_image (map ace_tlv aces))"
proof (induction aces)
  case (Cons a aces)
  have "put_aces src (a # aces) = and_then (put_ace src a) (put_aces src aces)" by (rule ext) simp
  then show ?case using fills_and_then [OF fills_put_ace Cons.IH, of src a] by simp
qed (simp add: fills_def)

lemma acl_body_image: "acl_body_bytes aces = length (children_image (map ace_tlv aces))"
  by (induction aces)
     (simp_all add: acl_body_bytes_def Let_def ace_tlv_def length_group_image ace_entry_bytes_image header_bytes_def)

lemma encode_acl_spec:
  "encode_acl src aces out m =
     (case bytes_reserve src (ba_size out + length (tlv_image (acl_tlv aces))) out m of
        (False, r, m') \<Rightarrow> (False, r, m')
      | (True, r, m') \<Rightarrow> (True, r\<lparr>ba_elems := ba_elems out @ tlv_image (acl_tlv aces)\<rparr>, m'))"
proof -
  define n where "n = acl_body_bytes aces"
  define opt where "opt = opt_zero\<lparr>opt_pl := True, opt_ll := (n > 0xFFFF)\<rparr>"
  have img: "tlv_image (acl_tlv aces) = header_image ACL opt n @ children_image (map ace_tlv aces)"
    by (simp add: acl_tlv_def group_image opt_def n_def acl_body_image)
  have sz: "ba_size out + header_bytes (opt_zero\<lparr>opt_ll := (n > 0xFFFF)\<rparr>) + n = ba_size out + length (tlv_image (acl_tlv aces))"
    by (simp add: img n_def acl_body_image opt_def header_bytes_def)
  obtain ok r m1 where res: "bytes_reserve src (ba_size out + length (tlv_image (acl_tlv aces))) out m = (ok, r, m1)"
    by (metis prod_cases3)
  have "fills (and_then (\<lambda>(out, m). emit_header src ACL opt n out m) (put_aces src aces)) (tlv_image (acl_tlv aces))"
    unfolding img by (intro fills_and_then fills_emit_header fills_put_aces)
  then have "ok \<Longrightarrow> and_then (\<lambda>(out, m). emit_header src ACL opt n out m) (put_aces src aces) (r, m1)
      = (True, r\<lparr>ba_elems := ba_elems out @ tlv_image (acl_tlv aces)\<rparr>, m1)"
    using ba_reserve_spec [OF res] by (simp add: fills_def)
  then show ?thesis
    unfolding encode_acl_def Let_def n_def [symmetric] opt_def [symmetric] sz res by (cases ok) simp_all
qed

section \<open>Reading it back\<close>

lemma u_bytes_le: "width \<le> 8 \<Longrightarrow> u_bytes v width = le_bytes v width"
  by (simp add: u_bytes_def store_le_def)

lemma load_u_bytes:
  assumes "width \<le> 8" and "LENGTH('a::len) \<le> 8 * width"
  shows "(load_le (u_bytes (ucast (v :: 'a word)) width) :: 64 word) = ucast v"
proof -
  have "(load_le (le_bytes (ucast v :: 64 word) width) :: 64 word) = ucast (take_bit (8 * width) (ucast v :: 64 word))"
    using assms(1) by (intro load_le_le_bytes) simp
  also have "... = ucast v" using assms(2) by (intro bit_word_eqI) (auto simp: bit_simps dest: bit_imp_le_length)
  finally show ?thesis by (simp add: u_bytes_le [OF assms(1)])
qed

lemma key_slots:
  "key_slot (ascii ''type'') kAceKeys = 0" "key_slot (ascii ''flags'') kAceKeys = 1" "key_slot (ascii ''subject'') kAceKeys = 2"
  "key_slot (ascii ''access_mask'') kAceKeys = 3" "key_slot (ascii ''expires_ns'') kAceKeys = 4"
  by (simp_all add: kAceKeys_def ascii_def)

lemma key_widths:
  "snd (kAceKeys ! 0) = Some 1" "snd (kAceKeys ! Suc 0) = Some 1" "snd (kAceKeys ! 2) = None" "snd (kAceKeys ! 3) = Some 4"
  "snd (kAceKeys ! 4) = Some 8"
  by (simp_all add: kAceKeys_def)

lemma u_field_ok: "0 < width \<Longrightarrow> width \<le> 8 \<Longrightarrow> ace_field_ok (u_bytes v width) (Some width)"
  using length_u_bytes [of width v] by (auto simp: ace_field_ok_def)

lemma ace_pairs_step:
  assumes "key_slot key kAceKeys = k" and "k < 5" and "\<not> bit seen k" and "ace_field_ok v (snd (kAceKeys ! k))"
  shows "ace_pairs (image_node (leaf NAME key) # image_node (leaf VALUE v) # rest) seen raw
     = ace_pairs rest (seen OR 2 ^ k) (raw[k := v])"
proof -
  have "seen AND 2 ^ k = 0" using assms(3) by (intro bit_word_eqI) (auto simp: bit_simps)
  then show ?thesis using assms(1,2,4) by (simp add: Let_def)
qed

definition ace_raw :: "ace_t \<Rightarrow> bytes list" where
  "ace_raw a =
     [u_bytes (type_word a) 1, u_bytes (ucast (ace_flags a)) 1, ace_subject a, u_bytes (ucast (ace_mask a)) 4,
      if ace_expires a = 0 then [] else u_bytes (ace_expires a) 8]"

lemma ace_pairs_kids:
  assumes "ace_subject a \<noteq> []"
  shows "ace_pairs (map image_node (ace_kids a)) 0 (replicate 5 []) = Inr (if ace_expires a = 0 then 15 else 31, ace_raw a)"
proof -
  have sub: "ace_field_ok (ace_subject a) None" using assms by (simp add: ace_field_ok_def)
  have nb: "\<not> bit (0 :: 32 word) 0" "\<not> bit (1 :: 32 word) 1" "\<not> bit (3 :: 32 word) 2" "\<not> bit (7 :: 32 word) 3" "\<not> bit (15 :: 32 word) 4"
    by simp_all
  note step = ace_pairs_step [OF key_slots(1) _ nb(1)] ace_pairs_step [OF key_slots(2) _ nb(2)] ace_pairs_step [OF key_slots(3) _ nb(3)]
    ace_pairs_step [OF key_slots(4) _ nb(4)] ace_pairs_step [OF key_slots(5) _ nb(5)]
  have rep: "replicate 5 [] = [[], [], [], [], [] :: byte list]" by (simp add: numeral_eq_Suc)
  show ?thesis
    unfolding rep ace_kids_def ace_raw_def
    by (simp add: step key_widths u_field_ok sub del: ace_pairs.simps(3))
qed

lemma ace_build_raw:
  assumes "storable pol a"
  shows "ace_build pol (if ace_expires a = 0 then 15 else 31) (ace_raw a) = Inr a"
proof -
  have flags: "(ucast (ace_flags a) :: 64 word) AND NOT (ucast kAceInherit) = 0"
  proof (rule bit_word_eqI)
    fix n assume "n < LENGTH(64)"
    have "bit (ace_flags a AND NOT kAceInherit) n = bit (0 :: byte) n" using assms by (simp add: storable_def)
    then show "bit ((ucast (ace_flags a) :: 64 word) AND NOT (ucast kAceInherit)) n = bit (0 :: 64 word) n"
      by (auto simp: bit_simps dest: bit_imp_le_length)
  qed
  have mask: "(ucast (ace_mask a) :: 64 word) AND NOT (ucast kAceRights) = 0"
  proof (rule bit_word_eqI)
    fix n assume "n < LENGTH(64)"
    have "bit (ace_mask a AND NOT kAceRights) n = bit (0 :: 32 word) n" using assms by (simp add: storable_def)
    then show "bit ((ucast (ace_mask a) :: 64 word) AND NOT (ucast kAceRights)) n = bit (0 :: 64 word) n"
      by (auto simp: bit_simps dest: bit_imp_le_length)
  qed
  have ty: "(load_le (u_bytes (type_word a) 1) :: 64 word) = type_word a"
    using load_u_bytes [of 1 "ucast (type_word a) :: 8 word"] by (cases "ace_type a") (simp_all add: type_word_def)
  have ex: "(load_le (if ace_expires a = 0 then [] else u_bytes (ace_expires a) 8) :: 64 word) = ace_expires a"
    using load_u_bytes [of 8 "ace_expires a"] by (simp add: load_le_def)
  have deny: "ace_type a = ACE_DENY \<Longrightarrow> kAcceptsDeny pol" using assms by (simp add: storable_def)
  have down: "(ucast (ucast (ace_flags a) :: 64 word) :: byte) = ace_flags a" "(ucast (ucast (ace_mask a) :: 64 word) :: 32 word) = ace_mask a"
    by (intro bit_word_eqI; simp add: bit_simps)+
  have "\<lparr>ace_type = (if type_word a = 1 then ACE_DENY else ACE_ALLOW), ace_flags = ace_flags a, ace_subject = ace_subject a,
      ace_mask = ace_mask a, ace_expires = ace_expires a\<rparr> = a"
    by (cases a; cases "ace_type a") (simp_all add: type_word_def)
  then show ?thesis
    using flags mask ty ex down deny load_u_bytes [of 1 "ace_flags a"] load_u_bytes [of 4 "ace_mask a"]
    by (cases "ace_type a"; cases "ace_expires a = 0")
       (simp_all add: ace_build_def ace_raw_def Let_def kAceRequired_def type_word_def)
qed

lemma ace_kids_facts: "c \<in> set (ace_kids a) \<Longrightarrow> tlv_bytes c \<noteq> None \<and> tlv_typed c \<and> tlv_depth c = 0"
  using leaf_bytes [of NAME] leaf_bytes [of VALUE]
  by (auto simp: ace_kids_def plain_simps is_path_ref_type_def split: if_splits)

lemma ace_tlv_facts: "tlv_bytes (ace_tlv a) \<noteq> None" "tlv_typed (ace_tlv a)" "tlv_depth (ace_tlv a) \<le> 1"
proof -
  show "tlv_bytes (ace_tlv a) \<noteq> None"
    unfolding ace_tlv_def by (rule group_bytes) (use ace_kids_facts in \<open>auto simp: is_path_ref_type_def\<close>)
  show "tlv_typed (ace_tlv a)" using ace_kids_facts by (auto simp: ace_tlv_def plain_simps)
  show "tlv_depth (ace_tlv a) \<le> 1"
    using tlvs_depth_le [of "ace_kids a" 0] ace_kids_facts [of _ a] by (simp add: ace_tlv_def plain_simps)
qed

lemma acl_tlv_facts: "tlv_bytes (acl_tlv aces) \<noteq> None" "tlv_typed (acl_tlv aces)" "tlv_depth (acl_tlv aces) \<le> 2"
proof -
  show "tlv_bytes (acl_tlv aces) \<noteq> None"
    unfolding acl_tlv_def by (rule group_bytes) (use ace_tlv_facts(1) in \<open>auto simp: is_path_ref_type_def\<close>)
  show "tlv_typed (acl_tlv aces)" using ace_tlv_facts(2) by (auto simp: acl_tlv_def plain_simps)
  show "tlv_depth (acl_tlv aces) \<le> 2"
    using tlvs_depth_le [of "map ace_tlv aces" 1] ace_tlv_facts(3) by (auto simp: acl_tlv_def plain_simps)
qed

lemma child_image_le: "c \<in> set cs \<Longrightarrow> length (tlv_image c) \<le> length (children_image cs)"
  by (induction cs) auto

lemma ace_entry_image:
  assumes "target_ok tgt" and "storable pol a" and "length (tlv_image (ace_tlv a)) < 2 ^ 32"
  shows "ace_entry tgt pol (image_node (ace_tlv a)) = Some (Inr a)"
proof -
  have "children_visit tgt (children_begin tgt (image_node (ace_tlv a))) = Some (map image_node (ace_kids a))"
    using image_node_children [of tgt ACL "ace_kids a"] assms(1,3) ace_tlv_facts [of a] by (simp add: ace_tlv_def)
  then show ?thesis
    using ace_pairs_kids [of a] ace_build_raw [OF assms(2)] assms(2) by (simp add: ace_entry_def ace_tlv_def storable_def)
qed

lemma ace_entries_images:
  assumes "target_ok tgt"
  shows "list_all (storable pol) aces \<Longrightarrow> length (children_image (map ace_tlv aces)) < 2 ^ 32 \<Longrightarrow>
   ba_size out + length aces \<le> ba_cap out \<Longrightarrow>
   ace_entries src es ea tgt pol (map (image_node \<circ> ace_tlv) aces) out m = Some (None, out\<lparr>ba_elems := ba_elems out @ aces\<rparr>, m)"
proof (induction aces arbitrary: out)
  case (Cons a aces)
  have "ba_push_back src es ea a out m = (True, out\<lparr>ba_elems := ba_elems out @ [a]\<rparr>, m)"
    using Cons.prems(3) by (simp add: ba_push_back_def Let_def)
  then show ?case
    using Cons.IH [of "out\<lparr>ba_elems := ba_elems out @ [a]\<rparr>"] Cons.prems ace_entry_image [OF assms, of pol a] by simp
qed simp

lemma parse_acl_image:
  assumes "target_ok tgt" and "list_all (storable pol) aces" and "length (tlv_image (acl_tlv aces)) < 2 ^ 32"
  shows "\<exists>tb' k'. parse_acl src es ea tgt pol (image_node (acl_tlv aces)) tb k =
     (if fst (ba_reserve src es ea (length aces) (ba_clear tb) k) then Some (None, tb', k') else Some (Some S_BACKPRESSURE, tb', k'))
   \<and> ba_elems tb' = (if fst (ba_reserve src es ea (length aces) (ba_clear tb) k) then aces else [])"
proof -
  have kids: "children_visit tgt (children_begin tgt (image_node (acl_tlv aces))) = Some (map (image_node \<circ> ace_tlv) aces)"
    using image_node_children [of tgt ACL "map ace_tlv aces"] assms(1,3) acl_tlv_facts [of aces] by (simp add: acl_tlv_def)
  obtain ok tb1 k1 where r: "ba_reserve src es ea (length aces) (ba_clear tb) k = (ok, tb1, k1)" by (metis prod_cases3)
  have empty: "ba_elems tb1 = []" using ba_reserve_spec [OF r] by (simp add: ba_clear_def)
  show ?thesis
  proof (cases ok)
    case True
    have "ba_size tb1 + length aces \<le> ba_cap tb1" using ba_reserve_spec [OF r] True empty by simp
    moreover have "length (children_image (map ace_tlv aces)) < 2 ^ 32" using assms(3) by (simp add: acl_tlv_def length_group_image)
    ultimately show ?thesis
      using ace_entries_images [OF assms(1,2), of tb1 src es ea k1] kids r True empty by (simp add: parse_acl_def)
  qed (use kids r empty in \<open>simp add: parse_acl_def\<close>)
qed

section \<open>Properties\<close>

definition example_aces :: "ace_t list" where
  "example_aces =
     [\<lparr>ace_type = ACE_DENY, ace_flags = kAceInherit, ace_subject = ascii ''peer-a'', ace_mask = RIGHT_WRITE, ace_expires = 0x1122334455\<rparr>,
      \<lparr>ace_type = ACE_ALLOW, ace_flags = 0, ace_subject = kEveryoneSubject, ace_mask = kAceRights, ace_expires = 0\<rparr>]"

lemma example_aces_storable: "list_all (storable full_acl_policy) example_aces"
  by (simp add: example_aces_def storable_def full_acl_policy_def kAceInherit_def kAceRights_def kEveryoneSubject_def ascii_def)

lemma length_acl_image:
  "length (tlv_image (acl_tlv aces)) = (if acl_body_bytes aces > 0xFFFF then 6 else 4) + acl_body_bytes aces"
  by (simp add: acl_tlv_def length_group_image acl_body_image)

lemma example_aces_size: "acl_body_bytes example_aces = 179"
  by (simp add: acl_body_bytes_def ace_entry_bytes_def pair_bytes_def header_bytes_def example_aces_def kEveryoneSubject_def Let_def)

lemma example_heap_reserve: "fst (ba_reserve example_heap es ea n tb ())"
  by (simp add: ba_reserve_def ba_regrow_def example_heap_def Let_def split: prod.splits)

lemma example_table_append: "\<exists>tb'. table_append example_heap 32 8 tb aces rf () = (True, tb', ())"
proof -
  have "\<exists>r. ba_reserve example_heap 32 8 n (ba_empty :: ace_table_t) () = (True, r, ())" for n
    using example_heap_reserve [of 32 8 n "ba_empty :: ace_table_t"]
    by (cases "ba_reserve example_heap 32 8 n (ba_empty :: ace_table_t) ()") auto
  then show ?thesis by (auto simp: table_append_def Let_def split: prod.splits bool.splits) (metis prod.inject)
qed



text \<open>
  C15. What the strict parser stores, the evaluator honours in full: every stored entry has a type its
  policy evaluates, no flag but INHERIT, no right but READ and WRITE and a subject, whatever the
  entries on the wire say; a refused parse leaves the table empty, so a stale list never survives it.
\<close>

theorem parse_acl_stores_storable:
  assumes "parse_acl src es ea tgt pol acl out m = Some (r, out', m')"
  shows "(\<forall>a. a \<in> set (ba_elems out') \<longrightarrow>
       (ace_type a = ACE_DENY \<longrightarrow> kAcceptsDeny pol) \<and> ace_flags a AND NOT kAceInherit = 0 \<and>
       ace_mask a AND NOT kAceRights = 0 \<and> ace_subject a \<noteq> []) \<and>
     (r \<noteq> None \<longrightarrow> ba_elems out' = [])"
  using parse_acl_storable [OF assms] by (auto simp: list_all_iff storable_def)

definition example_ace_node :: tlv_node_t where
  "example_ace_node = image_node (acl_tlv example_aces)"

theorem parse_acl_stores_storable_witness:
  "\<exists>tb. parse_acl example_heap 32 8 host64 full_acl_policy example_ace_node ba_empty () = Some (None, tb, ()) \<and>
     ba_elems tb = example_aces \<and> (\<forall>a \<in> set example_aces. ace_mask a AND NOT kAceRights = 0)"
proof -
  have len: "length (tlv_image (acl_tlv example_aces)) < 2 ^ 32" by (simp add: length_acl_image example_aces_size)
  obtain tb where tb: "parse_acl example_heap 32 8 host64 full_acl_policy example_ace_node ba_empty () = Some (None, tb, ())"
    "ba_elems tb = example_aces"
    using parse_acl_image [OF target_ok_host64 example_aces_storable len, of example_heap 32 8 ba_empty "()"]
      example_heap_reserve [of 32 8 "length example_aces" "ba_clear (ba_empty :: ace_table_t)"]
    unfolding example_ace_node_def by fastforce
  show ?thesis using parse_acl_stores_storable [OF tb(1)] tb by auto
qed

text \<open>
  C16. One pass over the stored merge decides what the walk over the separate lists decides. Under
  either policy, with the vertex's own list appended first and then each ancestor's, nearest first,
  evaluating the merged table gives the verdict of asking each list in turn, an ancestor's only
  about its INHERIT entries, the first decision standing, with the vertex open when no entry is
  in effect; and filtering a table in place is evaluating its filtered copy.
\<close>

theorem merged_acl_is_walk:
  assumes "pol = full_acl_policy \<or> pol = allow_only_policy"
    and "append_own_aces src es ea ba_empty own m = (True, tb1, m1)" and "append_ancestors src es ea tb1 ancestors m1 = (True, tb, m2)"
  shows "effective_allows pol (ba_elems tb) subject right now 0 = lists_allow pol subject right now own ancestors \<and>
    effective_allows pol (ba_elems tb) subject right now rf
      = effective_allows pol (filter (\<lambda>a. ace_flags a AND rf = rf) (ba_elems tb)) subject right now 0"
proof -
  have tb: "ba_elems tb = effective own ancestors"
    using append_ancestors_spec [OF assms(3)] table_append_spec [OF assms(2) [unfolded append_own_aces_def]]
    by (simp add: effective_def ba_empty_def filter_carries_0)
  have carries: "carries rf = (\<lambda>a. ace_flags a AND rf = rf)" by (rule ext) (simp add: carries_def)
  from assms(1) show ?thesis
  proof
    assume "pol = full_acl_policy"
    then show ?thesis unfolding tb by (simp only: full_pol.merge_is_walk full_pol.filter_in_place [where rf = rf] carries simp_thms)
  next
    assume "pol = allow_only_policy"
    then show ?thesis unfolding tb by (simp only: allow_pol.merge_is_walk allow_pol.filter_in_place [where rf = rf] carries simp_thms)
  qed
qed

theorem merged_acl_is_walk_witness:
  "\<exists>tb1 tb. append_own_aces example_heap 32 8 ba_empty [hd example_aces] () = (True, tb1, ()) \<and>
     append_ancestors example_heap 32 8 tb1 [example_aces, []] () = (True, tb, ()) \<and>
     \<not> effective_allows full_acl_policy (ba_elems tb) (ascii ''peer-a'') RIGHT_WRITE 7 0 \<and>
     \<not> lists_allow full_acl_policy (ascii ''peer-a'') RIGHT_WRITE 7 [hd example_aces] [example_aces, []]"
proof -
  obtain tb1 where tb1: "append_own_aces example_heap 32 8 ba_empty [hd example_aces] () = (True, tb1, ())"
    unfolding append_own_aces_def using example_table_append by blast
  obtain tb2 where tb2: "append_ancestor example_heap 32 8 tb1 example_aces () = (True, tb2, ())"
    unfolding append_ancestor_def using example_table_append by blast
  obtain tb where "append_ancestor example_heap 32 8 tb2 [] () = (True, tb, ())"
    unfolding append_ancestor_def using example_table_append by blast
  with tb2 have tb: "append_ancestors example_heap 32 8 tb1 [example_aces, []] () = (True, tb, ())" by simp
  have "\<not> lists_allow full_acl_policy (ascii ''peer-a'') RIGHT_WRITE 7 [hd example_aces] [example_aces, []]"
    by (simp add: lists_allow_def full_acl_policy_def full_acl_allows_def ace_applies_def example_aces_def is_reserved_subject_def
        kEveryoneSubject_def ascii_def)
  then show ?thesis using merged_acl_is_walk [OF disjI1 [OF refl] tb1 tb, where subject = "ascii ''peer-a''" and right = RIGHT_WRITE and now = 7 and rf = 0]
      tb1 tb by blast
qed

text \<open>
  C17. A missing clock never grants what a clock would refuse. Under either policy and for any list
  the parser can have stored, a right allowed when the application supplied no time is allowed at
  every time.
\<close>

theorem no_clock_never_grants:
  assumes "pol = full_acl_policy \<or> pol = allow_only_policy" and "list_all (storable pol) aces"
    and "effective_allows pol aces subject right kAceNowUnknown rf"
  shows "effective_allows pol aces subject right now rf"
proof -
  let ?open = "if rf = 0 then aces = [] else \<not> list_ex (\<lambda>a. ace_flags a AND rf = rf) aces"
  have allow: "policy_allows pol subject right aces now rf = V_ALLOW"
    if "policy_allows pol subject right aces kAceNowUnknown rf = V_ALLOW" for now
  proof -
    have "pol = allow_only_policy \<Longrightarrow> list_all (\<lambda>a. ace_type a = ACE_ALLOW) aces"
      using assms(2) by (simp add: storable_def allow_only_policy_def list_all_iff)
    then show ?thesis
      using assms(1) that full_without_clock [of subject right aces rf now] allow_only_without_clock [of aces subject right rf now]
      by (auto simp: full_acl_policy_def full_acl_allows_def allow_only_policy_def allow_only_allows_def split: if_splits)
  qed
  have "policy_allows pol subject right aces now rf = V_NO_MATCH" if ?open
    using assms(1) nothing_applies [OF that]
    by (auto simp: full_acl_policy_def full_acl_allows_def allow_only_policy_def allow_only_allows_def)
  then show ?thesis using assms(3) allow [of now] by (auto simp: effective_allows_def split: acl_verdict_t.splits)
qed

theorem no_clock_never_grants_witness:
  "list_all (storable full_acl_policy) example_aces \<and>
   effective_allows full_acl_policy example_aces (ascii ''peer-b'') RIGHT_WRITE kAceNowUnknown 0 \<and>
   effective_allows full_acl_policy example_aces (ascii ''peer-b'') RIGHT_WRITE 5 0"
proof -
  have a: "effective_allows full_acl_policy example_aces (ascii ''peer-b'') RIGHT_WRITE kAceNowUnknown 0"
    by (simp add: effective_allows_def full_acl_policy_def full_acl_allows_def ace_applies_def example_aces_def is_reserved_subject_def
        kEveryoneSubject_def ascii_def kAceRights_def)
  show ?thesis using no_clock_never_grants [OF disjI1 [OF refl] example_aces_storable a] a example_aces_storable by blast
qed

end
