(* ===== verification/Path_Object.thy ===== *)
theory Path_Object
  imports Path
begin

text \<open>
  The path object, from \<^verbatim>\<open>path_object.hpp\<close>, \<^verbatim>\<open>path_object.cpp\<close> and the generation rules of
  \<^verbatim>\<open>vertex_handle.hpp\<close>: the block that holds a canonical key, the pair it last resolved to and a
  cached chain, with the sequence counter under which writers and readers share the last two.
  Every atomic load, store and exchange is one step of a thread; threads interleave freely, each step
  seeing the steps before it. The lemmas show that a confirmed read is the record in force, that
  no operation waits on another thread, and what making and releasing an object do to its source.
\<close>

unbundle bit_operations_syntax

section \<open>Generations\<close>

definition kGenerationSaturated :: "32 word" where
  "kGenerationSaturated = 0xFFFFFFFF"

definition saturating_next_generation :: "32 word \<Rightarrow> 32 word" where
  "saturating_next_generation g = (if g = kGenerationSaturated then kGenerationSaturated else g + 1)"

definition bound_generation_matches :: "32 word \<Rightarrow> 32 word \<Rightarrow> bool" where
  "bound_generation_matches slot_gen element_gen \<longleftrightarrow> element_gen \<noteq> kGenerationSaturated \<and> element_gen = slot_gen"

section \<open>The object\<close>

text \<open>
  \<open>po_key\<close> are the bytes the key pointer shows. A cached chain is stored in words; the copies into
  and out of a word are of its object representation, which \<open>load_le\<close> and \<open>le_bytes\<close> spell for a
  little-endian target.
\<close>

record path_body_t =
  po_block :: addr
  po_block_bytes :: nat
  po_key :: bytes
  po_seq :: "32 word"
  po_index :: "32 word"
  po_gen :: "32 word"
  po_chain_len :: "32 word"
  po_chain :: "32 word list"

definition kPathChainCapacity :: "nat \<Rightarrow> nat" where
  "kPathChainCapacity chain_bytes = (chain_bytes + 3) div 4 * 4"

definition kReadTries :: nat where
  "kReadTries = 4"

definition object_key :: "path_body_t option \<Rightarrow> bytes" where
  "object_key p = (case p of None \<Rightarrow> [] | Some b \<Rightarrow> po_key b)"

definition body_init :: "nat \<Rightarrow> addr \<Rightarrow> nat \<Rightarrow> bytes \<Rightarrow> path_body_t" where
  "body_init chain_bytes blk bytes key =
     \<lparr>po_block = blk, po_block_bytes = bytes, po_key = key, po_seq = 0, po_index = 0, po_gen = kGenerationSaturated,
      po_chain_len = 0, po_chain = replicate (kPathChainCapacity chain_bytes div 4) 0\<rparr>"

text \<open>\<open>bs\<close> and \<open>ba\<close> are the size and alignment of \<^verbatim>\<open>body_t\<close>; the parsed path is a local, released on return.\<close>

definition make_path_text ::
  "'m path_env \<Rightarrow> nat \<Rightarrow> nat \<Rightarrow> nat \<Rightarrow> bytes \<Rightarrow> 'm \<Rightarrow> (status_t + path_body_t) \<times> 'm" where
  "make_path_text env chain_bytes bs ba txt m =
     (case parse env txt m of
        (Inl e, m1) \<Rightarrow> (Inl e, m1)
      | (Inr p, m1) \<Rightarrow>
          if path_field p \<noteq> [] then (Inl S_INVALID_PATH, snd (path_release env p m1))
          else
            (case try_alloc (pe_src env) m1 (bs + length (path_t_key p)) ba of
               (None, m2) \<Rightarrow> (Inl S_BACKPRESSURE, snd (path_release env p m2))
             | (Some blk, m2) \<Rightarrow>
                 (Inr (body_init chain_bytes blk (bs + length (path_t_key p)) (path_t_key p)), snd (path_release env p m2))))"

definition make_path_key ::
  "'m source_ops \<Rightarrow> nat \<Rightarrow> nat \<Rightarrow> nat \<Rightarrow> bytes \<Rightarrow> 'm \<Rightarrow> (status_t + path_body_t) \<times> 'm" where
  "make_path_key src chain_bytes bs ba key m =
     (if length key > kMaxPathBytes \<or> \<not> packed_path_valid_key key then (Inl S_INVALID_PATH, m)
      else
        (case try_alloc src m bs ba of
           (None, m1) \<Rightarrow> (Inl S_BACKPRESSURE, m1)
         | (Some blk, m1) \<Rightarrow> (Inr (body_init chain_bytes blk bs key), m1)))"

definition object_release :: "'m source_ops \<Rightarrow> nat \<Rightarrow> path_body_t option \<Rightarrow> 'm \<Rightarrow> path_body_t option \<times> 'm" where
  "object_release src ba p m =
     (None, case p of None \<Rightarrow> m | Some b \<Rightarrow> release src m (po_block b) (po_block_bytes b) ba)"

definition object_move_assign ::
  "'m source_ops \<Rightarrow> nat \<Rightarrow> path_body_t option \<Rightarrow> path_body_t option \<Rightarrow> 'm \<Rightarrow> (path_body_t option \<times> path_body_t option) \<times> 'm" where
  "object_move_assign src ba this other m =
     ((other, None), snd (object_release src ba this m))"

section \<open>The shared record\<close>

text \<open>The stores a writer makes between taking the counter and giving it back, in order.\<close>

datatype store_t = St_index "32 word" | St_gen "32 word" | St_word nat "32 word" | St_len "32 word"

fun apply_store :: "store_t \<Rightarrow> path_body_t \<Rightarrow> path_body_t" where
  "apply_store (St_index v) b = b\<lparr>po_index := v\<rparr>"
| "apply_store (St_gen v) b = b\<lparr>po_gen := v\<rparr>"
| "apply_store (St_word w v) b = b\<lparr>po_chain := (po_chain b)[w := v]\<rparr>"
| "apply_store (St_len v) b = b\<lparr>po_chain_len := v\<rparr>"

datatype job_t = Set_element0 "pair_t option" | Learn bytes

definition set_element0_stores :: "pair_t option \<Rightarrow> store_t list" where
  "set_element0_stores e =
     [St_index (case e of None \<Rightarrow> 0 | Some p \<Rightarrow> pair_index p),
      St_gen (case e of None \<Rightarrow> kGenerationSaturated | Some p \<Rightarrow> pair_generation p)]"

definition chain_word :: "bytes \<Rightarrow> nat \<Rightarrow> 32 word" where
  "chain_word c w = load_le (take (min 4 (length c - w * 4)) (drop (w * 4) c))"

definition learn_stores :: "bytes \<Rightarrow> store_t list" where
  "learn_stores c =
     map (\<lambda>w. St_word w (chain_word c w)) [0..<(length c + 3) div 4] @ [St_len (of_nat (length c))]"

fun stores_of :: "job_t \<Rightarrow> store_t list" where
  "stores_of (Set_element0 e) = set_element0_stores e"
| "stores_of (Learn c) = learn_stores c"

definition clear_chain :: "path_body_t \<Rightarrow> path_body_t" where
  "clear_chain b = b\<lparr>po_chain_len := 0\<rparr>"

section \<open>One thread\<close>

text \<open>
  Where a thread is. \<open>W_load\<close> and \<open>W_cas\<close> are \<^verbatim>\<open>begin_write\<close>, \<open>W_store\<close> the stores still to make and
  then \<^verbatim>\<open>end_write\<close>; the \<open>R_\<close> points are those of \<^verbatim>\<open>element0\<close> and the \<open>C_\<close> points those of \<^verbatim>\<open>chain\<close>,
  whose output buffer has \<open>cap\<close> bytes.
\<close>

datatype pc_t =
    Idle
  | W_load job_t
  | W_cas job_t "32 word"
  | W_store job_t "32 word" "store_t list"
  | W_ret bool
  | R_seq nat
  | R_index nat "32 word"
  | R_gen nat "32 word" "32 word"
  | R_check nat "32 word" "32 word" "32 word"
  | R_ret "pair_t option"
  | C_seq nat nat
  | C_len nat nat "32 word"
  | C_word nat nat "32 word" nat nat bytes
  | C_check nat nat "32 word" nat bytes
  | C_ret nat bytes

definition slot_of :: "32 word \<Rightarrow> 32 word \<Rightarrow> pair_t option" where
  "slot_of ix g = (if g = kGenerationSaturated then None else Some \<lparr>pair_index = ix, pair_generation = g\<rparr>)"

definition word_bytes :: "nat \<Rightarrow> nat \<Rightarrow> 32 word \<Rightarrow> bytes" where
  "word_bytes len w v = take (min 4 (len - w * 4)) (le_bytes v 4)"

text \<open>\<open>lock_free\<close>: the target has an atomic exchange; otherwise load and store are one guarded section.\<close>

fun pc_step :: "bool \<Rightarrow> pc_t \<Rightarrow> path_body_t \<Rightarrow> pc_t \<times> path_body_t" where
  "pc_step lock_free (W_load j) b =
     (let s = po_seq b
      in if s AND 1 \<noteq> 0 then (W_ret False, b)
         else if lock_free then (W_cas j s, b)
         else (W_store j s (stores_of j), b\<lparr>po_seq := s + 1\<rparr>))"
| "pc_step lock_free (W_cas j s) b =
     (if po_seq b = s then (W_store j s (stores_of j), b\<lparr>po_seq := s + 1\<rparr>) else (W_ret False, b))"
| "pc_step lock_free (W_store j s (x # xs)) b = (W_store j s xs, apply_store x b)"
| "pc_step lock_free (W_store j s []) b = (W_ret True, b\<lparr>po_seq := s + 2\<rparr>)"
| "pc_step lock_free (R_seq t) b =
     (if t < kReadTries then
        let s = po_seq b in if s AND 1 \<noteq> 0 then (R_seq (t + 1), b) else (R_index t s, b)
      else (R_ret None, b))"
| "pc_step lock_free (R_index t s) b = (R_gen t s (po_index b), b)"
| "pc_step lock_free (R_gen t s ix) b = (R_check t s ix (po_gen b), b)"
| "pc_step lock_free (R_check t s ix g) b =
     (if po_seq b \<noteq> s then (R_seq (t + 1), b) else (R_ret (slot_of ix g), b))"
| "pc_step lock_free (C_seq t cap) b =
     (if t < kReadTries then
        let s = po_seq b in if s AND 1 \<noteq> 0 then (C_seq (t + 1) cap, b) else (C_len t cap s, b)
      else (C_ret 0 [], b))"
| "pc_step lock_free (C_len t cap s) b =
     (let len = unat (po_chain_len b)
      in if len = 0 \<or> len > cap then (C_ret 0 [], b) else (C_word t cap s len 0 [], b))"
| "pc_step lock_free (C_word t cap s len w out) b =
     (if w * 4 < len then (C_word t cap s len (w + 1) (out @ word_bytes len w (po_chain b ! w)), b)
      else (C_check t cap s len out, b))"
| "pc_step lock_free (C_check t cap s len out) b =
     (if po_seq b = s then (C_ret len out, b) else (C_seq (t + 1) cap, b))"
| "pc_step lock_free pc b = (pc, b)"

fun finished :: "pc_t \<Rightarrow> bool" where
  "finished Idle = True"
| "finished (W_ret _) = True"
| "finished (R_ret _) = True"
| "finished (C_ret _ _) = True"
| "finished _ = False"

text \<open>\<open>learn\<close>'s own tests come before the counter is touched; a chain too large drops the one held.\<close>

definition learn_call :: "nat \<Rightarrow> bytes \<Rightarrow> path_body_t \<Rightarrow> pc_t \<times> path_body_t" where
  "learn_call chain_bytes c b =
     (if c = [] then (W_ret False, b)
      else if length c > kPathChainCapacity chain_bytes then (W_ret False, clear_chain b)
      else (W_load (Learn c), b))"

section \<open>Threads together\<close>

text \<open>
  Threads share one object. The last four fields are specification state: the record every completed
  write left behind, oldest first (a pair and a chain), the number of completed writes when a reader last
  loaded the counter, and the thread that holds the counter. No step of the code reads them.
\<close>

record sys_t =
  sys_body :: path_body_t
  sys_pc :: "nat \<Rightarrow> pc_t"
  sys_pairs :: "(32 word \<times> 32 word) list"
  sys_chains :: "bytes list"
  sys_since :: "nat \<Rightarrow> nat"
  sys_owner :: "nat option"

fun pair_after :: "job_t \<Rightarrow> 32 word \<times> 32 word \<Rightarrow> 32 word \<times> 32 word" where
  "pair_after (Set_element0 e) _ =
     (case e of None \<Rightarrow> (0, kGenerationSaturated) | Some p \<Rightarrow> (pair_index p, pair_generation p))"
| "pair_after (Learn c) p = p"

fun chain_after :: "job_t \<Rightarrow> bytes \<Rightarrow> bytes" where
  "chain_after (Set_element0 e) c = c"
| "chain_after (Learn c) _ = c"

definition sys_writes :: "sys_t \<Rightarrow> nat" where
  "sys_writes st = length (sys_pairs st) - 1"

text \<open>The specification state's part of a step from \<open>pc\<close> to \<open>pc'\<close>.\<close>

definition holds :: "pc_t \<Rightarrow> bool" where
  "holds pc = (case pc of W_store _ _ _ \<Rightarrow> True | _ \<Rightarrow> False)"

definition loaded :: "pc_t \<Rightarrow> bool" where
  "loaded pc = (case pc of R_index _ _ \<Rightarrow> True | C_len _ _ _ \<Rightarrow> True | _ \<Rightarrow> False)"

definition ghost_step :: "nat \<Rightarrow> pc_t \<Rightarrow> pc_t \<Rightarrow> sys_t \<Rightarrow> sys_t" where
  "ghost_step i pc pc' st =
     (case pc of
        W_store j s [] \<Rightarrow>
          st\<lparr>sys_owner := None, sys_pairs := sys_pairs st @ [pair_after j (last (sys_pairs st))],
             sys_chains := sys_chains st @ [chain_after j (last (sys_chains st))]\<rparr>
      | _ \<Rightarrow>
          if holds pc' then st\<lparr>sys_owner := Some i\<rparr>
          else if loaded pc' then st\<lparr>sys_since := (sys_since st)(i := sys_writes st)\<rparr>
          else st)"

inductive sys_step :: "nat \<Rightarrow> bool \<Rightarrow> sys_t \<Rightarrow> sys_t \<Rightarrow> bool" for chain_bytes lock_free where
  call_set: "finished (sys_pc st i) \<Longrightarrow> sys_step chain_bytes lock_free st (st\<lparr>sys_pc := (sys_pc st)(i := W_load (Set_element0 e))\<rparr>)"
| call_learn: "finished (sys_pc st i) \<Longrightarrow> learn_call chain_bytes c (sys_body st) = (pc', b') \<Longrightarrow>
    sys_step chain_bytes lock_free st (st\<lparr>sys_pc := (sys_pc st)(i := pc'), sys_body := b'\<rparr>)"
| call_element0: "finished (sys_pc st i) \<Longrightarrow> sys_step chain_bytes lock_free st (st\<lparr>sys_pc := (sys_pc st)(i := R_seq 0)\<rparr>)"
| call_chain: "finished (sys_pc st i) \<Longrightarrow> sys_step chain_bytes lock_free st (st\<lparr>sys_pc := (sys_pc st)(i := C_seq 0 cap)\<rparr>)"
| call_clear: "sys_step chain_bytes lock_free st (st\<lparr>sys_body := clear_chain (sys_body st)\<rparr>)"
| run: "\<not> finished (sys_pc st i) \<Longrightarrow> pc_step lock_free (sys_pc st i) (sys_body st) = (pc', b') \<Longrightarrow>
    sys_step chain_bytes lock_free st
      (ghost_step i (sys_pc st i) pc' (st\<lparr>sys_pc := (sys_pc st)(i := pc'), sys_body := b'\<rparr>))"

definition sys_init :: "path_body_t \<Rightarrow> sys_t" where
  "sys_init b =
     \<lparr>sys_body = b, sys_pc = (\<lambda>_. Idle), sys_pairs = [(0, kGenerationSaturated)], sys_chains = [[]], sys_since = (\<lambda>_. 0),
      sys_owner = None\<rparr>"

inductive reachable :: "nat \<Rightarrow> bool \<Rightarrow> path_body_t \<Rightarrow> sys_t \<Rightarrow> bool" for chain_bytes lock_free b where
  start: "reachable chain_bytes lock_free b (sys_init b)"
| next_step: "reachable chain_bytes lock_free b st \<Longrightarrow> sys_step chain_bytes lock_free st st' \<Longrightarrow> reachable chain_bytes lock_free b st'"

section \<open>The record in force\<close>

definition apply_stores :: "store_t list \<Rightarrow> path_body_t \<Rightarrow> path_body_t" where
  "apply_stores xs b = foldl (\<lambda>b x. apply_store x b) b xs"

definition chain_ok :: "bytes \<Rightarrow> path_body_t \<Rightarrow> bool" where
  "chain_ok c b \<longleftrightarrow>
     (po_chain_len b = 0 \<or> unat (po_chain_len b) = length c) \<and>
     (\<forall>w. w * 4 < length c \<longrightarrow> po_chain b ! w = chain_word c w)"

definition rec_ok :: "32 word \<times> 32 word \<Rightarrow> bytes \<Rightarrow> path_body_t \<Rightarrow> bool" where
  "rec_ok p c b \<longleftrightarrow> (po_index b, po_gen b) = p \<and> chain_ok c b"

definition job_ok :: "nat \<Rightarrow> job_t \<Rightarrow> bool" where
  "job_ok chain_bytes j = (case j of Set_element0 _ \<Rightarrow> True | Learn c \<Rightarrow> c \<noteq> [] \<and> length c \<le> kPathChainCapacity chain_bytes)"

lemma apply_stores_simps [simp]: "apply_stores [] b = b" "apply_stores (x # xs) b = apply_stores xs (apply_store x b)"
  "apply_stores (xs @ ys) b = apply_stores ys (apply_stores xs b)"
  by (simp_all add: apply_stores_def)

lemma apply_store_seq [simp]: "po_seq (apply_store x b) = po_seq b"
  by (cases x) simp_all

lemma apply_store_seq_comm: "apply_store x (b\<lparr>po_seq := v\<rparr>) = (apply_store x b)\<lparr>po_seq := v\<rparr>"
  by (cases x) simp_all

lemma apply_stores_seq: "apply_stores xs (b\<lparr>po_seq := v\<rparr>) = (apply_stores xs b)\<lparr>po_seq := v\<rparr>"
  by (induction xs arbitrary: b) (simp_all add: apply_store_seq_comm)

lemma length_apply_store [simp]: "length (po_chain (apply_store x b)) = length (po_chain b)"
  by (cases x) simp_all

lemma apply_stores_clear: "apply_stores xs (clear_chain b) = apply_stores xs b \<or> apply_stores xs (clear_chain b) = clear_chain (apply_stores xs b)"
proof (induction xs arbitrary: b)
  case (Cons x xs)
  have "apply_store x (clear_chain b) = apply_store x b \<or> apply_store x (clear_chain b) = clear_chain (apply_store x b)"
    by (cases x) (simp_all add: clear_chain_def)
  then show ?case using Cons.IH [of "apply_store x b"] by auto
qed simp

lemma rec_ok_clear: "rec_ok p c b \<Longrightarrow> rec_ok p c (clear_chain b)"
  by (simp add: rec_ok_def chain_ok_def clear_chain_def)

lemma rec_ok_seq [simp]: "rec_ok p c (b\<lparr>po_seq := v\<rparr>) = rec_ok p c b"
  by (simp add: rec_ok_def chain_ok_def)

lemma rec_ok_stores_clear: "rec_ok p c (apply_stores xs b) \<Longrightarrow> rec_ok p c (apply_stores xs (clear_chain b))"
  using apply_stores_clear [of xs b] rec_ok_clear by metis

text \<open>A whole job leaves the record its job names, whatever the record before it.\<close>

lemma apply_words:
  "n \<le> length (po_chain b) \<Longrightarrow>
   apply_stores (map (\<lambda>w. St_word w (f w)) [0..<n]) b = b\<lparr>po_chain := map f [0..<n] @ drop n (po_chain b)\<rparr>"
proof (induction n)
  case (Suc n)
  then show ?case
    by (simp add: list_update_append Cons_nth_drop_Suc [symmetric] nth_append)
qed simp

lemma job_leaves_record:
  assumes "job_ok chain_bytes j" and "length (po_chain b) = kPathChainCapacity chain_bytes div 4" and "kPathChainCapacity chain_bytes < 2 ^ 32"
    and "rec_ok p c b"
  shows "rec_ok (pair_after j p) (chain_after j c) (apply_stores (stores_of j) b)"
proof (cases j)
  case (Set_element0 e)
  then show ?thesis using assms(4) by (auto simp: rec_ok_def chain_ok_def set_element0_stores_def split: option.split)
next
  case (Learn d)
  have d: "length d \<le> kPathChainCapacity chain_bytes" using assms(1) Learn by (simp add: job_ok_def)
  then have n: "(length d + 3) div 4 \<le> length (po_chain b)" using assms(2) by (simp add: kPathChainCapacity_def)
  have "unat (of_nat (length d) :: 32 word) = length d" using d assms(3) by (simp add: unsigned_of_nat take_bit_nat_eq_self)
  moreover have "w * 4 < length d \<Longrightarrow> w < (length d + 3) div 4" for w by linarith
  ultimately show ?thesis
    using Learn assms(4) by (auto simp: rec_ok_def chain_ok_def learn_stores_def apply_words [OF n] nth_append)
qed

text \<open>
  What a thread knows at a point of its program: \<open>own\<close>, it holds the counter; \<open>v\<close>, the completed writes
  when it last loaded the counter; \<open>fr\<close>, no write has started since; \<open>p\<close> and \<open>c\<close>, the record in force.
\<close>

fun pc_ok :: "nat \<Rightarrow> bool \<Rightarrow> nat \<Rightarrow> bool \<Rightarrow> 32 word \<times> 32 word \<Rightarrow> bytes \<Rightarrow> pc_t \<Rightarrow> bool" where
  "pc_ok chain_bytes own v fr p c (W_load j) = job_ok chain_bytes j"
| "pc_ok chain_bytes own v fr p c (W_cas j s) = (job_ok chain_bytes j \<and> s AND 1 = 0)"
| "pc_ok chain_bytes own v fr p c (W_store j s todo) = own"
| "pc_ok chain_bytes own v fr p c (R_index t s) = (s = of_nat (2 * v))"
| "pc_ok chain_bytes own v fr p c (R_gen t s ix) = (s = of_nat (2 * v) \<and> (fr \<longrightarrow> ix = fst p))"
| "pc_ok chain_bytes own v fr p c (R_check t s ix g) = (s = of_nat (2 * v) \<and> (fr \<longrightarrow> (ix, g) = p))"
| "pc_ok chain_bytes own v fr p c (C_len t cap s) = (s = of_nat (2 * v))"
| "pc_ok chain_bytes own v fr p c (C_word t cap s len w out) =
     (s = of_nat (2 * v) \<and> 0 < len \<and> len \<le> cap \<and> (fr \<longrightarrow> len = length c \<and> out = take (w * 4) c))"
| "pc_ok chain_bytes own v fr p c (C_check t cap s len out) =
     (s = of_nat (2 * v) \<and> 0 < len \<and> len \<le> cap \<and> (fr \<longrightarrow> len = length c \<and> out = c))"
| "pc_ok chain_bytes own v fr p c pc = True"

lemma pc_ok_mono: "pc_ok cb own v fr p c pc \<Longrightarrow> (own \<Longrightarrow> own') \<Longrightarrow> (fr' \<Longrightarrow> fr) \<Longrightarrow> pc_ok cb own' v fr' p c pc"
  by (cases pc) auto

lemma pc_ok_stale: "pc_ok cb own v fr p c pc \<Longrightarrow> (own \<Longrightarrow> own') \<Longrightarrow> pc_ok cb own' v False p' c' pc"
  by (cases pc) auto

definition fresh :: "sys_t \<Rightarrow> nat \<Rightarrow> bool" where
  "fresh st k \<longleftrightarrow> sys_owner st = None \<and> sys_since st k = sys_writes st"

definition held_ok :: "nat \<Rightarrow> sys_t \<Rightarrow> bool" where
  "held_ok chain_bytes st =
     (case sys_owner st of
        None \<Rightarrow> po_seq (sys_body st) = of_nat (2 * sys_writes st) \<and> rec_ok (last (sys_pairs st)) (last (sys_chains st)) (sys_body st)
      | Some i \<Rightarrow>
          \<exists>j todo. sys_pc st i = W_store j (of_nat (2 * sys_writes st)) todo \<and> job_ok chain_bytes j \<and>
            po_seq (sys_body st) = of_nat (2 * sys_writes st) + 1 \<and>
            rec_ok (pair_after j (last (sys_pairs st))) (chain_after j (last (sys_chains st))) (apply_stores todo (sys_body st)))"

definition shape_ok :: "nat \<Rightarrow> sys_t \<Rightarrow> bool" where
  "shape_ok chain_bytes st \<longleftrightarrow>
     sys_pairs st \<noteq> [] \<and> length (sys_chains st) = length (sys_pairs st) \<and>
     length (last (sys_chains st)) \<le> kPathChainCapacity chain_bytes \<and>
     length (po_chain (sys_body st)) = kPathChainCapacity chain_bytes div 4"

definition sys_ok :: "nat \<Rightarrow> sys_t \<Rightarrow> bool" where
  "sys_ok chain_bytes st \<longleftrightarrow>
     shape_ok chain_bytes st \<and> held_ok chain_bytes st \<and>
     (\<forall>k. sys_since st k \<le> sys_writes st \<and>
        pc_ok chain_bytes (sys_owner st = Some k) (sys_since st k) (fresh st k) (last (sys_pairs st)) (last (sys_chains st)) (sys_pc st k))"

lemma even_count: "(of_nat (2 * v) :: 32 word) AND 1 = 0"
  by (rule bit_word_eqI) (auto simp: bit_simps of_nat_mult)

lemma odd_count: "((of_nat (2 * v) + 1 :: 32 word)) AND 1 \<noteq> 0"
proof -
  have "(of_nat (2 * v) + 1 :: 32 word) = of_nat (2 * v) OR 1"
    by (subst disjunctive_add) (auto simp: bit_simps)
  then have "bit ((of_nat (2 * v) + 1 :: 32 word) AND 1) 0" by (simp add: bit_simps)
  then show ?thesis by auto
qed

lemma even_free:
  assumes "held_ok cb st" and "po_seq (sys_body st) AND 1 = 0"
  shows "sys_owner st = None"
  using assms odd_count by (auto simp: held_ok_def split: option.splits)

text \<open>Each kind of step keeps the invariant.\<close>

lemma ok_move:
  assumes "sys_ok cb st" and "sys_owner st \<noteq> Some i"
    and "pc_ok cb False (sys_since st i) (fresh st i) (last (sys_pairs st)) (last (sys_chains st)) pc'"
  shows "sys_ok cb (st\<lparr>sys_pc := (sys_pc st)(i := pc')\<rparr>)"
  using assms by (auto simp: sys_ok_def shape_ok_def held_ok_def fresh_def sys_writes_def split: option.splits)

lemma ok_loaded:
  assumes "sys_ok cb st" and "po_seq (sys_body st) AND 1 = 0"
    and "pc_ok cb False (sys_writes st) True (last (sys_pairs st)) (last (sys_chains st)) pc'"
  shows "sys_ok cb (st\<lparr>sys_pc := (sys_pc st)(i := pc'), sys_since := (sys_since st)(i := sys_writes st)\<rparr>)"
proof -
  have "sys_owner st = None" using even_free [of cb st] assms(1,2) by (simp add: sys_ok_def)
  then show ?thesis using assms by (auto simp: sys_ok_def shape_ok_def held_ok_def fresh_def sys_writes_def)
qed

lemma ok_clear:
  assumes "sys_ok cb st"
  shows "sys_ok cb (st\<lparr>sys_body := clear_chain (sys_body st)\<rparr>)"
proof -
  have "held_ok cb (st\<lparr>sys_body := clear_chain (sys_body st)\<rparr>)"
  proof (cases "sys_owner st")
    case None
    then show ?thesis
      using assms rec_ok_clear [of _ _ "sys_body st"] by (simp add: sys_ok_def held_ok_def sys_writes_def) (simp add: clear_chain_def)
  next
    case (Some i)
    then obtain j todo where "sys_pc st i = W_store j (of_nat (2 * sys_writes st)) todo" "job_ok cb j"
      "po_seq (sys_body st) = of_nat (2 * sys_writes st) + 1"
      "rec_ok (pair_after j (last (sys_pairs st))) (chain_after j (last (sys_chains st))) (apply_stores todo (sys_body st))"
      using assms by (auto simp: sys_ok_def held_ok_def)
    then show ?thesis
      using Some rec_ok_stores_clear [of _ _ todo "sys_body st"]
      by (simp add: held_ok_def sys_writes_def) (simp add: clear_chain_def)
  qed
  then show ?thesis using assms by (simp add: sys_ok_def shape_ok_def fresh_def sys_writes_def clear_chain_def)
qed

lemma others_stale:
  assumes "sys_ok cb st" and "sys_owner st \<noteq> Some k"
  shows "pc_ok cb False (sys_since st k) False p c (sys_pc st k)"
proof -
  have "pc_ok cb False (sys_since st k) (fresh st k) (last (sys_pairs st)) (last (sys_chains st)) (sys_pc st k)"
    using assms by (auto simp: sys_ok_def dest!: spec [of _ k])
  then show ?thesis by (rule pc_ok_stale)
qed

lemma ok_take:
  assumes "sys_ok cb st" and "po_seq (sys_body st) AND 1 = 0" and "job_ok cb j" and "kPathChainCapacity cb < 2 ^ 32"
  shows "sys_ok cb (st\<lparr>sys_pc := (sys_pc st)(i := W_store j (po_seq (sys_body st)) (stores_of j)),
      sys_body := (sys_body st)\<lparr>po_seq := po_seq (sys_body st) + 1\<rparr>, sys_owner := Some i\<rparr>)"
proof -
  have free: "sys_owner st = None" using even_free [of cb st] assms(1,2) by (simp add: sys_ok_def)
  then have held: "po_seq (sys_body st) = of_nat (2 * sys_writes st)" "rec_ok (last (sys_pairs st)) (last (sys_chains st)) (sys_body st)"
    using assms(1) by (simp_all add: sys_ok_def held_ok_def)
  have len: "length (po_chain (sys_body st)) = kPathChainCapacity cb div 4" using assms(1) by (simp add: sys_ok_def shape_ok_def)
  note r = job_leaves_record [OF assms(3) len assms(4) held(2)]
  have others: "pc_ok cb False (sys_since st k) False (last (sys_pairs st)) (last (sys_chains st)) (sys_pc st k)" for k
    by (rule others_stale [OF assms(1)]) (simp add: free)
  have since: "sys_since st k \<le> length (sys_pairs st) - Suc 0" for k using assms(1) by (simp add: sys_ok_def sys_writes_def)
  have "shape_ok cb st" using assms(1) by (simp add: sys_ok_def)
  then show ?thesis
    using assms(3) held r others since by (simp add: sys_ok_def shape_ok_def held_ok_def fresh_def sys_writes_def apply_stores_seq)
qed

lemma ok_store:
  assumes "sys_ok cb st" and "sys_pc st i = W_store j s (x # xs)"
  shows "sys_ok cb (st\<lparr>sys_pc := (sys_pc st)(i := W_store j s xs), sys_body := apply_store x (sys_body st), sys_owner := Some i\<rparr>)"
proof -
  have own: "sys_owner st = Some i" using assms by (auto simp: sys_ok_def dest: spec [of _ i])
  have others: "k \<noteq> i \<Longrightarrow> pc_ok cb False (sys_since st k) False (last (sys_pairs st)) (last (sys_chains st)) (sys_pc st k)" for k
    by (rule others_stale [OF assms(1)]) (simp add: own)
  have since: "sys_since st k \<le> length (sys_pairs st) - Suc 0" for k using assms(1) by (simp add: sys_ok_def sys_writes_def)
  have "shape_ok cb st" "held_ok cb st" using assms(1) by (simp_all add: sys_ok_def)
  then show ?thesis
    using assms(2) own others since by (simp add: sys_ok_def shape_ok_def held_ok_def fresh_def sys_writes_def)
qed

lemma ok_end:
  assumes "sys_ok cb st" and "sys_pc st i = W_store j s []"
  shows "sys_ok cb (st\<lparr>sys_pc := (sys_pc st)(i := W_ret True), sys_body := (sys_body st)\<lparr>po_seq := s + 2\<rparr>, sys_owner := None,
      sys_pairs := sys_pairs st @ [pair_after j (last (sys_pairs st))],
      sys_chains := sys_chains st @ [chain_after j (last (sys_chains st))]\<rparr>)" (is "sys_ok cb ?st")
proof -
  have own: "sys_owner st = Some i" using assms by (auto simp: sys_ok_def dest: spec [of _ i])
  have h: "s = of_nat (2 * sys_writes st)" "job_ok cb j"
    "rec_ok (pair_after j (last (sys_pairs st))) (chain_after j (last (sys_chains st))) (sys_body st)"
    using assms own by (auto simp: sys_ok_def held_ok_def)
  have w: "sys_writes ?st = Suc (sys_writes st)" using assms(1) by (simp add: sys_ok_def shape_ok_def sys_writes_def)
  have since: "sys_since st k \<le> sys_writes st" for k using assms(1) by (simp add: sys_ok_def)
  have stale: "fresh ?st k = False" for k using since [of k] w by (simp add: fresh_def)
  have pcs: "k \<noteq> i \<Longrightarrow> pc_ok cb False (sys_since st k) False p c (sys_pc st k)" for k p c
    by (rule others_stale [OF assms(1)]) (simp add: own)
  have "length (chain_after j (last (sys_chains st))) \<le> kPathChainCapacity cb"
    using h(2) assms(1) by (cases j) (simp_all add: job_ok_def sys_ok_def shape_ok_def)
  then have "shape_ok cb ?st" using assms(1) by (simp add: sys_ok_def shape_ok_def)
  moreover have "held_ok cb ?st" using h w by (simp add: held_ok_def)
  ultimately show ?thesis using since pcs stale w by (auto simp: sys_ok_def intro: le_SucI)
qed

lemma word_bytes_chain:
  assumes "w * 4 < length c"
  shows "take (w * 4) c @ word_bytes (length c) w (chain_word c w) = take (Suc w * 4) c"
proof -
  define n where "n = min 4 (length c - w * 4)"
  have n: "n \<le> 4" "length (take n (drop (w * 4) c)) = n" by (simp_all add: n_def)
  have "take n (le_bytes (chain_word c w) 4) = le_bytes (chain_word c w) n"
    using n(1) by (simp add: le_bytes_def take_map)
  also have "... = take n (drop (w * 4) c)"
    using le_bytes_load_le [where 'a = 32, of "take n (drop (w * 4) c)" n] n by (simp add: chain_word_def n_def)
  finally have "word_bytes (length c) w (chain_word c w) = take 4 (drop (w * 4) c)"
    by (simp add: word_bytes_def n_def min_def)
  then show ?thesis by (simp add: take_add [symmetric] add.commute)
qed

lemma fresh_record:
  assumes "sys_ok cb st" and "fresh st i"
  shows "po_index (sys_body st) = fst (last (sys_pairs st))" "po_gen (sys_body st) = snd (last (sys_pairs st))"
    "chain_ok (last (sys_chains st)) (sys_body st)"
proof -
  have "rec_ok (last (sys_pairs st)) (last (sys_chains st)) (sys_body st)" using assms by (simp add: sys_ok_def held_ok_def fresh_def)
  then show "po_index (sys_body st) = fst (last (sys_pairs st))" "po_gen (sys_body st) = snd (last (sys_pairs st))"
    "chain_ok (last (sys_chains st)) (sys_body st)"
    by (simp_all add: rec_ok_def prod_eq_iff)
qed

lemma pc_ok_here: "sys_ok cb st \<Longrightarrow>
  pc_ok cb (sys_owner st = Some k) (sys_since st k) (fresh st k) (last (sys_pairs st)) (last (sys_chains st)) (sys_pc st k)"
  by (simp add: sys_ok_def)

lemma owner_pc: "sys_ok cb st \<Longrightarrow> sys_owner st = Some i \<Longrightarrow> \<exists>j s todo. sys_pc st i = W_store j s todo"
  by (auto simp: sys_ok_def held_ok_def)

lemma run_ok:
  assumes ok: "sys_ok cb st" and cap: "kPathChainCapacity cb < 2 ^ 32" and step: "pc_step lf (sys_pc st i) (sys_body st) = (pc', b')"
    and unfinished: "\<not> finished (sys_pc st i)"
  shows "sys_ok cb (ghost_step i (sys_pc st i) pc' (st\<lparr>sys_pc := (sys_pc st)(i := pc'), sys_body := b'\<rparr>))"
proof -
  note here = pc_ok_here [OF ok, of i]
  have free: "sys_owner st \<noteq> Some i" if "\<not> holds (sys_pc st i)" using owner_pc [OF ok, of i] that by (auto simp: holds_def)
  have move: "sys_ok cb (ghost_step i (sys_pc st i) pc' (st\<lparr>sys_pc := (sys_pc st)(i := pc'), sys_body := b'\<rparr>))"
    if "\<not> holds (sys_pc st i)" "\<not> holds pc'" "\<not> loaded pc'" "b' = sys_body st"
      "pc_ok cb False (sys_since st i) (fresh st i) (last (sys_pairs st)) (last (sys_chains st)) pc'"
  proof -
    have "ghost_step i (sys_pc st i) pc' (st\<lparr>sys_pc := (sys_pc st)(i := pc'), sys_body := b'\<rparr>) = st\<lparr>sys_pc := (sys_pc st)(i := pc')\<rparr>"
      using that(1-4) by (simp add: ghost_step_def holds_def split: pc_t.splits)
    then show ?thesis using ok_move [OF ok free [OF that(1)] that(5)] by simp
  qed
  have load: "sys_ok cb (ghost_step i (sys_pc st i) pc' (st\<lparr>sys_pc := (sys_pc st)(i := pc'), sys_body := b'\<rparr>))"
    if "\<not> holds (sys_pc st i)" "\<not> holds pc'" "loaded pc'" "b' = sys_body st" "po_seq (sys_body st) AND 1 = 0"
      "pc_ok cb False (sys_writes st) True (last (sys_pairs st)) (last (sys_chains st)) pc'"
  proof -
    have "ghost_step i (sys_pc st i) pc' (st\<lparr>sys_pc := (sys_pc st)(i := pc'), sys_body := b'\<rparr>)
      = st\<lparr>sys_pc := (sys_pc st)(i := pc'), sys_since := (sys_since st)(i := sys_writes st)\<rparr>"
      using that(1-4) by (simp add: ghost_step_def holds_def sys_writes_def split: pc_t.splits)
    then show ?thesis using ok_loaded [OF ok that(5,6), of i] by simp
  qed
  have seq: "po_seq (sys_body st) AND 1 = 0 \<Longrightarrow> po_seq (sys_body st) = of_nat (2 * sys_writes st)"
    using even_free [of cb st] ok by (simp add: sys_ok_def held_ok_def)
  show ?thesis
  proof (cases "sys_pc st i")
    case (W_load j)
    then show ?thesis
      using step here move ok_take [OF ok _ _ cap, of j i]
      by (auto simp: Let_def holds_def loaded_def ghost_step_def split: if_splits)
  next
    case (W_cas j s)
    then show ?thesis
      using step here move ok_take [OF ok _ _ cap, of j i]
      by (auto simp: Let_def holds_def loaded_def ghost_step_def split: if_splits)
  next
    case (W_store j s todo)
    then show ?thesis
      using step ok_store [OF ok, of i j s] ok_end [OF ok, of i j s]
      by (cases todo) (auto simp: ghost_step_def holds_def)
  next
    case (R_seq t)
    then show ?thesis using step move load seq by (auto simp: Let_def holds_def loaded_def split: if_splits)
  next
    case (C_seq t cap)
    then show ?thesis using step move load seq by (auto simp: Let_def holds_def loaded_def split: if_splits)
  next
    case (C_word t c s len w out)
    have "w * 4 < len \<Longrightarrow> fresh st i \<Longrightarrow> out @ word_bytes len w (po_chain (sys_body st) ! w) = take (Suc w * 4) (last (sys_chains st))"
      using C_word here fresh_record(3) [OF ok, of i] word_bytes_chain [of w "last (sys_chains st)"] by (simp add: chain_ok_def)
    then have "pc_ok cb False (sys_since st i) (fresh st i) (last (sys_pairs st)) (last (sys_chains st)) pc' \<and> b' = sys_body st \<and>
        \<not> holds pc' \<and> \<not> loaded pc'"
      using C_word step here by (cases "w * 4 < len") (auto simp: holds_def loaded_def)
    then show ?thesis using move C_word by (simp add: holds_def)
  next
    case (C_len t c s)
    define len where "len = unat (po_chain_len (sys_body st))"
    have "fresh st i \<Longrightarrow> len \<noteq> 0 \<Longrightarrow> len = length (last (sys_chains st))"
      using fresh_record(3) [OF ok, of i] by (auto simp: chain_ok_def len_def)
    then have "pc_ok cb False (sys_since st i) (fresh st i) (last (sys_pairs st)) (last (sys_chains st)) pc' \<and> b' = sys_body st \<and>
        \<not> holds pc' \<and> \<not> loaded pc'"
      using C_len step here by (cases "len = 0 \<or> len > c") (auto simp: holds_def loaded_def Let_def len_def [symmetric])
    then show ?thesis using move C_len by (simp add: holds_def)
  next
    case (W_ret x)
    then show ?thesis using unfinished by simp
  next
    case (R_ret x)
    then show ?thesis using unfinished by simp
  next
    case (C_ret x y)
    then show ?thesis using unfinished by simp
  qed (use step here move fresh_record [OF ok, of i] unfinished in \<open>auto simp: Let_def holds_def loaded_def split: if_splits\<close>)
qed

lemma call_ok:
  assumes "sys_ok cb st" and "finished (sys_pc st i)" and "pc_ok cb False (sys_since st i) (fresh st i) (last (sys_pairs st)) (last (sys_chains st)) pc'"
  shows "sys_ok cb (st\<lparr>sys_pc := (sys_pc st)(i := pc')\<rparr>)"
proof (rule ok_move [OF assms(1) _ assms(3)])
  show "sys_owner st \<noteq> Some i" using owner_pc [OF assms(1), of i] assms(2) by fastforce
qed

lemma sys_step_ok: "sys_step cb lf st st' \<Longrightarrow> kPathChainCapacity cb < 2 ^ 32 \<Longrightarrow> sys_ok cb st \<Longrightarrow> sys_ok cb st'"
proof (induction rule: sys_step.induct)
  case (call_learn st i c pc' b')
  have "pc_ok cb False v fr p d pc'" for v fr p d
    using call_learn.hyps(2) by (auto simp: learn_call_def job_ok_def split: if_splits)
  note moved = call_ok [OF call_learn.prems(2) call_learn.hyps(1) this]
  have "b' = sys_body st \<or> b' = clear_chain (sys_body st)" using call_learn.hyps(2) by (auto simp: learn_call_def split: if_splits)
  then show ?case using moved ok_clear [OF moved] by auto
next
  case (run st i pc' b')
  show ?case by (rule run_ok [OF run.prems(2,1) run.hyps(2,1)])
next
  case (call_set st i e)
  show ?case by (rule call_ok [OF call_set.prems(2) call_set.hyps]) (simp add: job_ok_def)
next
  case (call_element0 st i)
  show ?case by (rule call_ok [OF call_element0.prems(2) call_element0.hyps]) simp
next
  case (call_chain st i cap)
  show ?case by (rule call_ok [OF call_chain.prems(2) call_chain.hyps]) simp
next
  case (call_clear st)
  show ?case by (rule ok_clear [OF call_clear.prems(2)])
qed

lemma sys_init_ok: "sys_ok cb (sys_init (body_init cb blk bytes key))"
  by (simp add: sys_ok_def shape_ok_def held_ok_def sys_init_def body_init_def sys_writes_def rec_ok_def chain_ok_def)

lemma reachable_ok:
  "reachable cb lf b st \<Longrightarrow> b = body_init cb blk bytes key \<Longrightarrow> kPathChainCapacity cb < 2 ^ 32 \<Longrightarrow> sys_ok cb st"
  by (induction rule: reachable.induct) (simp_all add: sys_init_ok sys_step_ok)

text \<open>The counter tells two moments apart while fewer than \<open>2 ^ 31\<close> writes complete between them.\<close>

lemma count_same:
  assumes "(of_nat (2 * v) :: 32 word) = of_nat (2 * u)" and "v \<le> u" and "u - v < 2 ^ 31"
  shows "u = v"
proof -
  have "(of_nat (2 * u) - of_nat (2 * v) :: 32 word) = of_nat (2 * (u - v))"
    using assms(2) by (simp add: of_nat_diff right_diff_distrib')
  then have "unat (of_nat (2 * (u - v)) :: 32 word) = 0" using assms(1) by simp
  moreover have "2 * (u - v) < 2 ^ 32" using assms(3) by simp
  then have "unat (of_nat (2 * (u - v)) :: 32 word) = 2 * (u - v)" by (simp add: unsigned_of_nat take_bit_nat_eq_self del: of_nat_mult)
  ultimately have "2 * (u - v) = 0" by simp
  then show ?thesis using assms(2) by simp
qed

lemma confirmed_fresh:
  assumes "sys_ok cb st" and "po_seq (sys_body st) = of_nat (2 * sys_since st i)" and "sys_writes st - sys_since st i < 2 ^ 31"
  shows "fresh st i"
proof -
  have free: "sys_owner st = None" using even_free [of cb st] assms(1,2) even_count by (simp add: sys_ok_def)
  have "sys_since st i \<le> sys_writes st" using assms(1) by (simp add: sys_ok_def)
  then have "sys_writes st = sys_since st i"
    using assms(1,2,3) free by (intro count_same) (simp_all add: sys_ok_def held_ok_def)
  then show ?thesis using free by (simp add: fresh_def)
qed

section \<open>No operation waits\<close>

text \<open>A thread's own steps against an arbitrary record at each, which is all the other threads can do to it.\<close>

fun drive :: "bool \<Rightarrow> pc_t \<Rightarrow> path_body_t list \<Rightarrow> pc_t" where
  "drive lock_free pc [] = pc"
| "drive lock_free pc (b # bs) = drive lock_free (fst (pc_step lock_free pc b)) bs"

definition words_of :: "nat \<Rightarrow> nat" where
  "words_of n = (n + 3) div 4"

fun budget :: "pc_t \<Rightarrow> nat" where
  "budget (W_load j) = length (stores_of j) + 3"
| "budget (W_cas j s) = length (stores_of j) + 2"
| "budget (W_store j s todo) = length todo + 1"
| "budget (R_seq t) = 4 * (kReadTries - t) + 1"
| "budget (R_index t s) = 4 * (kReadTries - Suc t) + 4"
| "budget (R_gen t s ix) = 4 * (kReadTries - Suc t) + 3"
| "budget (R_check t s ix g) = 4 * (kReadTries - Suc t) + 2"
| "budget (C_seq t cap) = (words_of cap + 4) * (kReadTries - t) + 1"
| "budget (C_len t cap s) = (words_of cap + 4) * (kReadTries - Suc t) + words_of cap + 4"
| "budget (C_word t cap s len w out) = (words_of cap + 4) * (kReadTries - Suc t) + words_of (len - w * 4) + 3"
| "budget (C_check t cap s len out) = (words_of cap + 4) * (kReadTries - Suc t) + 2"
| "budget pc = 0"

fun kind :: "pc_t \<Rightarrow> nat" where
  "kind Idle = 0"
| "kind (W_load _) = 1" | "kind (W_cas _ _) = 1" | "kind (W_store _ _ _) = 1" | "kind (W_ret _) = 1"
| "kind (R_seq _) = 2" | "kind (R_index _ _) = 2" | "kind (R_gen _ _ _) = 2" | "kind (R_check _ _ _ _) = 2" | "kind (R_ret _) = 2"
| "kind (C_seq _ _) = 3" | "kind (C_len _ _ _) = 3" | "kind (C_word _ _ _ _ _ _) = 3" | "kind (C_check _ _ _ _ _) = 3" | "kind (C_ret _ _) = 3"

lemma words_of_mono: "n \<le> m \<Longrightarrow> words_of n \<le> words_of m"
  by (simp add: words_of_def div_le_mono)

lemma words_of_less: "w * 4 < len \<Longrightarrow> words_of (len - Suc w * 4) < words_of (len - w * 4)"
proof -
  assume "w * 4 < len"
  moreover define x where "x = len - w * 4"
  ultimately have x: "0 < x" "len - Suc w * 4 = x - 4" by simp_all
  have "(x - 4 + 3) div 4 < (x + 3) div 4"
  proof (cases "x < 4")
    case False
    then have "x + 3 = x - 4 + 3 + 4" by simp
    then show ?thesis by (metis div_add_self2 less_add_one zero_neq_numeral)
  qed (use x(1) in \<open>simp add: div_greater_zero_iff\<close>)
  then show ?thesis by (simp only: words_of_def x(2) x_def [symmetric])
qed

lemma tries_step: "t < kReadTries \<Longrightarrow> (k :: nat) * (kReadTries - t) = k * (kReadTries - Suc t) + k"
  by (metis Suc_diff_Suc mult_Suc_right add.commute)

lemma kind_step: "kind (fst (pc_step lf pc b)) = kind pc"
  by (cases "(lf, pc, b)" rule: pc_step.cases) (simp_all add: Let_def)

lemma finished_step: "finished pc \<Longrightarrow> fst (pc_step lf pc b) = pc"
  by (cases pc) simp_all

lemma budget_step: "\<not> finished pc \<Longrightarrow> budget (fst (pc_step lf pc b)) < budget pc"
proof (cases pc)
  case (C_word t cap s len w out)
  then show ?thesis using words_of_less [of w len] by simp
next
  case (C_len t cap s)
  then show ?thesis using words_of_mono [of "unat (po_chain_len b)" cap] by (auto simp: Let_def)
next
  case (W_store j s todo)
  then show ?thesis by (cases todo) simp_all
qed (auto simp: Let_def tries_step)

lemma drive_finished: "finished pc \<Longrightarrow> drive lf pc bs = pc"
  by (induction bs) (simp_all add: finished_step)

lemma drive_kind: "kind (drive lf pc bs) = kind pc"
  by (induction bs arbitrary: pc) (simp_all add: kind_step)

lemma drive_ends: "budget pc \<le> length bs \<Longrightarrow> finished (drive lf pc bs)"
proof (induction bs arbitrary: pc)
  case Nil
  then show ?case by (cases pc) simp_all
next
  case (Cons b bs)
  show ?case
  proof (cases "finished pc")
    case True
    then show ?thesis by (simp add: finished_step drive_finished)
  next
    case False
    then show ?thesis using Cons.IH [of "fst (pc_step lf pc b)"] budget_step [OF False, of lf b] Cons.prems by simp
  qed
qed

lemma finished_kind:
  "finished pc \<Longrightarrow> kind pc = 1 \<Longrightarrow> \<exists>ok. pc = W_ret ok"
  "finished pc \<Longrightarrow> kind pc = 2 \<Longrightarrow> \<exists>r. pc = R_ret r"
  "finished pc \<Longrightarrow> kind pc = 3 \<Longrightarrow> \<exists>n out. pc = C_ret n out"
  by (cases pc; simp)+

section \<open>What an object owns\<close>

definition object_block :: "nat \<Rightarrow> status_t + path_body_t \<Rightarrow> block set" where
  "object_block ba r = (case r of Inl _ \<Rightarrow> {} | Inr b \<Rightarrow> {(po_block b, po_block_bytes b, ba)})"

context block_source
begin

lemma make_path_text_owned:
  assumes "inv m L" and "pe_src env = ops" and "pe_alignof_field env = 2 ^ k" and "k \<le> w" and "0 < bs" and "ba = 2 ^ i" and "i \<le> w"
    and "make_path_text env cb bs ba txt m = (r, m')"
  shows "inv m' (L \<union> object_block ba r) \<and> L \<inter> object_block ba r = {}"
proof -
  obtain pr m1 where p: "parse env txt m = (pr, m1)" by fastforce
  note po = parse_owned [OF assms(1-4) p]
  show ?thesis
  proof (cases pr)
    case (Inl e)
    then show ?thesis using assms(8) p po by (auto simp: make_path_text_def object_block_def parsed_block_def)
  next
    case (Inr q)
    define P where "P = path_block env q"
    have live: "inv m1 (L \<union> P)" "L \<inter> P = {}" using po Inr by (simp_all add: parsed_block_def P_def)
    show ?thesis
    proof (cases "path_field q = []")
      case False
      then show ?thesis
        using assms(2,8) p Inr path_release_owned [OF live [unfolded P_def]] by (auto simp: make_path_text_def object_block_def)
    next
      case True
      obtain a m2 where al: "try_alloc ops m1 (bs + length (path_t_key q)) ba = (a, m2)" by fastforce
      have req: "request_ok w (bs + length (path_t_key q)) ba" using assms(5,6,7) by (auto simp: request_ok_def)
      show ?thesis
      proof (cases a)
        case None
        then have "inv m2 (L \<union> path_block env q)" using alloc_refuse [OF live(1) req] al by (simp add: P_def)
        then show ?thesis
          using assms(2,8) p Inr True al None path_release_owned live(2) by (auto simp: make_path_text_def object_block_def P_def)
      next
        case (Some blk)
        define B where "B = (blk, bs + length (path_t_key q), ba)"
        have g: "inv m2 (insert B (L \<union> P))" "B \<notin> L \<union> P" using alloc_grant [OF live(1) req] al Some by (simp_all add: B_def)
        have "inv m2 (insert B L \<union> path_block env q)" "insert B L \<inter> path_block env q = {}"
          using g live(2) by (auto simp: P_def)
        then have "inv (snd (path_release env q m2)) (insert B L)" by (rule path_release_owned [OF _ _ assms(2)])
        then show ?thesis
          using assms(2,8) p Inr True al Some g(2)
          by (auto simp: make_path_text_def object_block_def body_init_def B_def)
      qed
    qed
  qed
qed

lemma object_release_owned:
  assumes "inv m (L \<union> object_block ba (Inr b))" and "L \<inter> object_block ba (Inr b) = {}"
  shows "inv (snd (object_release ops ba (Some b) m)) L"
  using assms release_one [of m "po_block b" "po_block_bytes b" ba L] by (simp add: object_release_def object_block_def)

end

section \<open>Properties\<close>

text \<open>
  C18. A confirmed read is one write's record, whole. However threads interleave, when \<open>element0\<close>
  returns a pair it is the pair the last completed write left, never the index of one write with
  the generation of another, and when \<open>chain\<close> returns bytes they are exactly the last chain learned;
  provided fewer than \<open>2 ^ 31\<close> writes complete between the reader's two loads of the counter.
\<close>

theorem path_object_reads_whole:
  assumes "reachable cb lf (body_init cb blk bytes key) st" and "kPathChainCapacity cb < 2 ^ 32"
    and "\<not> finished (sys_pc st i)" and "sys_writes st - sys_since st i < 2 ^ 31"
  shows "(pc_step lf (sys_pc st i) (sys_body st) = (R_ret (Some p), b') \<longrightarrow> last (sys_pairs st) = (pair_index p, pair_generation p)) \<and>
    (pc_step lf (sys_pc st i) (sys_body st) = (C_ret n out, b') \<longrightarrow> 0 < n \<longrightarrow> out = last (sys_chains st) \<and> n = length out)"
proof -
  note ok = reachable_ok [OF assms(1) refl assms(2)]
  note here = pc_ok_here [OF ok, of i]
  have confirmed: "po_seq (sys_body st) = of_nat (2 * sys_since st i) \<Longrightarrow> fresh st i"
    using confirmed_fresh [OF ok _ assms(4)] .
  show ?thesis
  proof (cases "sys_pc st i")
    case (R_check t s ix g)
    then show ?thesis using here confirmed by (auto simp: slot_of_def split: if_splits)
  next
    case (C_check t cap s len out')
    then show ?thesis using here confirmed by auto
  next
    case (W_store j s todo)
    then show ?thesis by (cases todo) simp_all
  qed (use assms(3) in \<open>auto simp: Let_def split: if_splits\<close>)
qed

text \<open>A schedule, as the list of the threads that take a step.\<close>

definition run_thread :: "bool \<Rightarrow> nat \<Rightarrow> sys_t \<Rightarrow> sys_t" where
  "run_thread lock_free i st =
     (case pc_step lock_free (sys_pc st i) (sys_body st) of
        (pc', b') \<Rightarrow> ghost_step i (sys_pc st i) pc' (st\<lparr>sys_pc := (sys_pc st)(i := pc'), sys_body := b'\<rparr>))"

lemma reachable_run:
  "reachable cb lf b st \<Longrightarrow> \<not> finished (sys_pc st i) \<Longrightarrow> reachable cb lf b (run_thread lf i st)"
  unfolding run_thread_def
  by (cases "pc_step lf (sys_pc st i) (sys_body st)") (auto intro: reachable.next_step sys_step.run)

definition example_pair :: pair_t where
  "example_pair = \<lparr>pair_index = 7, pair_generation = 3\<rparr>"

lemmas run_simps = sys_init_def body_init_def run_thread_def ghost_step_def holds_def loaded_def set_element0_stores_def

theorem path_object_reads_whole_witness:
  "\<exists>st. reachable 40 True (body_init 40 16 64 []) st \<and> \<not> finished (sys_pc st 1) \<and> sys_writes st - sys_since st 1 < 2 ^ 31 \<and>
     pc_step True (sys_pc st 1) (sys_body st) = (R_ret (Some example_pair), sys_body st) \<and>
     last (sys_pairs st) = (pair_index example_pair, pair_generation example_pair)"
proof -
  let ?b = "body_init 40 16 64 []"
  let ?r = "reachable 40 True ?b"
  note run = reachable_run [where cb = 40 and lf = True and b = ?b]
  define s0 where "s0 = (sys_init ?b)\<lparr>sys_pc := (sys_pc (sys_init ?b))(0 := W_load (Set_element0 (Some example_pair)))\<rparr>"
  have r0: "?r s0" unfolding s0_def by (rule reachable.next_step [OF reachable.start sys_step.call_set]) (simp add: sys_init_def)
  define s1 where "s1 = run_thread True 0 (run_thread True 0 (run_thread True 0 (run_thread True 0 (run_thread True 0 s0))))"
  have r1: "?r s1" unfolding s1_def by (intro run r0) (simp_all add: s0_def run_simps Let_def)
  define s2 where "s2 = s1\<lparr>sys_pc := (sys_pc s1)(1 := R_seq 0)\<rparr>"
  have "sys_pc s1 1 = Idle" by (simp add: s1_def s0_def run_simps Let_def)
  then have r2: "?r s2" unfolding s2_def by (intro reachable.next_step [OF r1 sys_step.call_element0]) simp
  define st where "st = run_thread True 1 (run_thread True 1 (run_thread True 1 s2))"
  have r: "?r st" unfolding st_def
    by (intro run r2) (simp_all add: s2_def s1_def s0_def run_simps Let_def kReadTries_def)
  have at: "\<not> finished (sys_pc st 1)" "sys_writes st - sys_since st 1 < 2 ^ 31"
    "pc_step True (sys_pc st 1) (sys_body st) = (R_ret (Some example_pair), sys_body st)"
    by (simp_all add: st_def s2_def s1_def s0_def run_simps Let_def kReadTries_def sys_writes_def slot_of_def example_pair_def
        kGenerationSaturated_def)
  have "kPathChainCapacity 40 < 2 ^ 32" by (simp add: kPathChainCapacity_def)
  from path_object_reads_whole [OF r this at(1,2), of example_pair "sys_body st" 0 "[]"] r at show ?thesis by blast
qed





end
