(* ===== verification/Sorted_Map.thy ===== *)
theory Sorted_Map
  imports Block_Array
begin

text \<open>
  The sorted map of \<^verbatim>\<open>mem_sorted_map.hpp\<close>: entries in one block array, kept in key order, found by
  binary search. \<open>lt\<close> is the key order and \<open>es\<close>, \<open>ea\<close> the size and alignment of an entry. The
  lemmas show that on a strict total order the operations are those of a finite map, that the order
  is kept, and that a refused insert changes nothing.
\<close>

section \<open>Operations\<close>

type_synonym ('k, 'v) sorted_map_t = "('k \<times> 'v) block_array_t"

function lb_loop :: "('k \<Rightarrow> 'k \<Rightarrow> bool) \<Rightarrow> ('k \<times> 'v) list \<Rightarrow> 'k \<Rightarrow> nat \<Rightarrow> nat \<Rightarrow> nat" where
  "lb_loop lt entries key lo n =
     (if n > 0 then
        let half = n div 2
        in if lt (fst (entries ! (lo + half))) key then lb_loop lt entries key (lo + (half + 1)) (n - (half + 1))
           else lb_loop lt entries key lo half
      else lo)"
  by pat_completeness auto
termination by (relation "measure (\<lambda>(lt, entries, key, lo, n). n)") auto

declare lb_loop.simps [simp del]

definition lower_bound :: "('k \<Rightarrow> 'k \<Rightarrow> bool) \<Rightarrow> ('k, 'v) sorted_map_t \<Rightarrow> 'k \<Rightarrow> nat" where
  "lower_bound lt mp key = lb_loop lt (ba_elems mp) key 0 (ba_size mp)"

text \<open>Where an entry is, for the operations that hand out a pointer to its value.\<close>

definition map_find :: "('k \<Rightarrow> 'k \<Rightarrow> bool) \<Rightarrow> ('k, 'v) sorted_map_t \<Rightarrow> 'k \<Rightarrow> nat option" where
  "map_find lt mp key =
     (let i = lower_bound lt mp key
      in if i \<noteq> ba_size mp \<and> \<not> lt key (fst (ba_elems mp ! i)) then Some i else None)"

definition map_contains :: "('k \<Rightarrow> 'k \<Rightarrow> bool) \<Rightarrow> ('k, 'v) sorted_map_t \<Rightarrow> 'k \<Rightarrow> bool" where
  "map_contains lt mp key \<longleftrightarrow> map_find lt mp key \<noteq> None"

text \<open>The answer: the index of the entry, or none when refused, and whether this call added it.\<close>

definition try_emplace ::
  "'m source_ops \<Rightarrow> nat \<Rightarrow> nat \<Rightarrow> ('k \<Rightarrow> 'k \<Rightarrow> bool) \<Rightarrow> ('k, 'v) sorted_map_t \<Rightarrow> 'k \<Rightarrow> 'v \<Rightarrow> 'm \<Rightarrow>
    (nat option \<times> bool) \<times> ('k, 'v) sorted_map_t \<times> 'm" where
  "try_emplace src es ea lt mp key v m =
     (let i = lower_bound lt mp key
      in if i \<noteq> ba_size mp \<and> \<not> lt key (fst (ba_elems mp ! i)) then ((Some i, False), mp, m)
         else
           (case ba_emplace_at src es ea i (key, v) mp m of
              (False, mp', m') \<Rightarrow> ((None, False), mp', m')
            | (True, mp', m') \<Rightarrow> ((Some i, True), mp', m')))"

definition map_erase :: "('k \<Rightarrow> 'k \<Rightarrow> bool) \<Rightarrow> ('k, 'v) sorted_map_t \<Rightarrow> 'k \<Rightarrow> bool \<times> ('k, 'v) sorted_map_t" where
  "map_erase lt mp key =
     (let i = lower_bound lt mp key
      in if i = ba_size mp \<or> lt key (fst (ba_elems mp ! i)) then (False, mp) else (True, ba_erase_at i 1 mp))"

text \<open>Storing through the pointer \<open>find\<close> or \<open>try_emplace\<close> returned.\<close>

definition map_store :: "nat \<Rightarrow> ('v \<Rightarrow> 'v) \<Rightarrow> ('k, 'v) sorted_map_t \<Rightarrow> ('k, 'v) sorted_map_t" where
  "map_store i f mp = mp\<lparr>ba_elems := (ba_elems mp)[i := (fst (ba_elems mp ! i), f (snd (ba_elems mp ! i)))]\<rparr>"

section \<open>The map it implements\<close>

definition keys_sorted :: "('k \<Rightarrow> 'k \<Rightarrow> bool) \<Rightarrow> ('k, 'v) sorted_map_t \<Rightarrow> bool" where
  "keys_sorted lt mp \<longleftrightarrow> sorted_wrt (\<lambda>a b. lt (fst a) (fst b)) (ba_elems mp)"

definition map_value :: "('k, 'v) sorted_map_t \<Rightarrow> 'k \<Rightarrow> 'v option" where
  "map_value mp = map_of (ba_elems mp)"

lemma sorted_wrt_nth: "sorted_wrt P xs \<Longrightarrow> i < j \<Longrightarrow> j < length xs \<Longrightarrow> P (xs ! i) (xs ! j)"
  by (simp add: sorted_wrt_iff_nth_less)

text \<open>What the map relies on: a strict total order.\<close>

locale key_order =
  fixes lt :: "'k \<Rightarrow> 'k \<Rightarrow> bool"
  assumes irrefl: "\<not> lt a a"
    and trans: "lt a b \<Longrightarrow> lt b c \<Longrightarrow> lt a c"
    and total: "\<not> lt a b \<Longrightarrow> \<not> lt b a \<Longrightarrow> a = b"
begin

lemma lb_loop_spec:
  assumes "sorted_wrt (\<lambda>a b. lt (fst a) (fst b)) xs"
  shows "lo + n \<le> length xs \<Longrightarrow> (\<And>i. i < lo \<Longrightarrow> lt (fst (xs ! i)) key) \<Longrightarrow>
    (\<And>i. lo + n \<le> i \<Longrightarrow> i < length xs \<Longrightarrow> \<not> lt (fst (xs ! i)) key) \<Longrightarrow>
    lb_loop lt xs key lo n \<le> length xs \<and> (\<forall>i < lb_loop lt xs key lo n. lt (fst (xs ! i)) key) \<and>
    (\<forall>i. lb_loop lt xs key lo n \<le> i \<longrightarrow> i < length xs \<longrightarrow> \<not> lt (fst (xs ! i)) key)"
proof (induction n arbitrary: lo rule: less_induct)
  case (less n)
  define half where "half = n div 2"
  show ?case
  proof (cases "n > 0")
    case False
    then show ?thesis using less.prems by (simp add: lb_loop.simps [of lt xs key lo 0])
  next
    case True
    then have h: "half < n" by (simp add: half_def)
    note eq = lb_loop.simps [of lt xs key lo n, folded half_def]
    show ?thesis
    proof (cases "lt (fst (xs ! (lo + half))) key")
      case True
      have below: "lt (fst (xs ! i)) key" if "i < lo + (half + 1)" for i
      proof (cases "i = lo + half")
        case False
        then have "lt (fst (xs ! i)) (fst (xs ! (lo + half)))"
          using sorted_wrt_nth [OF assms, of i "lo + half"] that h less.prems(1) by simp
        then show ?thesis using True trans by blast
      qed (use True in simp)
      have "lb_loop lt xs key lo n = lb_loop lt xs key (lo + (half + 1)) (n - (half + 1))"
        using eq True \<open>n > 0\<close> by (simp add: Let_def half_def)
      then show ?thesis using less.IH [of "n - (half + 1)" "lo + (half + 1)"] below less.prems h by simp
    next
      case False
      have above: "\<not> lt (fst (xs ! i)) key" if "lo + half \<le> i" "i < length xs" for i
      proof (cases "i = lo + half")
        case False
        then have "lt (fst (xs ! (lo + half))) (fst (xs ! i))"
          using sorted_wrt_nth [OF assms, of "lo + half" i] that by simp
        then show ?thesis using \<open>\<not> lt (fst (xs ! (lo + half))) key\<close> trans by blast
      qed (use False in simp)
      have "lb_loop lt xs key lo n = lb_loop lt xs key lo half"
        using eq False \<open>n > 0\<close> by (simp add: Let_def half_def)
      then show ?thesis using less.IH [OF h, of lo] above less.prems h by simp
    qed
  qed
qed

lemma lower_bound_spec:
  assumes "keys_sorted lt mp"
  shows "lower_bound lt mp key \<le> ba_size mp" "i < lower_bound lt mp key \<Longrightarrow> lt (fst (ba_elems mp ! i)) key"
    "lower_bound lt mp key \<le> i \<Longrightarrow> i < ba_size mp \<Longrightarrow> \<not> lt (fst (ba_elems mp ! i)) key"
  using lb_loop_spec [OF assms [unfolded keys_sorted_def], of 0 "ba_size mp" key] by (auto simp: lower_bound_def)

lemma keys_distinct:
  assumes "keys_sorted lt mp"
  shows "distinct (map fst (ba_elems mp))"
proof -
  have "fst (ba_elems mp ! i) \<noteq> fst (ba_elems mp ! j)" if "i < j" "j < ba_size mp" for i j
    using sorted_wrt_nth [OF assms [unfolded keys_sorted_def] that] irrefl by metis
  then show ?thesis by (auto simp: distinct_conv_nth) (metis nat_neq_iff)
qed

lemma key_at_bound:
  assumes "keys_sorted lt mp" and "(key, v) \<in> set (ba_elems mp)"
  shows "lower_bound lt mp key < ba_size mp" "ba_elems mp ! lower_bound lt mp key = (key, v)"
proof -
  obtain j where j: "j < ba_size mp" "ba_elems mp ! j = (key, v)" using assms(2) by (auto simp: in_set_conv_nth)
  let ?b = "lower_bound lt mp key"
  have "\<not> j < ?b" using lower_bound_spec(2) [OF assms(1), of j key] j irrefl by auto
  moreover have "\<not> ?b < j"
    using lower_bound_spec(3) [OF assms(1), of key ?b] sorted_wrt_nth [OF assms(1) [unfolded keys_sorted_def], of ?b j] j by auto
  ultimately have "j = ?b" by simp
  then show "?b < ba_size mp" "ba_elems mp ! ?b = (key, v)" using j by simp_all
qed

lemma bound_is_key:
  assumes "keys_sorted lt mp" and "lower_bound lt mp key < ba_size mp" and "\<not> lt key (fst (ba_elems mp ! lower_bound lt mp key))"
  shows "fst (ba_elems mp ! lower_bound lt mp key) = key"
  using total lower_bound_spec(3) [OF assms(1), of key "lower_bound lt mp key"] assms(2,3) by blast

lemma find_spec:
  assumes "keys_sorted lt mp"
  shows "map_find lt mp key =
    (case map_value mp key of None \<Rightarrow> None | Some v \<Rightarrow> Some (lower_bound lt mp key))"
    and "map_value mp key = Some v \<Longrightarrow> lower_bound lt mp key < ba_size mp \<and> ba_elems mp ! lower_bound lt mp key = (key, v)"
proof -
  let ?b = "lower_bound lt mp key"
  show at: "?b < ba_size mp \<and> ba_elems mp ! ?b = (key, v)" if "map_value mp key = Some v" for v
    using key_at_bound [OF assms map_of_SomeD [OF that [unfolded map_value_def]]] by simp
  show "map_find lt mp key = (case map_value mp key of None \<Rightarrow> None | Some v \<Rightarrow> Some ?b)"
  proof (cases "map_value mp key")
    case None
    have "?b < ba_size mp \<Longrightarrow> lt key (fst (ba_elems mp ! ?b))"
    proof (rule ccontr)
      assume b: "?b < ba_size mp" "\<not> lt key (fst (ba_elems mp ! ?b))"
      then have "fst (ba_elems mp ! ?b) = key" by (rule bound_is_key [OF assms])
      then have "key \<in> fst ` set (ba_elems mp)" using b(1) by (metis image_eqI nth_mem)
      then show False using None by (simp add: map_value_def map_of_eq_None_iff)
    qed
    then show ?thesis using None lower_bound_spec(1) [OF assms, of key] by (auto simp: map_find_def Let_def order_le_less)
  next
    case (Some v)
    then show ?thesis using at [OF Some] irrefl by (simp add: map_find_def Let_def)
  qed
qed

lemma contains_spec: "keys_sorted lt mp \<Longrightarrow> map_contains lt mp key \<longleftrightarrow> map_value mp key \<noteq> None"
  by (simp add: map_contains_def find_spec(1) split: option.splits)

lemma insert_sorted:
  assumes "keys_sorted lt mp" and "map_value mp key = None"
  shows "keys_sorted lt (mp\<lparr>ba_elems := take (lower_bound lt mp key) (ba_elems mp) @ (key, v) # drop (lower_bound lt mp key) (ba_elems mp)\<rparr>)"
proof -
  let ?b = "lower_bound lt mp key" and ?xs = "ba_elems mp"
  have srt: "sorted_wrt (\<lambda>a b. lt (fst a) (fst b)) (take ?b ?xs @ drop ?b ?xs)" using assms(1) by (simp add: keys_sorted_def)
  have below: "e \<in> set (take ?b ?xs) \<Longrightarrow> lt (fst e) key" for e
    using lower_bound_spec(2) [OF assms(1), of _ key] by (auto simp: in_set_conv_nth)
  have "e \<in> set (drop ?b ?xs) \<Longrightarrow> lt key (fst e)" for e
  proof -
    assume e: "e \<in> set (drop ?b ?xs)"
    obtain k where k: "k < length (drop ?b ?xs)" "drop ?b ?xs ! k = e" using e by (auto simp: in_set_conv_nth)
    define j where "j = ?b + k"
    have j: "?b \<le> j" "j < length ?xs" "e = ?xs ! j" using k lower_bound_spec(1) [OF assms(1), of key] by (simp_all add: j_def)
    have "fst e \<noteq> key" using assms(2) in_set_dropD [OF e] by (auto simp: map_value_def map_of_eq_None_iff image_iff)
    then show ?thesis using total lower_bound_spec(3) [OF assms(1) j(1,2)] j(3) by blast
  qed
  moreover from srt have "sorted_wrt (\<lambda>a b. lt (fst a) (fst b)) (take ?b ?xs)" "sorted_wrt (\<lambda>a b. lt (fst a) (fst b)) (drop ?b ?xs)"
    by (simp_all only: sorted_wrt_append)
  moreover have "lt (fst x) (fst y)" if "x \<in> set (take ?b ?xs)" "y \<in> set (drop ?b ?xs)" for x y
    using trans below [OF that(1)] calculation(1) [OF that(2)] by blast
  ultimately show ?thesis using below by (simp add: keys_sorted_def sorted_wrt_append)
qed

lemma emplace_spec:
  assumes "keys_sorted lt mp" and "try_emplace src es ea lt mp key v m = ((r, added), mp', m')"
  shows "(added \<longrightarrow> map_value mp key = None \<and> map_value mp' = (map_value mp)(key \<mapsto> v) \<and> r \<noteq> None) \<and> (\<not> added \<longrightarrow> mp' = mp) \<and>
    (r = None \<longleftrightarrow> map_value mp key = None \<and> \<not> added) \<and> (\<forall>i. r = Some i \<longrightarrow> i < ba_size mp' \<and> fst (ba_elems mp' ! i) = key) \<and>
    keys_sorted lt mp'"
proof (cases "map_value mp key")
  case (Some u)
  then have "r = Some (lower_bound lt mp key)" "\<not> added" "mp' = mp"
    using assms(2) find_spec(2) [OF assms(1) Some] irrefl by (auto simp: try_emplace_def Let_def)
  then show ?thesis using Some find_spec(2) [OF assms(1) Some] assms(1) by simp
next
  case None
  let ?b = "lower_bound lt mp key"
  have c: "\<not> (?b \<noteq> ba_size mp \<and> \<not> lt key (fst (ba_elems mp ! ?b)))"
    using find_spec(1) [OF assms(1), of key] None by (auto simp: map_find_def Let_def split: if_splits)
  obtain ok mp1 m1 where e: "ba_emplace_at src es ea ?b (key, v) mp m = (ok, mp1, m1)" by (metis prod_cases3)
  have b: "?b \<le> ba_size mp" by (rule lower_bound_spec(1) [OF assms(1)])
  note sp = ba_emplace_at_spec [OF e]
  show ?thesis
  proof (cases ok)
    case True
    have el: "ba_elems mp1 = take ?b (ba_elems mp) @ (key, v) # drop ?b (ba_elems mp)" using sp True by simp
    have "map_value mp1 = (map_value mp)(key \<mapsto> v)"
    proof -
      obtain xs ys where split: "take ?b (ba_elems mp) = xs" "drop ?b (ba_elems mp) = ys" by blast
      then have whole: "ba_elems mp = xs @ ys" by (metis append_take_drop_id)
      have "map_of xs key = None" using None by (simp add: map_value_def whole map_of_eq_None_iff)
      moreover have "ba_elems mp1 = xs @ (key, v) # ys" using el split by simp
      ultimately show ?thesis unfolding map_value_def whole by (auto simp: map_add_def fun_eq_iff split: option.splits)
    qed
    moreover have "keys_sorted lt mp1" using insert_sorted [OF assms(1) None, of v] el by (simp add: keys_sorted_def)
    moreover have "(r, added) = (Some ?b, True)" "mp' = mp1"
      using assms(2) unfolding try_emplace_def Let_def if_not_P [OF c] e by (simp_all add: True)
    moreover have "?b < ba_size mp1" "ba_elems mp1 ! ?b = (key, v)" using b by (simp_all add: el nth_append)
    ultimately show ?thesis using None by simp
  next
    case False
    then have "(r, added) = (None, False)" "mp' = mp"
      using assms(2) sp unfolding try_emplace_def Let_def if_not_P [OF c] e by simp_all
    then show ?thesis using assms(1) None by simp
  qed
qed

lemma erase_spec:
  assumes "keys_sorted lt mp" and "map_erase lt mp key = (ok, mp')"
  shows "ok \<longleftrightarrow> map_value mp key \<noteq> None" and "map_value mp' = (map_value mp)(key := None)" and "keys_sorted lt mp'"
    and "map_value mp key = None \<Longrightarrow> mp' = mp"
    and "map_value mp key = Some v \<Longrightarrow> \<exists>xs ys. ba_elems mp = xs @ (key, v) # ys \<and> ba_elems mp' = xs @ ys"
proof -
  let ?b = "lower_bound lt mp key"
  have absent: "ok = False \<and> mp' = mp" if "map_value mp key = None"
    using that assms(2) find_spec(1) [OF assms(1), of key] by (auto simp: map_erase_def map_find_def Let_def split: if_splits)
  have present: "ok \<and> (\<exists>xs ys. ba_elems mp = xs @ (key, v) # ys \<and> ba_elems mp' = xs @ ys)" if v: "map_value mp key = Some v" for v
  proof -
    note at = find_spec(2) [OF assms(1) v]
    have "ok" "mp' = ba_erase_at ?b 1 mp" using at assms(2) irrefl by (auto simp: map_erase_def Let_def split: if_splits)
    moreover have "ba_elems mp = take ?b (ba_elems mp) @ (key, v) # drop (?b + 1) (ba_elems mp)"
      using at id_take_nth_drop [of ?b "ba_elems mp"] by simp
    ultimately show ?thesis by (auto simp: ba_erase_at_def)
  qed
  show "ok \<longleftrightarrow> map_value mp key \<noteq> None" using absent present by (cases "map_value mp key") auto
  show "map_value mp key = None \<Longrightarrow> mp' = mp" using absent by simp
  show "map_value mp key = Some v \<Longrightarrow> \<exists>xs ys. ba_elems mp = xs @ (key, v) # ys \<and> ba_elems mp' = xs @ ys" using present by simp
  show "map_value mp' = (map_value mp)(key := None)"
  proof (cases "map_value mp key")
    case (Some u)
    then obtain xs ys where e: "ba_elems mp = xs @ (key, u) # ys" "ba_elems mp' = xs @ ys" using present by blast
    have "key \<notin> fst ` set (xs @ ys)" using keys_distinct [OF assms(1)] by (auto simp: e)
    then have "map_of (xs @ ys) key = None" by (simp only: map_of_eq_None_iff not_False_eq_True)
    then show ?thesis by (auto simp: map_value_def e map_add_def fun_eq_iff split: option.splits)
  qed (use absent in \<open>auto simp: fun_eq_iff\<close>)
  show "keys_sorted lt mp'"
  proof (cases "map_value mp key")
    case (Some u)
    then obtain xs ys where "ba_elems mp = xs @ (key, u) # ys" "ba_elems mp' = xs @ ys" using present by blast
    then show ?thesis using assms(1) by (auto simp: keys_sorted_def sorted_wrt_append)
  qed (use absent assms(1) in simp)
qed

lemma store_spec:
  assumes "keys_sorted lt mp" and "map_value mp key = Some v"
  shows "\<exists>xs ys. ba_elems mp = xs @ (key, v) # ys \<and> ba_elems (map_store (lower_bound lt mp key) f mp) = xs @ (key, f v) # ys"
proof -
  define b where "b = lower_bound lt mp key"
  have at: "b < ba_size mp" "ba_elems mp ! b = (key, v)" using find_spec(2) [OF assms] by (simp_all add: b_def)
  have "ba_elems mp = take b (ba_elems mp) @ (key, v) # drop (Suc b) (ba_elems mp)"
    using at id_take_nth_drop [of b "ba_elems mp"] by simp
  moreover have "ba_elems (map_store b f mp) = take b (ba_elems mp) @ (key, f v) # drop (Suc b) (ba_elems mp)"
    using at by (simp add: map_store_def upd_conv_take_nth_drop)
  ultimately show ?thesis unfolding b_def by blast
qed

lemma store_value:
  assumes "keys_sorted lt mp" and "map_value mp key = Some v"
  shows "map_value (map_store (lower_bound lt mp key) f mp) = (map_value mp)(key \<mapsto> f v)"
    and "keys_sorted lt (map_store (lower_bound lt mp key) f mp)"
proof -
  define mp' where "mp' = map_store (lower_bound lt mp key) f mp"
  obtain xs ys where e: "ba_elems mp = xs @ (key, v) # ys" "ba_elems mp' = xs @ (key, f v) # ys"
    using store_spec [OF assms, of f] unfolding mp'_def by blast
  have "map_of xs key = None" using keys_distinct [OF assms(1)] by (simp add: e map_of_eq_None_iff)
  then have "map_value mp' = (map_value mp)(key \<mapsto> f v)"
    unfolding map_value_def e by (auto simp: map_add_def fun_eq_iff split: option.splits)
  then show "map_value (map_store (lower_bound lt mp key) f mp) = (map_value mp)(key \<mapsto> f v)" by (simp only: mp'_def)
  have "keys_sorted lt mp'" using assms(1) by (simp add: keys_sorted_def e sorted_wrt_append)
  then show "keys_sorted lt (map_store (lower_bound lt mp key) f mp)" by (simp only: mp'_def)
qed

end

section \<open>Properties\<close>

text \<open>
  C21. The sorted array is a finite map. On a strict total order of keys, and from entries in key order, the
  binary search finds exactly the keys that are present; an insert adds its key with its value
  or, when the key is present or the source refuses, changes nothing, and answers no entry only
  on a refusal; an erase removes its key and no other; and every operation keeps the order.
\<close>

theorem sorted_map_is_map:
  assumes "key_order lt" and "keys_sorted lt mp"
  shows "(map_contains lt mp key \<longleftrightarrow> map_value mp key \<noteq> None) \<and>
    (\<forall>i. map_find lt mp key = Some i \<longrightarrow> i < ba_size mp \<and> map_value mp key = Some (snd (ba_elems mp ! i))) \<and>
    (case try_emplace src es ea lt mp key v m of
       ((r, added), mp', m') \<Rightarrow>
         keys_sorted lt mp' \<and>
         (if added then map_value mp key = None \<and> map_value mp' = (map_value mp)(key \<mapsto> v)
          else mp' = mp \<and> (r = None \<longleftrightarrow> map_value mp key = None))) \<and>
    (case map_erase lt mp key of
       (ok, mp') \<Rightarrow> keys_sorted lt mp' \<and> (ok \<longleftrightarrow> map_value mp key \<noteq> None) \<and> map_value mp' = (map_value mp)(key := None))"
proof -
  obtain r added mp1 m1 where e: "try_emplace src es ea lt mp key v m = ((r, added), mp1, m1)" by (metis prod.collapse)
  obtain ok mp2 where d: "map_erase lt mp key = (ok, mp2)" by fastforce
  have f: "map_find lt mp key = Some i \<Longrightarrow> i < ba_size mp \<and> map_value mp key = Some (snd (ba_elems mp ! i))" for i
    using key_order.find_spec(1) [OF assms, of key] key_order.find_spec(2) [OF assms, of key] by (cases "map_value mp key") auto
  show ?thesis
    using key_order.contains_spec [OF assms, of key] key_order.emplace_spec [OF assms e] key_order.erase_spec(1-3) [OF assms d] f e d
    by auto
qed

definition example_map :: "(nat, byte) sorted_map_t" where
  "example_map = \<lparr>ba_elems = [(3, 7), (5, 9)], ba_cap = 4, ba_data = 16\<rparr>"

theorem sorted_map_is_map_witness:
  "map_contains (<) example_map 5 \<and> \<not> map_contains (<) example_map 4 \<and>
   (\<exists>mp'. map_erase (<) example_map 5 = (True, mp') \<and> map_value mp' 5 = None)"
proof -
  have o: "key_order ((<) :: nat \<Rightarrow> nat \<Rightarrow> bool)" by unfold_locales auto
  have s: "keys_sorted (<) example_map" by (simp add: keys_sorted_def example_map_def)
  have "map_value example_map 5 = Some 9" "map_value example_map 4 = None" by (simp_all add: map_value_def example_map_def)
  then show ?thesis
    using sorted_map_is_map [OF o s, where src = null_source and es = 8 and ea = 4 and key = 5 and v = 0 and m = "()"]
      sorted_map_is_map [OF o s, where src = null_source and es = 8 and ea = 4 and key = 4 and v = 0 and m = "()"]
    by (cases "map_erase (<) example_map 5") auto
qed

end
