(* ===== verification/Can.thy ===== *)
theory Can
  imports Framer
begin

text \<open>
  The CAN identifiers and control frames of \<^verbatim>\<open>can.hpp\<close> and the data-field windows of
  \<^verbatim>\<open>can_framing.hpp\<close>. The lemmas show that identifiers pack and unpack exactly and keep the bus
  priority order, that an advertise reads back as it was written, that the resynchronisation test
  accepts exactly the prefixes that can still become a frame, and that the windows tile a payload.
\<close>

unbundle bit_operations_syntax

section \<open>Identifiers\<close>

definition kVersionBits :: nat where "kVersionBits = 4"
definition kNodeBits :: nat where "kNodeBits = 13"
definition kEndpointBits :: nat where "kEndpointBits = 12"
definition kIdBits :: nat where "kIdBits = 29"

definition kVersionMax :: "32 word" where "kVersionMax = push_bit kVersionBits 1 - 1"
definition kNodeMax :: "32 word" where "kNodeMax = push_bit kNodeBits 1 - 1"
definition kEndpointMax :: "32 word" where "kEndpointMax = push_bit kEndpointBits 1 - 1"
definition kIdMax :: "32 word" where "kIdMax = push_bit kIdBits 1 - 1"

record can_id_fields_t =
  id_version :: "8 word"
  id_node :: "16 word"
  id_endpoint :: "16 word"

definition encode_can_id :: "can_id_fields_t \<Rightarrow> 32 word" where
  "encode_can_id f =
     (let v = ucast (id_version f) AND kVersionMax;
          n = ucast (id_node f) AND kNodeMax;
          e = ucast (id_endpoint f) AND kEndpointMax
      in push_bit (kNodeBits + kEndpointBits) v OR push_bit kEndpointBits n OR e)"

definition decode_can_id :: "32 word \<Rightarrow> can_id_fields_t option" where
  "decode_can_id i =
     (if i > kIdMax then None
      else Some \<lparr>id_version = ucast (drop_bit (kNodeBits + kEndpointBits) i AND kVersionMax),
                 id_node = ucast (drop_bit kEndpointBits i AND kNodeMax),
                 id_endpoint = ucast (i AND kEndpointMax)\<rparr>)"

definition slice_can_id :: "can_id_fields_t \<Rightarrow> nat \<Rightarrow> 32 word option" where
  "slice_can_id base index =
     (let slot = unat (id_endpoint base) + index
      in if slot > unat kEndpointMax then None else Some (encode_can_id (base\<lparr>id_endpoint := of_nat slot\<rparr>)))"

section \<open>Advertise frames\<close>

definition kAdvertiseMagic :: byte where "kAdvertiseMagic = 0xAD"
definition kAdvertiseFormatVersion :: byte where "kAdvertiseFormatVersion = 0x02"
definition kAdvertiseHeaderSize :: nat where "kAdvertiseHeaderSize = 18"
definition kCanBroadcastNode :: "16 word" where "kCanBroadcastNode = 0xFFFF"
definition kAdvertiseFlagGroup :: byte where "kAdvertiseFlagGroup = 0x01"
definition kAdvertiseMaxPathLen :: nat where "kAdvertiseMaxPathLen = 1024"

record advertise_t =
  ad_can_id :: "32 word"
  ad_group :: bool
  ad_group_total_len :: "32 word"
  ad_slice_count :: "16 word"
  ad_target :: "16 word"
  ad_path :: bytes

definition put_u16 :: "16 word \<Rightarrow> bytes" where
  "put_u16 v = [ucast (v AND 0xFF), ucast (drop_bit 8 v AND 0xFF)]"

definition put_u32 :: "32 word \<Rightarrow> bytes" where
  "put_u32 v = put_u16 (ucast (v AND 0xFFFF)) @ put_u16 (ucast (drop_bit 16 v AND 0xFFFF))"

definition encode_advertise_header :: "advertise_t \<Rightarrow> bytes \<Rightarrow> bytes option" where
  "encode_advertise_header a path =
     (if length path > kAdvertiseMaxPathLen then None
      else Some ([kAdvertiseMagic, kAdvertiseFormatVersion, (if ad_group a then kAdvertiseFlagGroup else 0), 0]
             @ put_u32 (ad_can_id a) @ put_u32 (ad_group_total_len a) @ put_u16 (ad_slice_count a) @ put_u16 (ad_target a)
             @ put_u16 (of_nat (length path))))"

definition get_u16 :: "bytes \<Rightarrow> nat \<Rightarrow> 16 word" where
  "get_u16 buf i = ucast (buf ! i) OR push_bit 8 (ucast (buf ! (i + 1)))"

definition get_u32 :: "bytes \<Rightarrow> nat \<Rightarrow> 32 word" where
  "get_u32 buf i =
     ucast (buf ! i) OR push_bit 8 (ucast (buf ! (i + 1))) OR push_bit 16 (ucast (buf ! (i + 2))) OR
     push_bit 24 (ucast (buf ! (i + 3)))"

definition decode_advertise :: "bytes \<Rightarrow> (advertise_t \<times> nat) option" where
  "decode_advertise buf =
     (if length buf < kAdvertiseHeaderSize then None
      else if buf ! 0 \<noteq> kAdvertiseMagic then None
      else if buf ! 1 \<noteq> kAdvertiseFormatVersion then None
      else if buf ! 3 \<noteq> 0 then None
      else
        let path_len = unat (get_u16 buf 16)
        in if path_len > kAdvertiseMaxPathLen then None
           else if path_len > length buf - kAdvertiseHeaderSize then None
           else Some (\<lparr>ad_can_id = get_u32 buf 4, ad_group = (buf ! 2 AND kAdvertiseFlagGroup \<noteq> 0),
                       ad_group_total_len = get_u32 buf 8, ad_slice_count = get_u16 buf 12, ad_target = get_u16 buf 14,
                       ad_path = subspan kAdvertiseHeaderSize path_len buf\<rparr>,
                      kAdvertiseHeaderSize + path_len))"

definition advertise_prefix_plausible :: "bytes \<Rightarrow> bool" where
  "advertise_prefix_plausible buf \<longleftrightarrow>
     (if buf \<noteq> [] \<and> buf ! 0 \<noteq> kAdvertiseMagic then False
      else if length buf \<ge> 2 \<and> buf ! 1 \<noteq> kAdvertiseFormatVersion then False
      else if length buf \<ge> 4 \<and> buf ! 3 \<noteq> 0 then False
      else if length buf \<ge> kAdvertiseHeaderSize \<and> unat (get_u16 buf 16) > kAdvertiseMaxPathLen then False
      else True)"

section \<open>Data-field windows\<close>

datatype can_frame_mode_t = CLASSIC | FD

definition kCanClassicMaxData :: nat where "kCanClassicMaxData = 8"
definition kCanFdMaxData :: nat where "kCanFdMaxData = 64"

definition can_max_data :: "can_frame_mode_t \<Rightarrow> nat" where
  "can_max_data mode = (if mode = FD then kCanFdMaxData else kCanClassicMaxData)"

definition can_fd_dlc_round_up :: "nat \<Rightarrow> nat" where
  "can_fd_dlc_round_up len =
     (if len \<le> 8 then len
      else if len \<le> 12 then 12
      else if len \<le> 16 then 16
      else if len \<le> 20 then 20
      else if len \<le> 24 then 24
      else if len \<le> 32 then 32
      else if len \<le> 48 then 48
      else 64)"

definition can_frame_count :: "view_t \<Rightarrow> can_frame_mode_t \<Rightarrow> nat" where
  "can_frame_count payload mode =
     (let step = can_max_data mode in (v_length payload + step - 1) div step)"

definition can_frame_at :: "seg_store \<Rightarrow> view_t \<Rightarrow> can_frame_mode_t \<Rightarrow> nat \<Rightarrow> view_t \<times> seg_store" where
  "can_frame_at s payload mode i =
     (let step = can_max_data mode;
          off = i * step;
          rest = v_length payload - off
      in subview s payload off (if rest < step then rest else step))"

section \<open>Identifiers pack exactly\<close>

lemma bit_mask32: "n \<le> 32 \<Longrightarrow> bit (push_bit n 1 - 1 :: 32 word) k \<longleftrightarrow> k < n"
  using bit_mask_iff [of n k, where 'a = "32 word"] by (auto simp: mask_eq_decr_exp push_bit_of_1)

lemma id_bits [simp]:
  "bit kVersionMax k \<longleftrightarrow> k < 4" "bit kNodeMax k \<longleftrightarrow> k < 13" "bit kEndpointMax k \<longleftrightarrow> k < 12" "bit kIdMax k \<longleftrightarrow> k < 29"
  unfolding kVersionMax_def kNodeMax_def kEndpointMax_def kIdMax_def kVersionBits_def kNodeBits_def kEndpointBits_def kIdBits_def
  by (simp_all only: bit_mask32)

definition id_in_range :: "can_id_fields_t \<Rightarrow> bool" where
  "id_in_range f \<longleftrightarrow> unat (id_version f) < 2 ^ 4 \<and> unat (id_node f) < 2 ^ 13 \<and> unat (id_endpoint f) < 2 ^ 12"

lemma bit_encode_can_id:
  "bit (encode_can_id f) k \<longleftrightarrow>
     (if k < 12 then bit (id_endpoint f) k else if k < 25 then bit (id_node f) (k - 12) else k < 29 \<and> bit (id_version f) (k - 25))"
  by (auto simp: encode_can_id_def Let_def kNodeBits_def kEndpointBits_def bit_simps dest: bit_imp_le_length)

lemma bit_range: "unat (x :: 'a::len word) < 2 ^ n \<longleftrightarrow> (\<forall>k. bit x k \<longrightarrow> k < n)"
proof
  assume "unat x < 2 ^ n"
  then have "take_bit n (unat x) = unat x" by (rule take_bit_nat_eq_self)
  then have "bit (unat x) k \<Longrightarrow> k < n" for k by (metis bit_take_bit_iff)
  then show "\<forall>k. bit x k \<longrightarrow> k < n" by (simp add: bit_unsigned_iff)
next
  assume h: "\<forall>k. bit x k \<longrightarrow> k < n"
  then have "take_bit n x = x" by (intro bit_word_eqI) (auto simp: bit_simps)
  then have "unat x = take_bit n (unat x)" by (metis unsigned_take_bit_eq)
  then show "unat x < 2 ^ n" by (metis take_bit_nat_less_exp)
qed

lemma word_le_bits: "(i :: 32 word) \<le> kIdMax \<longleftrightarrow> (\<forall>k. bit i k \<longrightarrow> k < 29)"
proof -
  have "unat kIdMax = 2 ^ 29 - 1" by (simp add: kIdMax_def kIdBits_def)
  then have "i \<le> kIdMax \<longleftrightarrow> unat i < 2 ^ 29" by (simp add: word_le_nat_alt) linarith
  then show ?thesis by (simp only: bit_range)
qed

lemma encode_id_range: "encode_can_id f \<le> kIdMax"
  unfolding word_le_bits by (auto simp: bit_encode_can_id split: if_splits)

lemma decode_encode_id:
  assumes "id_in_range f"
  shows "decode_can_id (encode_can_id f) = Some f"
proof -
  have r: "bit (id_version f) k \<Longrightarrow> k < 4" "bit (id_node f) k \<Longrightarrow> k < 13" "bit (id_endpoint f) k \<Longrightarrow> k < 12" for k
    using assms unfolding id_in_range_def bit_range by blast+
  have "(ucast (drop_bit 25 (encode_can_id f) AND kVersionMax) :: 8 word) = id_version f"
    by (rule bit_word_eqI) (auto simp: bit_simps bit_encode_can_id dest: r)
  moreover have "(ucast (drop_bit 12 (encode_can_id f) AND kNodeMax) :: 16 word) = id_node f"
    by (rule bit_word_eqI) (auto simp: bit_simps bit_encode_can_id dest: r)
  moreover have "(ucast (encode_can_id f AND kEndpointMax) :: 16 word) = id_endpoint f"
    by (rule bit_word_eqI) (auto simp: bit_simps bit_encode_can_id dest: r)
  ultimately show ?thesis
    using encode_id_range [of f] by (simp add: decode_can_id_def kNodeBits_def kEndpointBits_def not_less)
qed

lemma encode_decode_id:
  assumes "decode_can_id i = Some f"
  shows "encode_can_id f = i" "id_in_range f"
proof -
  have i: "bit i k \<Longrightarrow> k < 29" for k using assms word_le_bits [of i] by (auto simp: decode_can_id_def split: if_splits)
  have f: "id_version f = ucast (drop_bit 25 i AND kVersionMax)" "id_node f = ucast (drop_bit 12 i AND kNodeMax)"
    "id_endpoint f = ucast (i AND kEndpointMax)"
    using assms by (auto simp: decode_can_id_def kNodeBits_def kEndpointBits_def split: if_splits)
  show "encode_can_id f = i"
    by (rule bit_word_eqI) (auto simp: bit_encode_can_id f bit_simps dest: i)
  show "id_in_range f" unfolding id_in_range_def bit_range by (auto simp: f bit_simps)
qed

text \<open>An identifier as a number: the version leads, then the node, then the endpoint.\<close>

lemma unat_encode_id:
  assumes "id_in_range f"
  shows "unat (encode_can_id f) = unat (id_version f) * 2 ^ 25 + unat (id_node f) * 2 ^ 12 + unat (id_endpoint f)"
proof -
  define x where "x = unat (encode_can_id f)"
  have r: "bit (id_version f) k \<Longrightarrow> k < 4" "bit (id_node f) k \<Longrightarrow> k < 13" "bit (id_endpoint f) k \<Longrightarrow> k < 12" for k
    using assms unfolding id_in_range_def bit_range by blast+
  have x: "bit x k = bit (encode_can_id f) k" for k by (simp add: x_def bit_unsigned_iff)
  have "take_bit 12 x = unat (id_endpoint f)" by (rule bit_eqI) (auto simp: bit_simps x bit_encode_can_id dest: r)
  moreover have "take_bit 13 (drop_bit 12 x) = unat (id_node f)" by (rule bit_eqI) (auto simp: bit_simps x bit_encode_can_id dest: r)
  moreover have "drop_bit 13 (drop_bit 12 x) = unat (id_version f)"
    by (rule bit_eqI) (auto simp: bit_simps x bit_encode_can_id dest: r)
  moreover have "x = drop_bit 12 x * 4096 + take_bit 12 x" "drop_bit 12 x = drop_bit 13 (drop_bit 12 x) * 8192 + take_bit 13 (drop_bit 12 x)"
    using bits_ident [of 12 x] bits_ident [of 13 "drop_bit 12 x"] by (simp_all only: push_bit_eq_mult) simp_all
  ultimately have "x = (unat (id_version f) * 8192 + unat (id_node f)) * 4096 + unat (id_endpoint f)" by (simp only:)
  then show ?thesis unfolding x_def [symmetric] by simp
qed

section \<open>Advertises read back\<close>

lemma low_bits: "(v :: 16 word) AND 0xFF = take_bit 8 v" "(w :: 32 word) AND 0xFFFF = take_bit 16 w"
  by (simp_all add: take_bit_eq_mask mask_numeral)

lemma u16_back: "(ucast (ucast (v AND 0xFF) :: byte) OR push_bit 8 (ucast (ucast (drop_bit 8 v AND 0xFF) :: byte)) :: 16 word) = v"
  unfolding low_bits by (rule bit_word_eqI) (auto simp: bit_simps)

lemma u32_back:
  "(ucast (ucast (ucast (v AND 0xFFFF) AND 0xFF :: 16 word) :: byte) OR
    push_bit 8 (ucast (ucast (drop_bit 8 (ucast (v AND 0xFFFF)) AND 0xFF :: 16 word) :: byte)) OR
    push_bit 16 (ucast (ucast (ucast (drop_bit 16 v AND 0xFFFF) AND 0xFF :: 16 word) :: byte)) OR
    push_bit 24 (ucast (ucast (drop_bit 8 (ucast (drop_bit 16 v AND 0xFFFF)) AND 0xFF :: 16 word) :: byte)) :: 32 word) = v"
  (is "?l = v")
proof (rule bit_word_eqI)
  fix n assume "n < LENGTH(32)"
  then consider "n < 8" | "8 \<le> n" "n < 16" | "16 \<le> n" "n < 24" | "24 \<le> n" "n < 32" by force
  then show "bit ?l n = bit v n" unfolding low_bits by cases (auto simp: bit_simps)
qed

lemma length_put [simp]: "length (put_u16 v) = 2" "length (put_u32 w) = 4"
  by (simp_all add: put_u16_def put_u32_def)

lemma get_put_u16: "length xs = i \<Longrightarrow> get_u16 (xs @ put_u16 v @ ys) i = v"
  using u16_back [of v] by (simp add: get_u16_def put_u16_def nth_append)

lemma get_put_u32: "length xs = i \<Longrightarrow> get_u32 (xs @ put_u32 v @ ys) i = v"
  using u32_back [of v] by (simp add: get_u32_def put_u32_def put_u16_def nth_append)

lemma decode_header_bytes:
  assumes "h = [kAdvertiseMagic, kAdvertiseFormatVersion, fl, 0] @ put_u32 c @ put_u32 t @ put_u16 n @ put_u16 tg @ put_u16 pl"
    and "unat pl \<le> kAdvertiseMaxPathLen" and "unat pl \<le> length rest"
  shows "decode_advertise (h @ rest) =
    Some (\<lparr>ad_can_id = c, ad_group = (fl AND kAdvertiseFlagGroup \<noteq> 0), ad_group_total_len = t, ad_slice_count = n, ad_target = tg,
           ad_path = take (unat pl) rest\<rparr>, kAdvertiseHeaderSize + unat pl)"
proof -
  let ?m = "[kAdvertiseMagic, kAdvertiseFormatVersion, fl, 0]"
  have "get_u32 (h @ rest) 4 = c"
    using get_put_u32 [of ?m 4 c "put_u32 t @ put_u16 n @ put_u16 tg @ put_u16 pl @ rest"] by (simp add: assms(1))
  moreover have "get_u32 (h @ rest) 8 = t"
    using get_put_u32 [of "?m @ put_u32 c" 8 t "put_u16 n @ put_u16 tg @ put_u16 pl @ rest"] by (simp add: assms(1))
  moreover have "get_u16 (h @ rest) 12 = n"
    using get_put_u16 [of "?m @ put_u32 c @ put_u32 t" 12 n "put_u16 tg @ put_u16 pl @ rest"] by (simp add: assms(1))
  moreover have "get_u16 (h @ rest) 14 = tg"
    using get_put_u16 [of "?m @ put_u32 c @ put_u32 t @ put_u16 n" 14 tg "put_u16 pl @ rest"] by (simp add: assms(1))
  moreover have "get_u16 (h @ rest) 16 = pl"
    using get_put_u16 [of "?m @ put_u32 c @ put_u32 t @ put_u16 n @ put_u16 tg" 16 pl rest] by (simp add: assms(1))
  moreover have "length h = 18" "(h @ rest) ! 0 = kAdvertiseMagic" "(h @ rest) ! 1 = kAdvertiseFormatVersion" "(h @ rest) ! 2 = fl"
    "(h @ rest) ! 3 = 0"
    by (simp_all add: assms(1) nth_append)
  ultimately show ?thesis
    using assms(2,3) by (simp add: decode_advertise_def kAdvertiseHeaderSize_def Let_def subspan_def)
qed

lemma encode_advertise_decodes:
  assumes "encode_advertise_header a path = Some h"
  shows "length h = kAdvertiseHeaderSize" "decode_advertise (h @ path @ rest) = Some (a\<lparr>ad_path := path\<rparr>, kAdvertiseHeaderSize + length path)"
proof -
  have p: "length path \<le> kAdvertiseMaxPathLen" and h: "h = [kAdvertiseMagic, kAdvertiseFormatVersion, (if ad_group a then kAdvertiseFlagGroup else 0), 0]
      @ put_u32 (ad_can_id a) @ put_u32 (ad_group_total_len a) @ put_u16 (ad_slice_count a) @ put_u16 (ad_target a)
      @ put_u16 (of_nat (length path))"
    using assms by (auto simp: encode_advertise_header_def split: if_splits)
  have n: "unat (of_nat (length path) :: 16 word) = length path"
    using p by (simp add: kAdvertiseMaxPathLen_def unsigned_of_nat take_bit_nat_eq_self)
  show "length h = kAdvertiseHeaderSize" by (simp add: h kAdvertiseHeaderSize_def)
  have "decode_advertise (h @ path @ rest) =
    Some (\<lparr>ad_can_id = ad_can_id a, ad_group = ((if ad_group a then kAdvertiseFlagGroup else 0) AND kAdvertiseFlagGroup \<noteq> 0),
           ad_group_total_len = ad_group_total_len a, ad_slice_count = ad_slice_count a, ad_target = ad_target a,
           ad_path = take (unat (of_nat (length path) :: 16 word)) (path @ rest)\<rparr>,
          kAdvertiseHeaderSize + unat (of_nat (length path) :: 16 word))"
    by (rule decode_header_bytes [OF h]) (simp_all add: n p)
  then show "decode_advertise (h @ path @ rest) = Some (a\<lparr>ad_path := path\<rparr>, kAdvertiseHeaderSize + length path)"
    by (simp add: n kAdvertiseFlagGroup_def)
qed

section \<open>Resynchronisation\<close>

text \<open>A plausible prefix completed by the missing bytes of an empty header, and by as much path as its header may ask for.\<close>

definition advertise_tail :: "bytes \<Rightarrow> bytes" where
  "advertise_tail buf = drop (length buf) ([kAdvertiseMagic, kAdvertiseFormatVersion] @ replicate 16 0) @ replicate 1024 0"

lemma tail_nth:
  assumes "i < 18"
  shows "(buf @ advertise_tail buf) ! i =
    (if i < length buf then buf ! i else ([kAdvertiseMagic, kAdvertiseFormatVersion] @ replicate 16 0) ! i)"
  using assms by (auto simp: advertise_tail_def nth_append)

lemma plausible_completes:
  assumes "advertise_prefix_plausible buf"
  shows "decode_advertise (buf @ advertise_tail buf) \<noteq> None"
proof -
  define b where "b = buf @ advertise_tail buf"
  have p: "buf \<noteq> [] \<longrightarrow> buf ! 0 = kAdvertiseMagic" "length buf \<ge> 2 \<longrightarrow> buf ! 1 = kAdvertiseFormatVersion" "length buf \<ge> 4 \<longrightarrow> buf ! 3 = 0"
    "length buf \<ge> 18 \<longrightarrow> unat (get_u16 buf 16) \<le> 1024"
    using assms by (auto simp: advertise_prefix_plausible_def kAdvertiseHeaderSize_def kAdvertiseMaxPathLen_def split: if_splits)
  have len: "length b \<ge> 18 + 1024" "length buf \<ge> 18 \<Longrightarrow> length b = length buf + 1024" by (simp_all add: b_def advertise_tail_def)
  have "b ! 0 = kAdvertiseMagic" "b ! 1 = kAdvertiseFormatVersion" "b ! 3 = 0"
    using p(1-3) tail_nth [of 0 buf] tail_nth [of 1 buf] tail_nth [of 3 buf] by (auto simp: b_def)
  moreover have "unat (get_u16 b 16) \<le> 1024"
  proof (cases "length buf \<ge> 18")
    case True
    then have "get_u16 b 16 = get_u16 buf 16" by (simp add: get_u16_def b_def nth_append)
    then show ?thesis using p(4) True by simp
  next
    case False
    then have "b ! 17 = 0" using tail_nth [of 17 buf] by (simp add: b_def)
    then have "get_u16 b 16 = ucast (b ! 16)" by (simp add: get_u16_def)
    moreover have "unat (b ! 16) < 2 ^ 8" using unsigned_less [of "b ! 16"] by simp
    ultimately show ?thesis by (simp add: unsigned_ucast_eq take_bit_nat_eq_self)
  qed
  ultimately show ?thesis
    using len unfolding b_def [symmetric]
    by (auto simp: decode_advertise_def kAdvertiseHeaderSize_def kAdvertiseMaxPathLen_def Let_def)
qed

lemma decodes_plausible:
  assumes "decode_advertise (buf @ ext) \<noteq> None"
  shows "advertise_prefix_plausible buf"
proof -
  define b where "b = buf @ ext"
  have b: "length b \<ge> 18" "b ! 0 = kAdvertiseMagic" "b ! 1 = kAdvertiseFormatVersion" "b ! 3 = 0" "unat (get_u16 b 16) \<le> kAdvertiseMaxPathLen"
    using assms unfolding b_def [symmetric] by (auto simp: decode_advertise_def kAdvertiseHeaderSize_def Let_def split: if_splits)
  have at: "i < length buf \<Longrightarrow> buf ! i = b ! i" for i by (simp add: b_def nth_append)
  have "buf \<noteq> [] \<Longrightarrow> buf ! 0 = kAdvertiseMagic" "length buf \<ge> 2 \<Longrightarrow> buf ! 1 = kAdvertiseFormatVersion" "length buf \<ge> 4 \<Longrightarrow> buf ! 3 = 0"
    using at [of 0] at [of 1] at [of 3] b by auto
  moreover have "length buf \<ge> 18 \<Longrightarrow> get_u16 buf 16 = get_u16 b 16" using at [of 16] at [of 17] by (simp add: get_u16_def)
  ultimately show ?thesis using b(5) by (auto simp: advertise_prefix_plausible_def kAdvertiseHeaderSize_def)
qed

section \<open>Windows\<close>

lemma can_max_data_pos [simp]: "0 < can_max_data mode"
  by (simp add: can_max_data_def kCanFdMaxData_def kCanClassicMaxData_def)

lemma ceil_div: "0 < k \<Longrightarrow> i < (n + k - 1) div k \<longleftrightarrow> i * k < n" for n k :: nat
proof -
  assume k: "0 < k"
  have "i < (n + k - 1) div k \<longleftrightarrow> Suc i * k \<le> n + k - 1" using k by (metis Suc_le_eq less_eq_div_iff_mult_less_eq)
  also have "... \<longleftrightarrow> i * k < n" using k by auto
  finally show ?thesis .
qed

lemma can_frame_bytes:
  assumes "view_ok s payload" and "i < can_frame_count payload mode"
  shows "view_bytes (snd (can_frame_at s payload mode i)) (fst (can_frame_at s payload mode i))
    = take (can_max_data mode) (drop (i * can_max_data mode) (view_bytes s payload))"
proof -
  define k where "k = can_max_data mode"
  have off: "i * k < v_length payload" using assms(2) ceil_div [of k i "v_length payload"] by (simp add: can_frame_count_def Let_def k_def)
  have eq: "(if v_length payload - i * k < k then v_length payload - i * k else k) = min k (v_length payload - i * k)" by auto
  show ?thesis
  proof (cases "v_owner payload")
    case None
    then show ?thesis using assms(1) off by (simp add: view_ok_def)
  next
    case (Some j)
    then obtain g where g: "s j = Some g" "v_offset payload + v_length payload \<le> length (seg_bytes g)"
      using assms(1) by (auto simp: view_ok_def split: option.splits)
    have "take k (drop (i * k) (take (v_length payload) (drop (v_offset payload) (seg_bytes g))))
      = take (min k (v_length payload - i * k)) (drop (v_offset payload + i * k) (seg_bytes g))"
      by (simp only: drop_take take_take drop_drop add.commute)
    then show ?thesis
      unfolding can_frame_at_def Let_def k_def [symmetric] eq
      using Some g(1) by (simp add: subview_def view_bytes_def ptr_retain_def subspan_def)
  qed
qed

lemma concat_windows:
  assumes "0 < k"
  shows "concat (map (\<lambda>i. take k (drop (i * k) b)) [0..<n]) = take (n * k) b"
proof (induction n)
  case (Suc n)
  have "take (n * k) b @ take k (drop (n * k) b) = take (n * k + k) b" by (rule take_add [symmetric])
  then show ?case using Suc by (simp add: add.commute)
qed simp

lemma dlc_round_up: "len \<le> 64 \<Longrightarrow> len \<le> can_fd_dlc_round_up len \<and> can_fd_dlc_round_up len \<le> 64"
  by (simp add: can_fd_dlc_round_up_def)

section \<open>Properties\<close>

text \<open>
  C22. Identifiers pack exactly and carry the bus priority. Fields in range unpack as packed, every
  identifier of 29 bits unpacks to fields that pack to it and no other value unpacks, and one identifier
  is smaller than another, which wins the bus, exactly when its version, node and endpoint are
  smaller in that order of significance.
\<close>

theorem can_id_roundtrip:
  assumes "id_in_range f" and "id_in_range g"
  shows "decode_can_id (encode_can_id f) = Some f \<and>
    (decode_can_id i \<noteq> None \<longleftrightarrow> i \<le> kIdMax) \<and>
    (\<forall>h. decode_can_id i = Some h \<longrightarrow> encode_can_id h = i \<and> id_in_range h) \<and>
    (encode_can_id f < encode_can_id g \<longleftrightarrow>
       id_version f < id_version g \<or> id_version f = id_version g \<and>
         (id_node f < id_node g \<or> id_node f = id_node g \<and> id_endpoint f < id_endpoint g))"
proof -
  let ?n = "\<lambda>h. unat (id_version h) * 2 ^ 25 + unat (id_node h) * 2 ^ 12 + unat (id_endpoint h)"
  have lt: "(v * 33554432 + n * 4096 + e < v' * 33554432 + n' * 4096 + e') \<longleftrightarrow> v < v' \<or> v = v' \<and> (n < n' \<or> n = n' \<and> e < e')"
    if "n < 8192" "e < 4096" "n' < 8192" "e' < 4096" for v n e v' n' e' :: nat
    using that by (cases "v < v'"; cases "v' < v"; cases "n < n'"; cases "n' < n") simp_all
  have "encode_can_id f < encode_can_id g \<longleftrightarrow> ?n f < ?n g"
    by (simp only: word_less_nat_alt unat_encode_id [OF assms(1)] unat_encode_id [OF assms(2)])
  also have "... \<longleftrightarrow> id_version f < id_version g \<or> id_version f = id_version g \<and>
         (id_node f < id_node g \<or> id_node f = id_node g \<and> id_endpoint f < id_endpoint g)"
    using assms lt [of "unat (id_node f)" "unat (id_endpoint f)" "unat (id_node g)" "unat (id_endpoint g)" "unat (id_version f)" "unat (id_version g)"]
    by (simp add: id_in_range_def word_less_nat_alt word_unat_eq_iff)
  finally show ?thesis
    using decode_encode_id [OF assms(1)] encode_decode_id [of i] by (auto simp: decode_can_id_def not_less)
qed

theorem can_id_roundtrip_witness:
  "decode_can_id (encode_can_id \<lparr>id_version = 1, id_node = 2, id_endpoint = 9\<rparr>) = Some \<lparr>id_version = 1, id_node = 2, id_endpoint = 9\<rparr> \<and>
   encode_can_id \<lparr>id_version = 1, id_node = 2, id_endpoint = 9\<rparr> < encode_can_id \<lparr>id_version = 1, id_node = 3, id_endpoint = 0\<rparr>"
  using can_id_roundtrip [of "\<lparr>id_version = 1, id_node = 2, id_endpoint = 9\<rparr>" "\<lparr>id_version = 1, id_node = 3, id_endpoint = 0\<rparr>" 0]
  by (simp add: id_in_range_def)

text \<open>
  C23. The control stream reads back and resynchronises exactly. A header the encoder wrote, its path
  and whatever follows decode to the advertise and the bytes it took; a path over the bound is refused.
  The plausibility test accepts a buffer exactly when some continuation of it decodes, so the
  decoder never waits on bytes that cannot become a frame and never drops bytes that can.
\<close>

theorem advertise_stream:
  shows "(case encode_advertise_header a path of
       None \<Rightarrow> length path > kAdvertiseMaxPathLen
     | Some h \<Rightarrow> length h = kAdvertiseHeaderSize \<and>
         decode_advertise (h @ path @ rest) = Some (a\<lparr>ad_path := path\<rparr>, kAdvertiseHeaderSize + length path)) \<and>
    (advertise_prefix_plausible buf \<longleftrightarrow> (\<exists>ext. decode_advertise (buf @ ext) \<noteq> None))"
proof
  show "case encode_advertise_header a path of
       None \<Rightarrow> length path > kAdvertiseMaxPathLen
     | Some h \<Rightarrow> length h = kAdvertiseHeaderSize \<and>
         decode_advertise (h @ path @ rest) = Some (a\<lparr>ad_path := path\<rparr>, kAdvertiseHeaderSize + length path)"
  proof (cases "encode_advertise_header a path")
    case None
    then show ?thesis by (auto simp: encode_advertise_header_def split: if_splits)
  next
    case (Some h)
    then show ?thesis using encode_advertise_decodes [OF Some] by simp
  qed
  show "advertise_prefix_plausible buf \<longleftrightarrow> (\<exists>ext. decode_advertise (buf @ ext) \<noteq> None)"
    using plausible_completes decodes_plausible by blast
qed

end
