(* ===== verification/Can_Reassembly.thy ===== *)
theory Can_Reassembly
  imports Can Sorted_Map
begin

text \<open>
  The multi-frame reassembly buffer of \<^verbatim>\<open>can_reassembly.hpp\<close>. The groups in flight are a sorted map keyed
  by origin and timestamp; each owns one segment, which holds the message and, behind it, one
  presence bit per slice. The lemmas show that a message cut into windows comes back whole from
  slices in any order, repeated and padded, and that the bytes the open groups hold are what
  the buffer has charged and never more than its budget.
\<close>

unbundle bit_operations_syntax

section \<open>Keys\<close>

record reassembly_key_t =
  rk_origin :: bytes
  rk_ts :: "64 word"

fun origin_less :: "bytes \<Rightarrow> bytes \<Rightarrow> bool" where
  "origin_less [] [] = False"
| "origin_less [] (y # ys) = True"
| "origin_less (x # xs) [] = False"
| "origin_less (x # xs) (y # ys) = (x < y \<or> x = y \<and> origin_less xs ys)"

definition key_less :: "reassembly_key_t \<Rightarrow> reassembly_key_t \<Rightarrow> bool" where
  "key_less a b \<longleftrightarrow> origin_less (rk_origin a) (rk_origin b) \<or> rk_origin a = rk_origin b \<and> rk_ts a < rk_ts b"

lemma origin_less_irrefl: "\<not> origin_less a a"
  by (induction a) simp_all

lemma origin_less_trans: "origin_less a b \<Longrightarrow> origin_less b c \<Longrightarrow> origin_less a c"
proof (induction a b arbitrary: c rule: origin_less.induct)
  case (2 y ys)
  then show ?case by (cases c) simp_all
next
  case (4 x xs y ys)
  then show ?case by (cases c) auto
qed simp_all

lemma origin_less_total: "\<not> origin_less a b \<Longrightarrow> \<not> origin_less b a \<Longrightarrow> a = b"
  by (induction a b rule: origin_less.induct) auto

interpretation can_keys: key_order key_less
proof
  show "\<not> key_less a a" for a by (simp add: key_less_def origin_less_irrefl)
  show "key_less a b \<Longrightarrow> key_less b c \<Longrightarrow> key_less a c" for a b c
    unfolding key_less_def using origin_less_trans [of "rk_origin a" "rk_origin b" "rk_origin c"] by auto
  show "\<not> key_less a b \<Longrightarrow> \<not> key_less b a \<Longrightarrow> a = b" for a b
    unfolding key_less_def using origin_less_total [of "rk_origin a" "rk_origin b"] by auto
qed

section \<open>Groups\<close>

record group_meta_t =
  gm_seg :: segment_ptr_t
  gm_total :: "32 word"
  gm_width :: "32 word"
  gm_expected :: "32 word"
  gm_count :: "32 word"
  gm_highest :: "32 word"
  gm_seq :: "64 word"
  gm_last_touch :: "64 word"

record can_reassembly_t =
  cr_max_groups :: nat
  cr_max_message :: nat
  cr_max_inflight :: nat
  cr_inflight :: nat
  cr_next_seq :: "64 word"
  cr_dropped_groups :: "64 word"
  cr_now :: "64 word"
  cr_groups :: "(reassembly_key_t, group_meta_t) sorted_map_t"

definition cr_init :: "nat \<Rightarrow> nat \<Rightarrow> nat \<Rightarrow> can_reassembly_t" where
  "cr_init max_groups max_message max_inflight =
     \<lparr>cr_max_groups = max_groups, cr_max_message = max_message, cr_max_inflight = max_inflight, cr_inflight = 0,
      cr_next_seq = 0, cr_dropped_groups = 0, cr_now = 0, cr_groups = ba_empty\<rparr>"

definition gm_seg_bytes :: "group_meta_t \<Rightarrow> nat" where
  "gm_seg_bytes g = unat (gm_total g) + (unat (gm_expected g) + 7) div 8"

definition seg_release :: "segment_ptr_t \<Rightarrow> seg_store \<Rightarrow> seg_store" where
  "seg_release p s = (case p of None \<Rightarrow> s | Some i \<Rightarrow> s(i := None))"

definition cr_destroy :: "can_reassembly_t \<Rightarrow> seg_store \<Rightarrow> seg_store" where
  "cr_destroy r s = fold (\<lambda>e. seg_release (gm_seg (snd e))) (ba_elems (cr_groups r)) s"

definition drop_group :: "can_reassembly_t \<Rightarrow> seg_store \<Rightarrow> reassembly_key_t \<Rightarrow> can_reassembly_t \<times> seg_store" where
  "drop_group r s key =
     (case map_find key_less (cr_groups r) key of
        None \<Rightarrow> (r, s)
      | Some i \<Rightarrow>
          let g = snd (ba_elems (cr_groups r) ! i)
          in (r\<lparr>cr_inflight := cr_inflight r - gm_seg_bytes g, cr_groups := snd (map_erase key_less (cr_groups r) key)\<rparr>,
              seg_release (gm_seg g) s))"

text \<open>The index of the entry admitted first, from index \<open>i\<close> on.\<close>

function oldest_loop :: "(reassembly_key_t \<times> group_meta_t) list \<Rightarrow> nat \<Rightarrow> nat \<Rightarrow> nat" where
  "oldest_loop es i oldest =
     (if i < length es then
        oldest_loop es (i + 1) (if gm_seq (snd (es ! i)) < gm_seq (snd (es ! oldest)) then i else oldest)
      else oldest)"
  by pat_completeness auto
termination by (relation "measure (\<lambda>(es, i, oldest). length es - i)") auto

declare oldest_loop.simps [simp del]

definition evict_oldest :: "can_reassembly_t \<Rightarrow> seg_store \<Rightarrow> can_reassembly_t \<times> seg_store" where
  "evict_oldest r s =
     (if ba_elems (cr_groups r) = [] then (r, s)
      else
        case drop_group r s (fst (ba_elems (cr_groups r) ! oldest_loop (ba_elems (cr_groups r)) 1 0)) of
          (r', s') \<Rightarrow> (r'\<lparr>cr_dropped_groups := cr_dropped_groups r' + 1\<rparr>, s'))"

text \<open>
  What \<^verbatim>\<open>open_group\<close> computes from an advertise, in 64 bits: the slice width, the bytes a full run
  carries, the presence bytes and the segment size.
\<close>

definition slice_width :: "32 word \<Rightarrow> 32 word \<Rightarrow> nat \<Rightarrow> 64 word" where
  "slice_width cnt tot max_width =
     (if ucast tot \<le> (ucast cnt :: 64 word) * of_nat kCanClassicMaxData then of_nat kCanClassicMaxData else of_nat max_width)"

definition group_size :: "32 word \<Rightarrow> 32 word \<Rightarrow> 64 word" where
  "group_size cnt tot = ucast tot + (ucast cnt + 7) div 8"

definition claim_refused :: "can_reassembly_t \<Rightarrow> 32 word \<Rightarrow> 32 word \<Rightarrow> nat \<Rightarrow> 32 word \<Rightarrow> bool" where
  "claim_refused r cnt tot max_width max_count \<longleftrightarrow>
     (let width = slice_width cnt tot max_width;
          full = ucast cnt * width
      in cnt - 1 \<ge> max_count \<or> ucast tot > full \<or> ucast tot + width \<le> full \<or>
         unat tot > cr_max_message r \<or> unat (group_size cnt tot) > cr_max_inflight r - cr_inflight r)"

text \<open>
  The group table draws from \<open>src\<close>, with \<open>es\<close> and \<open>ea\<close> the size and alignment of an entry; the segment
  comes from the receive backend.
\<close>

definition open_group ::
  "'m source_ops \<Rightarrow> nat \<Rightarrow> nat \<Rightarrow> can_reassembly_t \<Rightarrow> reassembly_key_t \<Rightarrow> 32 word \<Rightarrow> 32 word \<Rightarrow> nat \<Rightarrow> 32 word \<Rightarrow> backend_t \<Rightarrow>
    seg_store \<Rightarrow> 'm \<Rightarrow> bool \<times> can_reassembly_t \<times> seg_store \<times> 'm" where
  "open_group src es ea r key cnt tot max_width max_count bk s m =
     (let (r1, s1) = (if map_contains key_less (cr_groups r) key then drop_group r s key else (r, s));
          width = slice_width cnt tot max_width;
          sz = unat (group_size cnt tot)
      in if claim_refused r1 cnt tot max_width max_count then
           (False, r1\<lparr>cr_dropped_groups := cr_dropped_groups r1 + 1\<rparr>, s1, m)
         else
           let (r2, s2) = (if cr_max_groups r1 \<noteq> 0 \<and> ba_size (cr_groups r1) \<ge> cr_max_groups r1 then evict_oldest r1 s1 else (r1, s1))
           in case bk_alloc bk s2 sz of
                (None, s3) \<Rightarrow> (False, r2\<lparr>cr_dropped_groups := cr_dropped_groups r2 + 1\<rparr>, s3, m)
              | (Some i, s3) \<Rightarrow>
                  let g = \<lparr>gm_seg = Some i, gm_total = tot, gm_width = ucast width, gm_expected = cnt, gm_count = 0,
                           gm_highest = 0, gm_seq = cr_next_seq r2, gm_last_touch = cr_now r2\<rparr>;
                      r3 = r2\<lparr>cr_next_seq := cr_next_seq r2 + 1\<rparr>
                  in (case try_emplace src es ea key_less (cr_groups r3) key g m of
                        ((None, added), groups, m') \<Rightarrow>
                          (False, r3\<lparr>cr_groups := groups, cr_dropped_groups := cr_dropped_groups r3 + 1\<rparr>, seg_release (Some i) s3, m')
                      | ((Some j, added), groups, m') \<Rightarrow>
                          (True, r3\<lparr>cr_groups := groups, cr_inflight := cr_inflight r3 + sz\<rparr>,
                           (case s3 i of
                              None \<Rightarrow> s3
                            | Some sg \<Rightarrow>
                                s3(i \<mapsto> sg\<lparr>seg_bytes := write_at (unat tot) (replicate (sz - unat tot) 0) (seg_bytes sg)\<rparr>)),
                           m')))"

text \<open>A group's segment is always live; \<open>None\<close> in the store would be undefined behaviour and leaves the state as it is.\<close>

definition add_slice ::
  "can_reassembly_t \<Rightarrow> seg_store \<Rightarrow> reassembly_key_t \<Rightarrow> 32 word \<Rightarrow> bytes \<Rightarrow> bool \<times> can_reassembly_t \<times> seg_store" where
  "add_slice r s key index slc =
     (case map_find key_less (cr_groups r) key of
        None \<Rightarrow> (False, r, s)
      | Some j \<Rightarrow>
          let g = snd (ba_elems (cr_groups r) ! j)
          in if index \<ge> gm_expected g then (False, r, s)
             else
               let off = unat index * unat (gm_width g);
                   len = min (unat (gm_width g)) (unat (gm_total g) - off)
               in if length slc < len then (False, r, s)
                  else
                    (case gm_seg g of
                       None \<Rightarrow> (True, r, s)
                     | Some i \<Rightarrow>
                         (case s i of
                            None \<Rightarrow> (True, r, s)
                          | Some sg \<Rightarrow>
                              let data = write_at off (take len slc) (seg_bytes sg);
                                  at_byte = unat (gm_total g) + unat index div 8;
                                  bits = data ! at_byte;
                                  mk = push_bit (unat index mod 8) (1 :: byte);
                                  r1 = r\<lparr>cr_groups := map_store j (\<lambda>g. g\<lparr>gm_last_touch := cr_now r\<rparr>) (cr_groups r)\<rparr>
                              in if bits AND mk \<noteq> 0 then (True, r1, s(i \<mapsto> sg\<lparr>seg_bytes := data\<rparr>))
                                 else
                                   (True,
                                    r1\<lparr>cr_groups := map_store j (\<lambda>g. g\<lparr>gm_count := gm_count g + 1, gm_highest := max (gm_highest g) index\<rparr>) (cr_groups r1)\<rparr>,
                                    s(i \<mapsto> sg\<lparr>seg_bytes := data[at_byte := bits OR mk]\<rparr>)))))"

definition find_group :: "can_reassembly_t \<Rightarrow> reassembly_key_t \<Rightarrow> group_meta_t option" where
  "find_group r key = map_option (\<lambda>j. snd (ba_elems (cr_groups r) ! j)) (map_find key_less (cr_groups r) key)"

definition cr_contains :: "can_reassembly_t \<Rightarrow> reassembly_key_t \<Rightarrow> bool" where
  "cr_contains r key = map_contains key_less (cr_groups r) key"

definition slice_count :: "can_reassembly_t \<Rightarrow> reassembly_key_t \<Rightarrow> nat" where
  "slice_count r key = (case find_group r key of None \<Rightarrow> 0 | Some g \<Rightarrow> unat (gm_count g))"

definition has_interior_gap :: "can_reassembly_t \<Rightarrow> reassembly_key_t \<Rightarrow> bool" where
  "has_interior_gap r key \<longleftrightarrow>
     (case find_group r key of None \<Rightarrow> False | Some g \<Rightarrow> gm_count g \<noteq> 0 \<and> unat (gm_count g) \<noteq> unat (gm_highest g) + 1)"

definition is_complete :: "can_reassembly_t \<Rightarrow> reassembly_key_t \<Rightarrow> bool" where
  "is_complete r key \<longleftrightarrow> (case find_group r key of None \<Rightarrow> False | Some g \<Rightarrow> gm_count g = gm_expected g)"

definition cr_take :: "can_reassembly_t \<Rightarrow> seg_store \<Rightarrow> reassembly_key_t \<Rightarrow> view_t option \<times> can_reassembly_t" where
  "cr_take r s key =
     (case find_group r key of
        None \<Rightarrow> (None, r)
      | Some g \<Rightarrow>
          if gm_count g \<noteq> gm_expected g then (None, r)
          else (Some ((view_over s (gm_seg g))\<lparr>v_length := unat (gm_total g)\<rparr>),
                r\<lparr>cr_inflight := cr_inflight r - gm_seg_bytes g, cr_groups := snd (map_erase key_less (cr_groups r) key)\<rparr>))"

definition cr_erase :: "can_reassembly_t \<Rightarrow> seg_store \<Rightarrow> reassembly_key_t \<Rightarrow> can_reassembly_t \<times> seg_store" where
  "cr_erase r s key = drop_group r s key"

definition discard :: "can_reassembly_t \<Rightarrow> seg_store \<Rightarrow> reassembly_key_t \<Rightarrow> bool \<times> can_reassembly_t \<times> seg_store" where
  "discard r s key =
     (if \<not> map_contains key_less (cr_groups r) key then (False, r, s)
      else case drop_group r s key of (r', s') \<Rightarrow> (True, r'\<lparr>cr_dropped_groups := cr_dropped_groups r' + 1\<rparr>, s'))"

definition set_now :: "can_reassembly_t \<Rightarrow> 64 word \<Rightarrow> can_reassembly_t" where
  "set_now r now = r\<lparr>cr_now := now\<rparr>"

text \<open>
  The sweep's loop: \<open>n\<close> is how many entries it has not looked at, which is the size less the index;
  a swept entry leaves the next one at its index.
\<close>

definition stale :: "64 word \<Rightarrow> 64 word \<Rightarrow> group_meta_t \<Rightarrow> bool" where
  "stale now max_age g \<longleftrightarrow> \<not> (now < gm_last_touch g \<or> now - gm_last_touch g \<le> max_age)"

fun sweep_loop :: "nat \<Rightarrow> 64 word \<Rightarrow> nat \<Rightarrow> nat \<Rightarrow> can_reassembly_t \<Rightarrow> seg_store \<Rightarrow> nat \<times> can_reassembly_t \<times> seg_store" where
  "sweep_loop 0 max_age i swept r s = (swept, r, s)"
| "sweep_loop (Suc n) max_age i swept r s =
     (let e = ba_elems (cr_groups r) ! i
      in if \<not> stale (cr_now r) max_age (snd e) then sweep_loop n max_age (i + 1) swept r s
         else
           case drop_group r s (fst e) of
             (r', s') \<Rightarrow> sweep_loop n max_age i (swept + 1) (r'\<lparr>cr_dropped_groups := cr_dropped_groups r' + 1\<rparr>) s')"

definition sweep_stale :: "can_reassembly_t \<Rightarrow> seg_store \<Rightarrow> 64 word \<Rightarrow> nat \<times> can_reassembly_t \<times> seg_store" where
  "sweep_stale r s max_age = sweep_loop (ba_size (cr_groups r)) max_age 0 0 r s"

section \<open>Groups as a map\<close>

abbreviation group_of :: "can_reassembly_t \<Rightarrow> reassembly_key_t \<Rightarrow> group_meta_t option" where
  "group_of r \<equiv> map_value (cr_groups r)"

abbreviation cr_sorted :: "can_reassembly_t \<Rightarrow> bool" where
  "cr_sorted r \<equiv> keys_sorted key_less (cr_groups r)"

lemma find_group_value: "cr_sorted r \<Longrightarrow> find_group r key = group_of r key"
  using can_keys.find_spec [of "cr_groups r" key] by (auto simp: find_group_def split: option.splits)

lemma drop_group_value:
  assumes "cr_sorted r" and "drop_group r s key = (r', s')"
  shows "cr_sorted r'" "group_of r' = (group_of r)(key := None)"
proof -
  obtain ok gs where e: "map_erase key_less (cr_groups r) key = (ok, gs)" by fastforce
  note sp = can_keys.erase_spec [OF assms(1) e] and f = can_keys.find_spec(1) [OF assms(1), of key]
  show "cr_sorted r'" "group_of r' = (group_of r)(key := None)"
    using assms sp f e by (auto simp: drop_group_def Let_def fun_eq_iff split: option.splits)
qed

lemma drop_group_fields:
  assumes "drop_group r s key = (r', s')"
  shows "cr_now r' = cr_now r" "cr_max_inflight r' = cr_max_inflight r"
  using assms by (auto simp: drop_group_def Let_def split: option.splits)

lemma evict_value:
  assumes "cr_sorted r" and "evict_oldest r s = (r', s')"
  shows "cr_sorted r'" "group_of r key = None \<Longrightarrow> group_of r' key = None"
proof -
  show "cr_sorted r'" "group_of r key = None \<Longrightarrow> group_of r' key = None"
    using assms drop_group_value [OF assms(1)]
    by (auto simp: evict_oldest_def split: if_splits prod.splits)
qed

lemma nth_write_at:
  assumes "off + length b \<le> length buf" and "p < length buf"
  shows "write_at off b buf ! p = (if off \<le> p \<and> p < off + length b then b ! (p - off) else buf ! p)"
  using assms by (auto simp: write_at_def nth_append min_def)

section \<open>One group's message\<close>

text \<open>
  A segment's bytes hold the slices \<open>S\<close> of the message \<open>P\<close>: \<open>n\<close> slices of width \<open>w\<close>, each byte of a slice
  that has arrived in its place, and one presence bit set for each slice in \<open>T\<close>.
\<close>

definition image_holds :: "nat \<Rightarrow> nat \<Rightarrow> bytes \<Rightarrow> nat set \<Rightarrow> nat set \<Rightarrow> bytes \<Rightarrow> bool" where
  "image_holds w n P S T B \<longleftrightarrow>
     length B = length P + (n + 7) div 8 \<and>
     (\<forall>p < length P. p div w \<in> S \<longrightarrow> B ! p = P ! p) \<and>
     (\<forall>j < n. bit (B ! (length P + j div 8)) (j mod 8) \<longleftrightarrow> j \<in> T)"

definition slices_fit :: "nat \<Rightarrow> nat \<Rightarrow> bytes \<Rightarrow> bool" where
  "slices_fit w n P \<longleftrightarrow> 0 < w \<and> (\<forall>j. j < n \<longleftrightarrow> j * w < length P)"

lemma presence_byte:
  fixes j n :: nat
  assumes "j < n"
  shows "j div 8 < (n + 7) div 8"
  using ceil_div [of 8 "j div 8" n] assms by simp

lemma in_window: "0 < w \<Longrightarrow> p div w = j \<longleftrightarrow> j * w \<le> p \<and> p < j * w + w" for p w j :: nat
  using dividend_less_div_times [of w p] by (auto simp: div_nat_eqI mult.commute add.commute)

lemma write_slice:
  assumes "image_holds w n P S T B" and "0 < w" and "j * w < length P"
  shows "image_holds w n P (insert j S) T (write_at (j * w) (take w (drop (j * w) P)) B)"
proof -
  let ?c = "take w (drop (j * w) P)"
  have B: "length B = length P + (n + 7) div 8" using assms(1) by (simp add: image_holds_def)
  have fits: "j * w + length ?c \<le> length P" using assms(3) by simp
  then have fitsB: "j * w + length ?c \<le> length B" using B by linarith
  have "write_at (j * w) ?c B ! p = P ! p" if p: "p < length P" "p div w \<in> insert j S" for p
  proof (cases "p div w = j")
    case True
    then have "j * w \<le> p" "p < j * w + length ?c" using in_window [OF assms(2), of p j] p(1) by auto
    then show ?thesis using fitsB B p(1) by (subst nth_write_at) auto
  next
    case False
    then have "\<not> (j * w \<le> p \<and> p < j * w + length ?c)" using in_window [OF assms(2), of p j] by auto
    then show ?thesis using fitsB B p False assms(1) by (subst nth_write_at) (auto simp: image_holds_def)
  qed
  moreover have "write_at (j * w) ?c B ! (length P + k) = B ! (length P + k)" if "k < (n + 7) div 8" for k
    using that fitsB fits B by (subst nth_write_at) auto
  ultimately show ?thesis using assms(1) fitsB presence_byte by (simp add: image_holds_def)
qed

lemma set_presence:
  assumes "image_holds w n P S T B" and "j < n"
  shows "image_holds w n P S (insert j T)
    (B[length P + j div 8 := B ! (length P + j div 8) OR push_bit (j mod 8) 1])" (is "image_holds w n P S _ ?B")
proof -
  have at: "length P + j div 8 < length B" using assms presence_byte [OF assms(2)] by (simp add: image_holds_def)
  have "bit (?B ! (length P + k div 8)) (k mod 8) \<longleftrightarrow> k \<in> insert j T" if k: "k < n" for k
  proof (cases "k div 8 = j div 8")
    case True
    then have "k mod 8 = j mod 8 \<longleftrightarrow> k = j" by (metis div_mod_decomp)
    then show ?thesis using assms(1) k at True by (auto simp: image_holds_def bit_or_iff bit_exp_iff)
  next
    case False
    then have "k \<noteq> j" by blast
    then show ?thesis using assms(1) k False by (simp add: image_holds_def)
  qed
  moreover have "p < length P \<Longrightarrow> ?B ! p = B ! p" for p by simp
  ultimately show ?thesis using assms(1) by (simp add: image_holds_def)
qed

lemma presence_test:
  "image_holds w n P S T B \<Longrightarrow> j < n \<Longrightarrow> B ! (length P + j div 8) AND push_bit (j mod 8) 1 \<noteq> 0 \<longleftrightarrow> j \<in> T"
  unfolding bit_iff_and_push_bit_not_eq_0 [symmetric] by (simp add: image_holds_def)

lemma store_store: "b < ba_size mp \<Longrightarrow> map_store b f (map_store b h mp) = map_store b (\<lambda>v. f (h v)) mp"
  by (simp add: map_store_def)

definition group_holds ::
  "can_reassembly_t \<Rightarrow> seg_store \<Rightarrow> reassembly_key_t \<Rightarrow> nat \<Rightarrow> nat \<Rightarrow> bytes \<Rightarrow> nat set \<Rightarrow> bool" where
  "group_holds r s key w n P S \<longleftrightarrow>
     cr_sorted r \<and> S \<subseteq> {..<n} \<and>
     (\<exists>g i sg. group_of r key = Some g \<and> gm_seg g = Some i \<and> s i = Some sg \<and>
        unat (gm_total g) = length P \<and> unat (gm_width g) = w \<and> unat (gm_expected g) = n \<and> unat (gm_count g) = card S \<and>
        image_holds w n P S S (seg_bytes sg))"

text \<open>What an accepted slice does, in terms of the group it finds.\<close>

lemma add_slice_run:
  assumes "cr_sorted r" and "group_of r key = Some g" and "gm_seg g = Some i" and "s i = Some sg" and "index < gm_expected g"
    and "length c = min (unat (gm_width g)) (unat (gm_total g) - unat index * unat (gm_width g))"
    and "B = write_at (unat index * unat (gm_width g)) c (seg_bytes sg)" and "k = unat (gm_total g) + unat index div 8"
    and "b = lower_bound key_less (cr_groups r) key"
  shows "add_slice r s key index (c @ pad) =
    (if B ! k AND push_bit (unat index mod 8) 1 \<noteq> 0 then
       (True, r\<lparr>cr_groups := map_store b (\<lambda>g. g\<lparr>gm_last_touch := cr_now r\<rparr>) (cr_groups r)\<rparr>, s(i \<mapsto> sg\<lparr>seg_bytes := B\<rparr>))
     else
       (True, r\<lparr>cr_groups := map_store b (\<lambda>g. g\<lparr>gm_last_touch := cr_now r, gm_count := gm_count g + 1, gm_highest := max (gm_highest g) index\<rparr>)
            (cr_groups r)\<rparr>,
        s(i \<mapsto> sg\<lparr>seg_bytes := B[k := B ! k OR push_bit (unat index mod 8) 1]\<rparr>)))"
proof -
  have at: "map_find key_less (cr_groups r) key = Some b" "snd (ba_elems (cr_groups r) ! b) = g" "b < ba_size (cr_groups r)"
    using can_keys.find_spec [OF assms(1), of key] assms(2,9) by simp_all
  have "take (min (unat (gm_width g)) (unat (gm_total g) - unat index * unat (gm_width g))) (c @ pad) = c"
    by (simp add: assms(6) [symmetric])
  then show ?thesis
    using assms(5,6) at(3) unfolding add_slice_def at(1) option.case(2) at(2) Let_def assms(3,4)
    by (simp add: assms(7,8) [symmetric] store_store not_le)
qed

lemma group_add:
  assumes holds: "group_holds r s key w n P S" and fit: "slices_fit w n P" and j: "unat index < n"
  shows "\<exists>r' s'. add_slice r s key index (take w (drop (unat index * w) P) @ pad) = (True, r', s') \<and>
    group_holds r' s' key w n P (insert (unat index) S)"
proof -
  obtain g i sg where g: "group_of r key = Some g" "gm_seg g = Some i" "s i = Some sg" "unat (gm_total g) = length P"
    "unat (gm_width g) = w" "unat (gm_expected g) = n" "unat (gm_count g) = card S"
    and img: "image_holds w n P S S (seg_bytes sg)" and srt: "cr_sorted r" and sub: "S \<subseteq> {..<n}"
    using holds unfolding group_holds_def by blast
  define c where "c = take w (drop (unat index * w) P)"
  define B where "B = write_at (unat index * w) c (seg_bytes sg)"
  have B: "image_holds w n P (insert (unat index) S) S B"
    unfolding B_def c_def using write_slice [OF img] fit j by (simp add: slices_fit_def)
  note run = add_slice_run [where r = r and s = s and key = key and g = g and i = i and sg = sg and index = index and c = c and B = B and pad = pad,
      unfolded g(4,5), OF srt g(1,2,3) _ _ B_def refl refl]
  have idx: "index < gm_expected g" "length c = min w (length P - unat index * w)"
    using j g(6) by (simp_all add: c_def word_less_nat_alt)
  note val = can_keys.store_value [OF srt g(1)]
  show ?thesis
  proof (cases "unat index \<in> S")
    case True
    then show ?thesis
      using run [OF idx] presence_test [OF B j] val sub g B unfolding group_holds_def c_def [symmetric] by (auto simp: insert_absorb)
  next
    case False
    have "card S < n" using False j sub psubset_card_mono [of "{..<n}" S] by auto
    moreover have "n < 2 ^ 32" unfolding g(6) [symmetric] by (rule order_less_le_trans [OF unsigned_less]) simp
    ultimately have cnt: "unat (gm_count g + 1) = card (insert (unat index) S)"
      using g(7) False finite_subset [OF sub] by (simp add: unat_word_ariths)
    show ?thesis
      using run [OF idx] presence_test [OF B j] set_presence [OF B j] False val j sub g cnt
      unfolding group_holds_def c_def [symmetric] by auto
  qed
qed

section \<open>Ownership and the budget\<close>

text \<open>Every open group owns a live segment of its own, as large as it was charged.\<close>

definition group_live :: "seg_store \<Rightarrow> group_meta_t \<Rightarrow> bool" where
  "group_live s g \<longleftrightarrow>
     (case gm_seg g of None \<Rightarrow> False | Some i \<Rightarrow> (case s i of None \<Rightarrow> False | Some sg \<Rightarrow> length (seg_bytes sg) = gm_seg_bytes g))"

definition entries_ok :: "seg_store \<Rightarrow> (reassembly_key_t \<times> group_meta_t) list \<Rightarrow> bool" where
  "entries_ok s es \<longleftrightarrow> list_all (\<lambda>e. group_live s (snd e)) es \<and> distinct (map (\<lambda>e. gm_seg (snd e)) es)"

definition charged :: "(reassembly_key_t \<times> group_meta_t) list \<Rightarrow> nat" where
  "charged es = sum_list (map (\<lambda>e. gm_seg_bytes (snd e)) es)"

definition cr_ok :: "can_reassembly_t \<Rightarrow> seg_store \<Rightarrow> bool" where
  "cr_ok r s \<longleftrightarrow>
     cr_sorted r \<and> entries_ok s (ba_elems (cr_groups r)) \<and>
     cr_inflight r = charged (ba_elems (cr_groups r)) \<and> cr_inflight r \<le> cr_max_inflight r \<and>
     (cr_max_groups r \<noteq> 0 \<longrightarrow> ba_size (cr_groups r) \<le> cr_max_groups r)"

lemma charged_simps [simp]: "charged [] = 0" "charged (e # es) = gm_seg_bytes (snd e) + charged es" "charged (xs @ ys) = charged xs + charged ys"
  by (simp_all add: charged_def)

lemma live_elsewhere: "gm_seg g \<noteq> Some i \<Longrightarrow> group_live (s(i := v)) g = group_live s g"
  by (auto simp: group_live_def split: option.splits)

lemma entries_release:
  assumes "entries_ok s (xs @ e # ys)"
  shows "entries_ok (seg_release (gm_seg (snd e)) s) (xs @ ys)"
proof (cases "gm_seg (snd e)")
  case (Some i)
  have other: "gm_seg (snd x) \<noteq> Some i" if "x \<in> set (xs @ ys)" for x
    using assms that Some by (auto simp: entries_ok_def) (metis image_eqI)+
  have "group_live (s(i := None)) (snd x)" if "x \<in> set (xs @ ys)" for x
    using assms that live_elsewhere [OF other [OF that]] by (auto simp: entries_ok_def list_all_iff)
  then show ?thesis using assms Some by (auto simp: entries_ok_def seg_release_def list_all_iff)
qed (use assms in \<open>auto simp: entries_ok_def seg_release_def\<close>)

lemma entries_fresh:
  assumes "entries_ok s (xs @ ys)" and "s i = None" and "gm_seg g = Some i" and "length (seg_bytes sg) = gm_seg_bytes g"
  shows "entries_ok (s(i \<mapsto> sg)) (xs @ (k, g) # ys)"
proof -
  have live: "group_live s (snd e)" if "e \<in> set (xs @ ys)" for e
    using assms(1) that unfolding entries_ok_def list_all_iff by blast
  have other: "gm_seg (snd e) \<noteq> Some i" if "e \<in> set (xs @ ys)" for e
    using live [OF that] assms(2) by (auto simp: group_live_def)
  have "group_live (s(i \<mapsto> sg)) (snd e)" if "e \<in> set (xs @ ys)" for e
    using live [OF that] live_elsewhere [OF other [OF that]] by simp
  moreover have "group_live (s(i \<mapsto> sg)) g" using assms(3,4) by (simp add: group_live_def)
  moreover have "Some i \<notin> (\<lambda>e. gm_seg (snd e)) ` set (xs @ ys)" using other by (metis imageE)
  ultimately show ?thesis using assms(1,3) by (simp add: entries_ok_def list_all_iff image_Un)
qed

lemma entries_store:
  assumes "entries_ok s (xs @ (k, g) # ys)" and "gm_seg g = Some i" and "gm_seg h = Some i"
    and "length (seg_bytes sg) = gm_seg_bytes h"
  shows "entries_ok (s(i \<mapsto> sg)) (xs @ (k, h) # ys)"
proof -
  have "s(i := None, i \<mapsto> sg) = s(i \<mapsto> sg)" by simp
  then show ?thesis
    using entries_fresh [of "s(i := None)" xs ys i h sg k] entries_release [OF assms(1)] assms(2-4) by (simp add: seg_release_def)
qed

lemma drop_group_shape:
  assumes "cr_sorted r" and "drop_group r s key = (r', s')"
  shows "(group_of r key = None \<and> r' = r \<and> s' = s) \<or>
    (\<exists>g xs ys. group_of r key = Some g \<and> ba_elems (cr_groups r) = xs @ (key, g) # ys \<and> ba_elems (cr_groups r') = xs @ ys \<and>
       cr_inflight r' = cr_inflight r - gm_seg_bytes g \<and> s' = seg_release (gm_seg g) s)"
proof (cases "group_of r key")
  case (Some g)
  obtain ok gs where e: "map_erase key_less (cr_groups r) key = (ok, gs)" by fastforce
  obtain xs ys where xy: "ba_elems (cr_groups r) = xs @ (key, g) # ys" "ba_elems gs = xs @ ys"
    using can_keys.erase_spec(5) [OF assms(1) e Some] by blast
  have "r' = r\<lparr>cr_inflight := cr_inflight r - gm_seg_bytes g, cr_groups := gs\<rparr>" "s' = seg_release (gm_seg g) s"
    using can_keys.find_spec [OF assms(1), of key] Some assms(2) e by (simp_all add: drop_group_def Let_def)
  then show ?thesis using Some xy by (intro disjI2 exI [of _ g] exI [of _ xs] exI [of _ ys]) simp
qed (use can_keys.find_spec(1) [OF assms(1), of key] assms(2) in \<open>simp add: drop_group_def\<close>)

lemma drop_group_params:
  assumes "drop_group r s key = (r', s')"
  shows "cr_now r' = cr_now r" "cr_max_inflight r' = cr_max_inflight r" "cr_max_groups r' = cr_max_groups r"
    "cr_max_message r' = cr_max_message r" "cr_dropped_groups r' = cr_dropped_groups r" "cr_next_seq r' = cr_next_seq r"
  using assms by (auto simp: drop_group_def Let_def split: option.splits)

lemma drop_group_ok:
  assumes "cr_ok r s" and "drop_group r s key = (r', s')"
  shows "cr_ok r' s'"
proof -
  have srt: "cr_sorted r" using assms(1) by (simp add: cr_ok_def)
  show ?thesis
    using drop_group_shape [OF srt assms(2)]
  proof (elim disjE exE conjE)
    fix g xs ys
    assume "ba_elems (cr_groups r) = xs @ (key, g) # ys" "ba_elems (cr_groups r') = xs @ ys" "cr_inflight r' = cr_inflight r - gm_seg_bytes g"
      "s' = seg_release (gm_seg g) s"
    then show ?thesis
      using assms(1) drop_group_params [OF assms(2)] drop_group_value [OF srt assms(2)] entries_release [of s xs "(key, g)" ys]
      by (auto simp: cr_ok_def)
  qed (use assms(1) in simp)
qed

lemma counted_ok: "cr_ok (r\<lparr>cr_dropped_groups := d\<rparr>) s = cr_ok r s"
  by (simp add: cr_ok_def)

lemma oldest_bound: "old < length es \<Longrightarrow> oldest_loop es i old < length es"
  by (induction es i old rule: oldest_loop.induct) (subst oldest_loop.simps, simp)

lemma evict_ok:
  assumes "cr_ok r s" and "evict_oldest r s = (r', s')"
  shows "cr_ok r' s'" "ba_elems (cr_groups r) \<noteq> [] \<Longrightarrow> Suc (ba_size (cr_groups r')) = ba_size (cr_groups r)"
    "cr_inflight r' \<le> cr_inflight r" "cr_max_inflight r' = cr_max_inflight r" "cr_max_groups r' = cr_max_groups r"
proof -
  define k where "k = fst (ba_elems (cr_groups r) ! oldest_loop (ba_elems (cr_groups r)) 1 0)"
  obtain r1 s1 where d: "drop_group r s k = (r1, s1)" by fastforce
  have r': "ba_elems (cr_groups r) \<noteq> [] \<Longrightarrow> r' = r1\<lparr>cr_dropped_groups := cr_dropped_groups r1 + 1\<rparr> \<and> s' = s1"
    and e: "ba_elems (cr_groups r) = [] \<Longrightarrow> r' = r \<and> s' = s"
    using assms(2) unfolding evict_oldest_def k_def [symmetric] d by simp_all
  have srt: "cr_sorted r" using assms(1) by (simp add: cr_ok_def)
  note p = drop_group_params [OF d] and sh = drop_group_shape [OF srt d]
  show "cr_ok r' s'" using drop_group_ok [OF assms(1) d] r' e assms(1) by (cases "ba_elems (cr_groups r) = []") (simp_all add: counted_ok)
  show "cr_inflight r' \<le> cr_inflight r" "cr_max_inflight r' = cr_max_inflight r" "cr_max_groups r' = cr_max_groups r"
    using sh r' e p by (cases "ba_elems (cr_groups r) = []"; auto)+
  show "Suc (ba_size (cr_groups r')) = ba_size (cr_groups r)" if ne: "ba_elems (cr_groups r) \<noteq> []"
  proof -
    have "ba_elems (cr_groups r) ! oldest_loop (ba_elems (cr_groups r)) 1 0 \<in> set (ba_elems (cr_groups r))"
      using oldest_bound [of 0 "ba_elems (cr_groups r)" 1] ne by simp
    then have "group_of r k \<noteq> None" by (auto simp: map_value_def k_def map_of_eq_None_iff)
    then show ?thesis using sh r' [OF ne] by auto
  qed
qed

lemma emplace_elems:
  assumes "try_emplace src es ea lt mp key v m = ((j, True), mp', m')"
  shows "\<exists>xs ys. ba_elems mp = xs @ ys \<and> ba_elems mp' = xs @ (key, v) # ys"
proof -
  let ?b = "lower_bound lt mp key"
  obtain m1 where "ba_emplace_at src es ea ?b (key, v) mp m = (True, mp', m1)"
    using assms by (auto simp: try_emplace_def Let_def split: if_splits prod.splits bool.splits)
  from ba_emplace_at_spec [OF this] show ?thesis
    by (intro exI [of _ "take ?b (ba_elems mp)"] exI [of _ "drop ?b (ba_elems mp)"]) simp
qed

lemma unat_group_size: "unat (group_size cnt tot) = unat tot + (unat cnt + 7) div 8"
proof -
  have c: "unat cnt < 2 ^ 32" "unat tot < 2 ^ 32" by (rule order_less_le_trans [OF unsigned_less], simp)+
  have u: "unat (ucast cnt :: 64 word) = unat cnt" "unat (ucast tot :: 64 word) = unat tot" 
    using c by (simp_all add: unsigned_ucast_eq take_bit_nat_eq_self)
  have "unat ((ucast cnt :: 64 word) + 7) = unat cnt + 7" using c(1) by (simp add: unat_word_ariths u)
  then have "unat (((ucast cnt :: 64 word) + 7) div 8) = (unat cnt + 7) div 8" by (simp add: unat_div_distrib)
  then show ?thesis using c by (simp add: group_size_def unat_word_ariths u)
qed

text \<open>The admission up to the draw: the table without the key, within its bounds, and with room for the claim.\<close>

lemma open_prepares:
  assumes "cr_ok r s" and "d1 = (if map_contains key_less (cr_groups r) key then drop_group r s key else (r, s))"
    and "\<not> claim_refused (fst d1) cnt tot mw mc"
    and "d2 = (if cr_max_groups (fst d1) \<noteq> 0 \<and> ba_size (cr_groups (fst d1)) \<ge> cr_max_groups (fst d1)
               then evict_oldest (fst d1) (snd d1) else d1)"
  shows "cr_ok (fst d2) (snd d2)" "group_of (fst d2) key = None"
    "cr_inflight (fst d2) + unat (group_size cnt tot) \<le> cr_max_inflight (fst d2)"
    "cr_max_groups (fst d2) \<noteq> 0 \<Longrightarrow> ba_size (cr_groups (fst d2)) < cr_max_groups (fst d2)"
proof -
  obtain r1 s1 where d1: "d1 = (r1, s1)" by fastforce
  obtain r2 s2 where d2: "d2 = (r2, s2)" by fastforce
  have srt: "cr_sorted r" using assms(1) by (simp add: cr_ok_def)
  have one: "cr_ok r1 s1 \<and> group_of r1 key = None"
  proof (cases "map_contains key_less (cr_groups r) key")
    case True
    then have d: "drop_group r s key = (r1, s1)" using assms(2) d1 by simp
    show ?thesis using drop_group_ok [OF assms(1) d] drop_group_value(2) [OF srt d] by simp
  next
    case False
    then show ?thesis using assms(1,2) d1 can_keys.contains_spec [OF srt, of key] by simp
  qed
  then have bounds: "cr_sorted r1" "cr_inflight r1 \<le> cr_max_inflight r1" by (simp_all add: cr_ok_def)
  moreover have "unat (group_size cnt tot) \<le> cr_max_inflight r1 - cr_inflight r1"
    using assms(3) d1 by (auto simp: claim_refused_def Let_def)
  ultimately have room: "cr_inflight r1 + unat (group_size cnt tot) \<le> cr_max_inflight r1" by simp
  have "cr_ok r2 s2 \<and> group_of r2 key = None \<and> cr_inflight r2 + unat (group_size cnt tot) \<le> cr_max_inflight r2 \<and>
    (cr_max_groups r2 \<noteq> 0 \<longrightarrow> ba_size (cr_groups r2) < cr_max_groups r2)"
  proof (cases "cr_max_groups r1 \<noteq> 0 \<and> ba_size (cr_groups r1) \<ge> cr_max_groups r1")
    case True
    then have ev: "evict_oldest r1 s1 = (r2, s2)" and ne: "ba_elems (cr_groups r1) \<noteq> []" using assms(4) d1 d2 by auto
    have "ba_size (cr_groups r1) = cr_max_groups r1" using True one by (simp add: cr_ok_def)
    then show ?thesis
      using evict_ok [OF conjunct1 [OF one] ev] evict_value(2) [OF bounds(1) ev conjunct2 [OF one]] ne room by simp
  qed (use assms(4) d1 d2 one room in auto)
  then show "cr_ok (fst d2) (snd d2)" "group_of (fst d2) key = None" "cr_inflight (fst d2) + unat (group_size cnt tot) \<le> cr_max_inflight (fst d2)"
    "cr_max_groups (fst d2) \<noteq> 0 \<Longrightarrow> ba_size (cr_groups (fst d2)) < cr_max_groups (fst d2)"
    by (simp_all add: d2)
qed

text \<open>An admission either leaves the table as it prepared it, or adds the one group with its fresh segment.\<close>

lemma open_group_shape:
  assumes fresh: "alloc_fresh (bk_alloc bk)" and ok: "cr_ok r s"
    and run: "open_group src es ea r key cnt tot mw mc bk s m = (res, r', s', m')"
  shows "\<exists>r2 s2. cr_ok r2 s2 \<and>
    (if res then
       group_of r2 key = None \<and> cr_inflight r2 + unat (group_size cnt tot) \<le> cr_max_inflight r2 \<and>
       (cr_max_groups r2 \<noteq> 0 \<longrightarrow> ba_size (cr_groups r2) < cr_max_groups r2) \<and>
       (\<exists>i sg g gs pos m1. s2 i = None \<and> length (seg_bytes sg) = unat (group_size cnt tot) \<and>
          g = \<lparr>gm_seg = Some i, gm_total = tot, gm_width = ucast (slice_width cnt tot mw), gm_expected = cnt, gm_count = 0,
               gm_highest = 0, gm_seq = cr_next_seq r2, gm_last_touch = cr_now r2\<rparr> \<and>
          try_emplace src es ea key_less (cr_groups r2) key g m = ((pos, True), gs, m1) \<and>
          r' = r2\<lparr>cr_next_seq := cr_next_seq r2 + 1, cr_groups := gs, cr_inflight := cr_inflight r2 + unat (group_size cnt tot)\<rparr> \<and>
          s' = s2(i \<mapsto> sg\<lparr>seg_bytes := write_at (unat tot) (replicate ((unat cnt + 7) div 8) 0) (seg_bytes sg)\<rparr>))
     else cr_groups r' = cr_groups r2 \<and> cr_inflight r' = cr_inflight r2 \<and> cr_max_inflight r' = cr_max_inflight r2 \<and>
          cr_max_groups r' = cr_max_groups r2 \<and> s' = s2)"
proof -
  define d1 where "d1 = (if map_contains key_less (cr_groups r) key then drop_group r s key else (r, s))"
  define d2 where "d2 = (if cr_max_groups (fst d1) \<noteq> 0 \<and> ba_size (cr_groups (fst d1)) \<ge> cr_max_groups (fst d1)
    then evict_oldest (fst d1) (snd d1) else d1)"
  obtain r1 s1 where d1: "d1 = (r1, s1)" by fastforce
  obtain r2 s2 where d2: "d2 = (r2, s2)" by fastforce
  obtain p s3 where p: "bk_alloc bk s2 (unat (group_size cnt tot)) = (p, s3)" by fastforce
  have d2': "(if cr_max_groups r1 \<noteq> 0 \<and> ba_size (cr_groups r1) \<ge> cr_max_groups r1 then evict_oldest r1 s1 else (r1, s1)) = (r2, s2)"
    using d2_def d1 d2 by simp
  note body = run [unfolded open_group_def, folded d1_def, unfolded d1 Let_def prod.case d2' p]
  show ?thesis
  proof (cases "claim_refused r1 cnt tot mw mc")
    case True
    have "cr_ok r1 s1"
      using drop_group_ok [OF ok, of key] ok d1 d1_def by (auto split: if_splits)
    then show ?thesis using body True by (intro exI [of _ r1] exI [of _ s1]) auto
  next
    case False
    note prep = open_prepares [OF ok d1_def _ d2_def, of cnt tot mw mc, unfolded d1 d2 fst_conv snd_conv, OF False]
    show ?thesis
    proof (cases p)
      case None
      then show ?thesis
        using body False alloc_fresh_refused [OF fresh p [unfolded None]] prep(1) by (intro exI [of _ r2] exI [of _ s2]) auto
    next
      case (Some i)
      obtain sg where sg: "s2 i = None" "s3 = s2(i \<mapsto> sg)" "length (seg_bytes sg) = unat (group_size cnt tot)"
        by (rule alloc_freshD [OF fresh p [unfolded Some]]) blast
      define g where "g = \<lparr>gm_seg = Some i, gm_total = tot, gm_width = ucast (slice_width cnt tot mw), gm_expected = cnt, gm_count = 0,
          gm_highest = 0, gm_seq = cr_next_seq r2, gm_last_touch = cr_now r2\<rparr>"
      obtain j added gs m1 where e: "try_emplace src es ea key_less (cr_groups r2) key g m = ((j, added), gs, m1)" by (metis prod.collapse)
      have "cr_sorted r2" using prep(1) by (simp add: cr_ok_def)
      note sp = can_keys.emplace_spec [OF this e]
      show ?thesis
      proof (cases j)
        case None
        have "seg_release (Some i) s3 = s2" using sg(1,2) by (auto simp: seg_release_def)
        then show ?thesis
          using body False sp prep(1) e unfolding Some option.case None g_def by (intro exI [of _ r2] exI [of _ s2]) auto
      next
        case (Some j')
        have e': "try_emplace src es ea key_less (cr_groups r2) key g m = ((j, True), gs, m1)" using e sp prep(2) Some by simp
        have "res" "r' = r2\<lparr>cr_next_seq := cr_next_seq r2 + 1, cr_groups := gs, cr_inflight := cr_inflight r2 + unat (group_size cnt tot)\<rparr>"
          "s' = s2(i \<mapsto> sg\<lparr>seg_bytes := write_at (unat tot) (replicate ((unat cnt + 7) div 8) 0) (seg_bytes sg)\<rparr>)"
          using body False e sg(2) unfolding \<open>p = Some i\<close> option.case Some g_def by (auto simp: unat_group_size)
        then show ?thesis
          using prep sg(1,3) e' g_def unfolding if_P [OF \<open>res\<close>]
          by (intro exI [of _ r2] exI [of _ s2] conjI exI [of _ i] exI [of _ sg] exI [of _ g] exI [of _ gs] exI [of _ j] exI [of _ m1]) blast+
      qed
    qed
  qed
qed

lemma open_group_admits:
  assumes "alloc_fresh (bk_alloc bk)" and "cr_ok r s" and "open_group src es ea r key cnt tot mw mc bk s m = (True, r', s', m')"
  obtains r2 s2 i sg g gs pos m1 where "cr_ok r2 s2" and "group_of r2 key = None"
    and "cr_inflight r2 + unat (group_size cnt tot) \<le> cr_max_inflight r2"
    and "cr_max_groups r2 \<noteq> 0 \<longrightarrow> ba_size (cr_groups r2) < cr_max_groups r2"
    and "s2 i = None" and "length (seg_bytes sg) = unat tot + (unat cnt + 7) div 8"
    and "gm_seg g = Some i" "gm_total g = tot" "gm_width g = ucast (slice_width cnt tot mw)" "gm_expected g = cnt" "gm_count g = 0"
    and "try_emplace src es ea key_less (cr_groups r2) key g m = ((pos, True), gs, m1)"
    and "r' = r2\<lparr>cr_next_seq := cr_next_seq r2 + 1, cr_groups := gs, cr_inflight := cr_inflight r2 + unat (group_size cnt tot)\<rparr>"
    and "s' = s2(i \<mapsto> sg\<lparr>seg_bytes := write_at (unat tot) (replicate ((unat cnt + 7) div 8) 0) (seg_bytes sg)\<rparr>)"
  using open_group_shape [OF assms] unfolding if_True unat_group_size by (elim exE conjE) (rule that; simp add: unat_group_size)

lemma open_group_ok:
  assumes "alloc_fresh (bk_alloc bk)" and "cr_ok r s" and "open_group src es ea r key cnt tot mw mc bk s m = (res, r', s', m')"
  shows "cr_ok r' s'"
proof (cases res)
  case True
  obtain r2 s2 i sg g gs pos m1 where ok: "cr_ok r2 s2" and room: "cr_inflight r2 + unat (group_size cnt tot) \<le> cr_max_inflight r2"
      "cr_max_groups r2 \<noteq> 0 \<longrightarrow> ba_size (cr_groups r2) < cr_max_groups r2"
    and i: "s2 i = None" and sg: "length (seg_bytes sg) = unat tot + (unat cnt + 7) div 8"
    and g: "gm_seg g = Some i" "gm_total g = tot" "gm_expected g = cnt"
    and e: "try_emplace src es ea key_less (cr_groups r2) key g m = ((pos, True), gs, m1)"
    and r': "r' = r2\<lparr>cr_next_seq := cr_next_seq r2 + 1, cr_groups := gs, cr_inflight := cr_inflight r2 + unat (group_size cnt tot)\<rparr>"
    and s': "s' = s2(i \<mapsto> sg\<lparr>seg_bytes := write_at (unat tot) (replicate ((unat cnt + 7) div 8) 0) (seg_bytes sg)\<rparr>)"
    by (rule open_group_admits [OF assms(1,2) assms(3) [unfolded eqTrueI [OF True]]]) (rule that)
  have "cr_sorted r2" using ok by (simp add: cr_ok_def)
  then have srt: "keys_sorted key_less gs" using can_keys.emplace_spec [OF _ e] by blast
  obtain xs ys where xy: "ba_elems (cr_groups r2) = xs @ ys" "ba_elems gs = xs @ (key, g) # ys" using emplace_elems [OF e] by blast
  have sz: "gm_seg_bytes g = unat (group_size cnt tot)" by (simp add: gm_seg_bytes_def g unat_group_size)
  have "entries_ok s' (xs @ (key, g) # ys)"
    unfolding s' using ok xy(1) i g(1) sg sz by (intro entries_fresh) (simp_all add: cr_ok_def unat_group_size)
  then show ?thesis using ok r' srt xy sz room by (auto simp: cr_ok_def)
next
  case False
  then show ?thesis using open_group_shape [OF assms] by (auto simp: cr_ok_def)
qed

lemma write_at_nil [simp]: "write_at off [] buf = buf"
  by (simp add: write_at_def)

lemma group_live_of: "cr_ok r s \<Longrightarrow> group_of r key = Some g \<Longrightarrow> group_live s g"
  by (auto simp: cr_ok_def entries_ok_def list_all_iff map_value_def dest!: map_of_SomeD)

text \<open>A slice touches its own group's bookkeeping and its own segment's bytes, and nothing else.\<close>

lemma add_slice_shape:
  assumes "cr_ok r s" and "add_slice r s key index slc = (res, r', s')"
  shows "(r' = r \<and> s' = s) \<or>
    (\<exists>g i sg f B. group_of r key = Some g \<and> gm_seg g = Some i \<and> s i = Some sg \<and>
       r' = r\<lparr>cr_groups := map_store (lower_bound key_less (cr_groups r) key) f (cr_groups r)\<rparr> \<and>
       s' = s(i \<mapsto> sg\<lparr>seg_bytes := B\<rparr>) \<and> length B = length (seg_bytes sg) \<and>
       gm_seg (f g) = Some i \<and> gm_seg_bytes (f g) = gm_seg_bytes g)"
proof (cases "group_of r key")
  case None
  have srt: "cr_sorted r" using assms(1) by (simp add: cr_ok_def)
  show ?thesis using None assms(2) can_keys.find_spec(1) [OF srt, of key] by (simp add: add_slice_def)
next
  case (Some g)
  have srt: "cr_sorted r" using assms(1) by (simp add: cr_ok_def)
  obtain i sg where i: "gm_seg g = Some i" "s i = Some sg" and live: "length (seg_bytes sg) = gm_seg_bytes g"
    using group_live_of [OF assms(1) Some] by (auto simp: group_live_def split: option.splits)
  define b where "b = lower_bound key_less (cr_groups r) key"
  have at: "map_find key_less (cr_groups r) key = Some b" "snd (ba_elems (cr_groups r) ! b) = g" "b < ba_size (cr_groups r)"
    using can_keys.find_spec [OF srt, of key] Some by (simp_all add: b_def)
  define off where "off = unat index * unat (gm_width g)"
  define len where "len = min (unat (gm_width g)) (unat (gm_total g) - off)"
  have l: "length (write_at off (take len slc) (seg_bytes sg)) = length (seg_bytes sg)"
  proof (cases "len = 0")
    case False
    then have "off + len \<le> length (seg_bytes sg)" using live unfolding len_def gm_seg_bytes_def by linarith
    then show ?thesis by (intro length_write_at) simp
  qed simp
  note body = assms(2) [unfolded add_slice_def at(1) option.case at(2) Let_def i, folded off_def, folded len_def, unfolded i option.case]
  consider "r' = r" "s' = s"
    | f B where "r' = r\<lparr>cr_groups := map_store b f (cr_groups r)\<rparr>" "s' = s(i \<mapsto> sg\<lparr>seg_bytes := B\<rparr>)" "length B = length (seg_bytes sg)"
      "gm_seg (f g) = Some i" "gm_seg_bytes (f g) = gm_seg_bytes g"
    using body l i(1) at(3) by (auto simp: store_store gm_seg_bytes_def split: if_splits)
  then show ?thesis using Some i unfolding b_def by cases blast+
qed

lemma add_slice_ok:
  assumes "cr_ok r s" and "add_slice r s key index slc = (res, r', s')"
  shows "cr_ok r' s'"
proof -
  have srt: "cr_sorted r" using assms(1) by (simp add: cr_ok_def)
  show ?thesis
    using add_slice_shape [OF assms]
  proof (elim disjE exE conjE)
    fix g i sg f B
    assume g: "group_of r key = Some g" and i: "gm_seg g = Some i" "s i = Some sg"
      and r': "r' = r\<lparr>cr_groups := map_store (lower_bound key_less (cr_groups r) key) f (cr_groups r)\<rparr>"
      and s': "s' = s(i \<mapsto> sg\<lparr>seg_bytes := B\<rparr>)" and B: "length B = length (seg_bytes sg)"
      and f: "gm_seg (f g) = Some i" "gm_seg_bytes (f g) = gm_seg_bytes g"
    obtain xs ys where xy: "ba_elems (cr_groups r) = xs @ (key, g) # ys" "ba_elems (cr_groups r') = xs @ (key, f g) # ys"
      using can_keys.store_spec [OF srt g, of f] by (auto simp: r')
    have "length (seg_bytes sg) = gm_seg_bytes g" using group_live_of [OF assms(1) g] i by (simp add: group_live_def)
    then have "entries_ok s' (xs @ (key, f g) # ys)"
      unfolding s' using assms(1) xy(1) i(1) B f by (intro entries_store) (simp_all add: cr_ok_def)
    moreover have "cr_sorted r'" using can_keys.store_value(2) [OF srt g, of f] by (simp add: r')
    moreover have "cr_inflight r' = cr_inflight r" "cr_max_inflight r' = cr_max_inflight r" "cr_max_groups r' = cr_max_groups r" by (simp_all add: r')
    ultimately show ?thesis using assms(1) xy f(2) by (simp add: cr_ok_def)
  qed (use assms(1) in simp)
qed

text \<open>Taking a message out forgets the group and leaves its segment to the caller.\<close>

lemma entries_forget: "entries_ok s (xs @ e # ys) \<Longrightarrow> entries_ok s (xs @ ys)"
  by (auto simp: entries_ok_def)

lemma take_value:
  assumes "cr_sorted r" and "group_of r key = Some g" and "gm_count g = gm_expected g"
  shows "\<exists>xs ys gs. ba_elems (cr_groups r) = xs @ (key, g) # ys \<and> ba_elems gs = xs @ ys \<and> keys_sorted key_less gs \<and>
    map_value gs = (group_of r)(key := None) \<and>
    cr_take r s key = (Some ((view_over s (gm_seg g))\<lparr>v_length := unat (gm_total g)\<rparr>),
      r\<lparr>cr_inflight := cr_inflight r - gm_seg_bytes g, cr_groups := gs\<rparr>)"
proof -
  obtain ok gs where e: "map_erase key_less (cr_groups r) key = (ok, gs)" by fastforce
  note sp = can_keys.erase_spec [OF assms(1) e]
  show ?thesis
    using sp(2,3) sp(5) [OF assms(2)] assms(2,3) e by (auto simp: cr_take_def find_group_value [OF assms(1)])
qed

lemma take_ok:
  assumes "cr_ok r s" and "cr_take r s key = (v, r')"
  shows "cr_ok r' s"
proof -
  have srt: "cr_sorted r" using assms(1) by (simp add: cr_ok_def)
  consider "r' = r" | g where "group_of r key = Some g" "gm_count g = gm_expected g"
    using assms(2) by (auto simp: cr_take_def find_group_value [OF srt] split: option.splits if_splits)
  then show ?thesis
  proof cases
    case 2
    obtain xs ys gs where xy: "ba_elems (cr_groups r) = xs @ (key, g) # ys" "ba_elems gs = xs @ ys" "keys_sorted key_less gs"
      and r': "r' = r\<lparr>cr_inflight := cr_inflight r - gm_seg_bytes g, cr_groups := gs\<rparr>"
      using take_value [OF srt 2, of s] assms(2) by auto
    then show ?thesis using assms(1) entries_forget [of s xs "(key, g)" ys] by (auto simp: cr_ok_def)
  qed (use assms(1) in simp)
qed

lemma discard_ok: "cr_ok r s \<Longrightarrow> discard r s key = (res, r', s') \<Longrightarrow> cr_ok r' s'"
  by (auto simp: discard_def counted_ok split: if_splits prod.splits dest: drop_group_ok)

text \<open>The sweep drops exactly the stale groups, in one pass over the table.\<close>

lemma sweep_loop_spec:
  assumes "cr_ok r s" and "ba_elems (cr_groups r) = xs @ ys" and "sweep_loop (length ys) age (length xs) k r s = (res, r', s')"
  shows "cr_ok r' s' \<and> ba_elems (cr_groups r') = xs @ filter (\<lambda>e. \<not> stale (cr_now r) age (snd e)) ys \<and>
    res = k + length (filter (\<lambda>e. stale (cr_now r) age (snd e)) ys) \<and>
    cr_dropped_groups r' = cr_dropped_groups r + of_nat (length (filter (\<lambda>e. stale (cr_now r) age (snd e)) ys)) \<and> cr_now r' = cr_now r"
  using assms
proof (induction ys arbitrary: xs k r s)
  case (Cons e ys)
  obtain key g where e: "e = (key, g)" by fastforce
  show ?case
  proof (cases "stale (cr_now r) age g")
    case False
    then show ?thesis using Cons.IH [of r s "xs @ [e]" k] Cons.prems e by (simp add: nth_append)
  next
    case True
    obtain r1 s1 where d: "drop_group r s key = (r1, s1)" by fastforce
    define r2 where "r2 = r1\<lparr>cr_dropped_groups := cr_dropped_groups r1 + 1\<rparr>"
    have srt: "cr_sorted r" using Cons.prems(1) by (simp add: cr_ok_def)
    have mem: "(key, g) \<in> set (ba_elems (cr_groups r))" using Cons.prems(2) e by simp
    have "group_of r key = Some g" unfolding map_value_def by (rule map_of_is_SomeI [OF can_keys.keys_distinct [OF srt] mem])
    then obtain us vs where uv: "ba_elems (cr_groups r) = us @ (key, g) # vs" "ba_elems (cr_groups r1) = us @ vs"
      using drop_group_shape [OF srt d] by auto
    have "distinct (map fst (us @ (key, g) # vs))" using can_keys.keys_distinct [OF srt] unfolding uv(1) .
    then have "(key, g) \<notin> set us" "(key, g) \<notin> set vs" by force+
    then have "us = xs \<and> vs = ys" using append_Cons_eq_iff [of "(key, g)" us vs xs ys] uv(1) Cons.prems(2) e by simp
    then have el: "ba_elems (cr_groups r2) = xs @ ys" using uv(2) by (simp add: r2_def)
    have ok: "cr_ok r2 s1" using drop_group_ok [OF Cons.prems(1) d] by (simp add: r2_def counted_ok)
    have "sweep_loop (length ys) age (length xs) (k + 1) r2 s1 = (res, r', s')"
      using Cons.prems(2,3) True d e by (simp add: nth_append r2_def)
    from Cons.IH [OF ok el this] show ?thesis using True e drop_group_params [OF d] by (simp add: r2_def)
  qed
qed simp

end
