(* ===== verification/Spec2Isabelle.thy ===== *)
theory Spec2Isabelle
  imports Crc Mem_Source Block_Array Emit Grammar Grammar_Walk Frame Reader Tlv Codec Segment Rope Rope_Decode Arena
    Packed_Path Key_View Status Path Placement Framer Ws_Frame Plain_Tlv Acl Path_Object Sorted_Map Can Can_Reassembly
begin

text \<open>
  \<^bold>\<open>libtracer\<close>: the wire core.
\<close>

end
